(* ===== verification/Prelude.thy ===== *)
theory Prelude
  imports Main "HOL-Library.Word"
begin

text \<open>
  Shared vocabulary of the development.  A C string is a list of bytes without its final
  NUL; reading the byte at the end of the list yields the terminator, so that the guards of the
  code on \<open>string[i]\<close> can be written as they are.  A \<open>NULL\<close> pointer is \<open>None\<close>.
  Bytes are \<open>char\<close>, read as unsigned numbers below 256 by \<open>byte\<close>.  The rest of the theory
  holds the bit-mask arithmetic that the encoders and decoders share.
\<close>

unbundle bit_operations_syntax

named_theorems byte_simps \<open>masks and shifts on bytes, as arithmetic\<close>

type_synonym cstr = "char list"

abbreviation byte :: "char \<Rightarrow> nat" where
  "byte c \<equiv> of_char c"

abbreviation chr :: "nat \<Rightarrow> char" where
  "chr n \<equiv> char_of n"

abbreviation NUL :: char where
  "NUL \<equiv> CHR 0x00"

text \<open>The byte at an index of a C string; the terminator beyond the last one.\<close>

definition bat :: "cstr \<Rightarrow> nat \<Rightarrow> nat" where
  "bat s i = (if i < length s then byte (s ! i) else 0)"

text \<open>A list of bytes is the content of a C string when it holds no NUL.\<close>

definition cstr_ok :: "cstr \<Rightarrow> bool" where
  "cstr_ok s \<longleftrightarrow> NUL \<notin> set s"

lemma byte_less [simp]: "byte c < 256"
  by (metis of_char_mod_256 mod_less_divisor zero_less_numeral)

lemma byte_le [simp]: "byte c \<le> 255"
  using byte_less [of c] by linarith

lemma byte_eq_numeral: "byte c = n \<longleftrightarrow> n < 256 \<and> c = chr n"
  by (metis byte_less char_of_char mod_less of_char_of)

lemma byte_0_iff [simp]: "byte c = 0 \<longleftrightarrow> c = NUL"
  using of_char_eq_iff [where 'a = nat, of c NUL] by simp

lemma bat_0_Nil [simp]: "bat [] i = 0"
  by (simp add: bat_def)

lemma bat_Cons_0 [simp]: "bat (c # s) 0 = byte c"
  by (simp add: bat_def)

lemma bat_Cons_Suc [simp]: "bat (c # s) (Suc i) = bat s i"
  by (simp add: bat_def)

lemma bat_Cons_numeral [simp]: "bat (c # s) (numeral k) = bat s (pred_numeral k)"
  by (simp add: numeral_eq_Suc)

lemma bat_less [simp]: "bat s i < 256"
  by (simp add: bat_def)

lemma bat_append: "bat (s @ t) i = (if i < length s then bat s i else bat t (i - length s))"
  by (auto simp: bat_def nth_append)

lemma cstr_ok_Nil [simp]: "cstr_ok []"
  by (simp add: cstr_ok_def)

lemma cstr_ok_Cons [simp]: "cstr_ok (c # s) \<longleftrightarrow> c \<noteq> NUL \<and> cstr_ok s"
  by (auto simp: cstr_ok_def)

lemma cstr_ok_append [simp]: "cstr_ok (s @ t) \<longleftrightarrow> cstr_ok s \<and> cstr_ok t"
  by (auto simp: cstr_ok_def)

lemma cstr_ok_drop [intro]: "cstr_ok s \<Longrightarrow> cstr_ok (drop n s)"
  by (auto simp: cstr_ok_def dest: in_set_dropD)

lemma cstr_ok_take [intro]: "cstr_ok s \<Longrightarrow> cstr_ok (take n s)"
  by (auto simp: cstr_ok_def dest: in_set_takeD)

lemma bat_0_iff: "cstr_ok s \<Longrightarrow> bat s i = 0 \<longleftrightarrow> length s \<le> i"
  by (auto simp: bat_def cstr_ok_def in_set_conv_nth)

lemma byte_chr [simp]: "n < 256 \<Longrightarrow> byte (chr n) = n"
  by simp

lemma chr_eq_NUL: "n < 256 \<Longrightarrow> chr n = NUL \<longleftrightarrow> n = 0"
  by (metis byte_0_iff byte_chr)

subsection \<open>Masks and shifts\<close>

lemma and_low_mask: "(n::nat) AND mask k = n mod 2 ^ k"
  by (metis take_bit_eq_mask take_bit_eq_mod)

lemma and_high_mask: "(n::nat) AND push_bit m (mask k) = 2 ^ m * (n div 2 ^ m mod 2 ^ k)"
proof -
  have "n AND push_bit m (mask k) = push_bit m (drop_bit m n AND mask k)"
    by (rule bit_eqI) (auto simp: bit_simps)
  then show ?thesis
    by (simp add: and_low_mask push_bit_eq_mult drop_bit_eq_div mult.commute)
qed

lemma or_disjoint: "m < 2 ^ k \<Longrightarrow> (2 ^ k * n) OR (m::nat) = 2 ^ k * n + m"
proof -
  assume "m < 2 ^ k"
  then have m: "m = take_bit k m"
    by (simp add: take_bit_nat_eq_self)
  have "push_bit k n AND take_bit k m = 0"
    by (rule bit_eqI) (auto simp: bit_simps)
  then have "push_bit k n + m = push_bit k n OR m"
    using m by (intro disjunctive_add_eq_or) simp
  then show ?thesis by (simp add: push_bit_eq_mult mult.commute)
qed

lemma and_0x01 [byte_simps]: "(n::nat) AND 0x01 = n mod 2"
  using and_low_mask [of n 1] by (simp add: mask_eq_exp_minus_1)

lemma and_0x03 [byte_simps]: "(n::nat) AND 0x03 = n mod 4"
  using and_low_mask [of n 2] by (simp add: mask_eq_exp_minus_1)

lemma and_0x07 [byte_simps]: "(n::nat) AND 0x07 = n mod 8"
  using and_low_mask [of n 3] by (simp add: mask_eq_exp_minus_1)

lemma and_0x0F [byte_simps]: "(n::nat) AND 0x0F = n mod 16"
  using and_low_mask [of n 4] by (simp add: mask_eq_exp_minus_1)

lemma and_0x1F [byte_simps]: "(n::nat) AND 0x1F = n mod 32"
  using and_low_mask [of n 5] by (simp add: mask_eq_exp_minus_1)

lemma and_0x3F [byte_simps]: "(n::nat) AND 0x3F = n mod 64"
  using and_low_mask [of n 6] by (simp add: mask_eq_exp_minus_1)

lemma and_0x7F [byte_simps]: "(n::nat) AND 0x7F = n mod 128"
  using and_low_mask [of n 7] by (simp add: mask_eq_exp_minus_1)

lemma and_0xFF [byte_simps]: "(n::nat) AND 0xFF = n mod 256"
  using and_low_mask [of n 8] by (simp add: mask_eq_exp_minus_1)

lemma high_bits_eq:
  assumes "n < d * k" and "0 < (d::nat)"
  shows "d * (n div d mod k) = d * q \<longleftrightarrow> d * q \<le> n \<and> n < d * Suc q"
proof -
  have "n div d < k"
    using assms by (simp add: less_mult_imp_div_less mult.commute)
  then have "d * (n div d mod k) = d * q \<longleftrightarrow> n div d = q"
    using assms(2) by simp
  also have "\<dots> \<longleftrightarrow> d * q \<le> n \<and> n < d * Suc q"
    using assms(2)
    by (metis div_nat_eqI div_times_less_eq_dividend dividend_less_div_times mult.commute mult_Suc)
  finally show ?thesis .
qed

text \<open>The class of a lead or continuation byte of UTF-8, as the range of its values.\<close>

lemma and_0x80: "(n::nat) AND 0x80 = 128 * (n div 128 mod 2)"
  using and_high_mask [of n 7 1] by (simp add: mask_eq_exp_minus_1 push_bit_eq_mult)

lemma and_0xC0: "(n::nat) AND 0xC0 = 64 * (n div 64 mod 4)"
  using and_high_mask [of n 6 2] by (simp add: mask_eq_exp_minus_1 push_bit_eq_mult)

lemma and_0xE0: "(n::nat) AND 0xE0 = 32 * (n div 32 mod 8)"
  using and_high_mask [of n 5 3] by (simp add: mask_eq_exp_minus_1 push_bit_eq_mult)

lemma and_0xF0: "(n::nat) AND 0xF0 = 16 * (n div 16 mod 16)"
  using and_high_mask [of n 4 4] by (simp add: mask_eq_exp_minus_1 push_bit_eq_mult)

lemma and_0xF8: "(n::nat) AND 0xF8 = 8 * (n div 8 mod 32)"
  using and_high_mask [of n 3 5] by (simp add: mask_eq_exp_minus_1 push_bit_eq_mult)

lemma and_0xC0_eq [byte_simps]: "(n::nat) < 256 \<Longrightarrow> n AND 0xC0 = 0x80 \<longleftrightarrow> 0x80 \<le> n \<and> n < 0xc0"
  using high_bits_eq [of n 64 4 2] by (simp add: and_0xC0)

lemma and_0xE0_eq [byte_simps]: "(n::nat) < 256 \<Longrightarrow> n AND 0xE0 = 0xC0 \<longleftrightarrow> 0xC0 \<le> n \<and> n < 0xe0"
  using high_bits_eq [of n 32 8 6] by (simp add: and_0xE0)

lemma and_0xF0_eq [byte_simps]: "(n::nat) < 256 \<Longrightarrow> n AND 0xF0 = 0xE0 \<longleftrightarrow> 0xE0 \<le> n \<and> n < 0xf0"
  using high_bits_eq [of n 16 16 14] by (simp add: and_0xF0)

lemma and_0xF8_eq [byte_simps]: "(n::nat) < 256 \<Longrightarrow> n AND 0xF8 = 0xF0 \<longleftrightarrow> 0xF0 \<le> n \<and> n < 0xf8"
  using high_bits_eq [of n 8 32 30] by (simp add: and_0xF8)

lemma and_0x80_neq_0 [byte_simps]: "(n::nat) < 256 \<Longrightarrow> n AND 0x80 = 0 \<longleftrightarrow> n < 128"
  using high_bits_eq [of n 128 2 0] by (simp add: and_0x80)

text \<open>Setting the marker bits of a UTF-8 byte above a payload that leaves them free.\<close>

lemma or_0x80 [byte_simps]: "n < 64 \<Longrightarrow> 0x80 OR (n::nat) = 0x80 + n"
  using or_disjoint [of n 6 2] by simp

lemma or_0xC0 [byte_simps]: "n < 32 \<Longrightarrow> 0xC0 OR (n::nat) = 0xC0 + n"
  using or_disjoint [of n 5 6] by simp

lemma or_0xE0 [byte_simps]: "n < 16 \<Longrightarrow> 0xE0 OR (n::nat) = 0xE0 + n"
  using or_disjoint [of n 4 14] by simp

lemma or_0xF0 [byte_simps]: "n < 8 \<Longrightarrow> 0xF0 OR (n::nat) = 0xF0 + n"
  using or_disjoint [of n 3 30] by simp

lemma mod_marker [byte_simps]:
  "(a::nat) < 64 \<Longrightarrow> (128 + a) mod 64 = a"
  "(a::nat) < 32 \<Longrightarrow> (192 + a) mod 32 = a"
  "(a::nat) < 16 \<Longrightarrow> (224 + a) mod 16 = a"
  "(a::nat) < 8 \<Longrightarrow> (240 + a) mod 8 = a"
  using mod_mult_self4 [of 64 2 a] mod_mult_self4 [of 32 6 a]
    mod_mult_self4 [of 16 14 a] mod_mult_self4 [of 8 30 a] by simp_all

lemma sub_marker [byte_simps]:
  "192 \<le> n \<Longrightarrow> n < 224 \<Longrightarrow> n mod 32 = n - (192::nat)"
  "224 \<le> n \<Longrightarrow> n < 240 \<Longrightarrow> n mod 16 = n - (224::nat)"
  "240 \<le> n \<Longrightarrow> n < 248 \<Longrightarrow> n mod 8 = n - (240::nat)"
  "128 \<le> n \<Longrightarrow> n < 192 \<Longrightarrow> n mod 64 = n - (128::nat)"
  using mod_marker(2) [of "n - 192"] mod_marker(3) [of "n - 224"]
    mod_marker(4) [of "n - 240"] mod_marker(1) [of "n - 128"] by simp_all

subsection \<open>Lists\<close>

lemma length_gt_2E:
  assumes "2 < length t"
  obtains a b c u where "t = a # b # c # u"
  using assms by (cases t; cases "tl t"; cases "tl (tl t)") auto

lemma bat_append_Suc:
  "bat (p @ t) (length p) = bat t 0" "bat (p @ t) (Suc (length p)) = bat t 1"
  "bat (p @ t) (Suc (Suc (length p))) = bat t 2" "bat (p @ t) (Suc (Suc (Suc (length p)))) = bat t 3"
  by (simp_all add: bat_append)

text \<open>A number below 2 to the 18 (24) written with digits of base 64.\<close>

lemma digits2: "v = 64 * (v div 64) + v mod (64::nat)" by simp
lemma digits3: "v = 4096 * (v div 4096) + 64 * (v div 64 mod 64) + v mod (64::nat)"
proof -
  have "v div 64 = 64 * (v div 64 div 64) + v div 64 mod 64" by simp
  then have "v = 64 * (64 * (v div 64 div 64) + v div 64 mod 64) + v mod 64"
    by (metis digits2)
  then show ?thesis by (simp add: div_mult2_eq [symmetric] algebra_simps)
qed
lemma digits4: "v = 262144 * (v div 262144) + 4096 * (v div 4096 mod 64) + 64 * (v div 64 mod 64) + v mod (64::nat)"
proof -
  have "v div 64 = 4096 * (v div 64 div 4096) + 64 * (v div 64 div 64 mod 64) + v div 64 mod 64"
    by (rule digits3)
  then have "v = 64 * (4096 * (v div 64 div 4096) + 64 * (v div 64 div 64 mod 64) + v div 64 mod 64) + v mod 64"
    by (metis digits2)
  then show ?thesis by (simp add: div_mult2_eq [symmetric] algebra_simps)
qed

end
