(* ===== verification/Utf8.thy ===== *)
theory Utf8
  imports Prelude
begin

text \<open>
  The UTF-8 layer, \<open>src/core/wee-utf8.c\<close>: decoding and encoding of one char, validation and
  normalization of a string, and the conversions between positions in bytes and in chars on which
  the rest of the program relies.  A pointer into a string is the suffix it points to; a pointer
  returned by \<open>utf8_next_char\<close> is its distance to the argument, because for an empty string the
  code returns a pointer one past the terminator.
\<close>

subsection \<open>One char\<close>

text \<open>\<open>string_strndup\<close>, used by \<open>utf8_strndup\<close>.\<close>

definition string_strndup :: "cstr option \<Rightarrow> int \<Rightarrow> cstr option" where
  "string_strndup string len =
     (case string of
        None \<Rightarrow> None
      | Some s \<Rightarrow>
          if len < 0 then None
          else if int (length s) < len then Some s
          else Some (take (nat len) s))"

fun utf8_has_8bits_loop :: "cstr \<Rightarrow> bool" where
  "utf8_has_8bits_loop [] = False"
| "utf8_has_8bits_loop (c # s) = (if byte c AND 0x80 \<noteq> 0 then True else utf8_has_8bits_loop s)"

definition utf8_has_8bits :: "cstr option \<Rightarrow> bool" where
  "utf8_has_8bits string = (case string of None \<Rightarrow> False | Some s \<Rightarrow> utf8_has_8bits_loop s)"

definition utf8_char_int :: "cstr option \<Rightarrow> nat" where
  "utf8_char_int string =
     (case string of
        None \<Rightarrow> 0
      | Some s \<Rightarrow>
          if bat s 0 AND 0xE0 = 0xC0 then
            if bat s 1 = 0 then bat s 0 AND 0x1F
            else push_bit 6 (bat s 0 AND 0x1F) + (bat s 1 AND 0x3F)
          else if bat s 0 AND 0xF0 = 0xE0 then
            if bat s 1 = 0 then bat s 0 AND 0x0F
            else if bat s 2 = 0 then push_bit 6 (bat s 0 AND 0x0F) + (bat s 1 AND 0x3F)
            else push_bit 12 (bat s 0 AND 0x0F) + push_bit 6 (bat s 1 AND 0x3F)
                 + (bat s 2 AND 0x3F)
          else if bat s 0 AND 0xF8 = 0xF0 then
            if bat s 1 = 0 then bat s 0 AND 0x07
            else if bat s 2 = 0 then push_bit 6 (bat s 0 AND 0x07) + (bat s 1 AND 0x3F)
            else if bat s 3 = 0 then
              push_bit 12 (bat s 0 AND 0x07) + push_bit 6 (bat s 1 AND 0x3F) + (bat s 2 AND 0x3F)
            else push_bit 18 (bat s 0 AND 0x07) + push_bit 12 (bat s 1 AND 0x3F)
                 + push_bit 6 (bat s 2 AND 0x3F) + (bat s 3 AND 0x3F)
          else bat s 0)"

text \<open>The C string left in the buffer; a value of 0 leaves it empty, as does an error.\<close>

definition utf8_int_string :: "nat \<Rightarrow> cstr" where
  "utf8_int_string v =
     (if v = 0 then []
      else if v \<le> 0x007F then [chr v]
      else if v \<le> 0x07FF then
        [chr (0xC0 OR (drop_bit 6 v AND 0x1F)), chr (0x80 OR (v AND 0x3F))]
      else if v \<le> 0xFFFF then
        [chr (0xE0 OR (drop_bit 12 v AND 0x0F)), chr (0x80 OR (drop_bit 6 v AND 0x3F)),
         chr (0x80 OR (v AND 0x3F))]
      else if v \<le> 0x1FFFFF then
        [chr (0xF0 OR (drop_bit 18 v AND 0x07)), chr (0x80 OR (drop_bit 12 v AND 0x3F)),
         chr (0x80 OR (drop_bit 6 v AND 0x3F)), chr (0x80 OR (v AND 0x3F))]
      else [])"

text \<open>The pointer to the next char, as a distance in bytes to the argument.\<close>

definition utf8_next_char :: "cstr option \<Rightarrow> nat option" where
  "utf8_next_char string =
     (case string of
        None \<Rightarrow> None
      | Some s \<Rightarrow>
          if bat s 0 AND 0xE0 = 0xC0 then
            if bat s 1 = 0 then Some 1 else Some 2
          else if bat s 0 AND 0xF0 = 0xE0 then
            if bat s 1 = 0 then Some 1 else if bat s 2 = 0 then Some 2 else Some 3
          else if bat s 0 AND 0xF8 = 0xF0 then
            if bat s 1 = 0 then Some 1 else if bat s 2 = 0 then Some 2
            else if bat s 3 = 0 then Some 3 else Some 4
          else Some 1)"

definition utf8_char_size :: "cstr option \<Rightarrow> nat" where
  "utf8_char_size string = (case utf8_next_char string of None \<Rightarrow> 0 | Some k \<Rightarrow> k)"

text \<open>The statement \<open>string = utf8_next_char (string)\<close> of the loops.\<close>

definition utf8_skip :: "cstr \<Rightarrow> cstr" where
  "utf8_skip s = drop (utf8_char_size (Some s)) s"

lemma utf8_char_size_pos: "0 < utf8_char_size (Some s)"
  by (simp add: utf8_char_size_def utf8_next_char_def)

lemma utf8_char_size_le_4: "utf8_char_size so \<le> 4"
  by (simp add: utf8_char_size_def utf8_next_char_def split: option.split)

lemma bat_pos_length: "bat s i \<noteq> 0 \<Longrightarrow> i < length s"
  by (auto simp: bat_def split: if_splits)

lemma utf8_char_size_le_length: "s \<noteq> [] \<Longrightarrow> utf8_char_size (Some s) \<le> length s"
  using bat_pos_length [of s 1] bat_pos_length [of s 2] bat_pos_length [of s 3]
  by (auto simp: utf8_char_size_def utf8_next_char_def Suc_le_eq)

lemma length_utf8_skip [termination_simp]:
  "s \<noteq> [] \<Longrightarrow> length (utf8_skip s) < length s"
  using utf8_char_size_pos [of s] by (cases s) (simp_all add: utf8_skip_def)

lemma length_utf8_skip_Cons [termination_simp]: "length (utf8_skip (c # s)) < Suc (length s)"
  using length_utf8_skip [of "c # s"] by simp

subsection \<open>Validation and normalization\<close>

text \<open>
  The body of the loop of \<open>utf8_is_valid\<close>: the size of the valid char at the start of the string,
  or \<open>None\<close> where the code jumps to \<open>invalid\<close>.
\<close>

definition utf8_check_char :: "cstr \<Rightarrow> nat option" where
  "utf8_check_char s =
     (let code_point = utf8_char_int (Some s) in
      if bat s 0 AND 0xE0 = 0xC0 then
        if bat s 1 = 0 \<or> bat s 1 AND 0xC0 \<noteq> 0x80 then None
        else if code_point < 0x0080 \<or> code_point > 0x07FF then None
        else Some 2
      else if bat s 0 AND 0xF0 = 0xE0 then
        if bat s 1 = 0 \<or> bat s 2 = 0 \<or> bat s 1 AND 0xC0 \<noteq> 0x80 \<or> bat s 2 AND 0xC0 \<noteq> 0x80
        then None
        else if code_point < 0x0800 \<or> code_point > 0xFFFF
                \<or> (code_point \<ge> 0xD800 \<and> code_point \<le> 0xDFFF) then None
        else Some 3
      else if bat s 0 AND 0xF8 = 0xF0 then
        if bat s 1 = 0 \<or> bat s 2 = 0 \<or> bat s 3 = 0
           \<or> bat s 1 AND 0xC0 \<noteq> 0x80 \<or> bat s 2 AND 0xC0 \<noteq> 0x80 \<or> bat s 3 AND 0xC0 \<noteq> 0x80
        then None
        else if code_point < 0x10000 \<or> code_point > 0x1FFFFF then None
        else Some 4
      else if bat s 0 \<ge> 0x80 then None
      else Some 1)"

lemma utf8_check_char_pos: "utf8_check_char s = Some k \<Longrightarrow> 0 < k"
  by (auto simp: utf8_check_char_def Let_def split: if_splits)

function utf8_is_valid_loop :: "cstr \<Rightarrow> int \<Rightarrow> nat \<Rightarrow> bool \<times> cstr option" where
  "utf8_is_valid_loop s len current_char =
     (if s \<noteq> [] \<and> (len \<le> 0 \<or> int current_char < len) then
        (case utf8_check_char s of
           None \<Rightarrow> (False, Some s)
         | Some k \<Rightarrow> utf8_is_valid_loop (drop k s) len (current_char + 1))
      else (True, None))"
  by pat_completeness auto
termination
  by (relation "measure (\<lambda>(s, _). length s)") (auto dest: utf8_check_char_pos)

declare utf8_is_valid_loop.simps [simp del]

text \<open>The result and the value stored in \<open>*error\<close>.\<close>

definition utf8_is_valid :: "cstr option \<Rightarrow> int \<Rightarrow> bool \<times> cstr option" where
  "utf8_is_valid string len =
     (case string of None \<Rightarrow> (True, None) | Some s \<Rightarrow> utf8_is_valid_loop s len 0)"

lemma utf8_is_valid_loop_error:
  "utf8_is_valid_loop s len n = (b, Some e) \<Longrightarrow> e \<noteq> [] \<and> (\<exists>k. e = drop k s)"
proof (induction s len n rule: utf8_is_valid_loop.induct)
  case (1 s len n)
  show ?case
  proof (cases "s \<noteq> [] \<and> (len \<le> 0 \<or> int n < len)")
    case True
    show ?thesis
    proof (cases "utf8_check_char s")
      case None
      with True "1.prems" have "e = s"
        by (simp add: utf8_is_valid_loop.simps [of s])
      with True show ?thesis by (auto intro: exI [of _ 0])
    next
      case (Some k)
      with True "1.prems" have "utf8_is_valid_loop (drop k s) len (n + 1) = (b, Some e)"
        by (simp add: utf8_is_valid_loop.simps [of s])
      with "1.IH" [OF True Some] show ?thesis by auto
    qed
  next
    case False
    with "1.prems" show ?thesis by (simp add: utf8_is_valid_loop.simps [of s])
  qed
qed

lemma utf8_is_valid_error:
  "utf8_is_valid (Some s) len = (b, Some e) \<Longrightarrow> e \<noteq> [] \<and> (\<exists>k. e = drop k s)"
  using utf8_is_valid_loop_error by (auto simp: utf8_is_valid_def)

lemma utf8_is_valid_error_shorter:
  assumes "(b, Some e) = utf8_is_valid (Some s) len" and "s \<noteq> []"
  shows "length e - Suc 0 < length s"
proof -
  from assms(1) obtain k where "e \<noteq> []" "e = drop k s"
    by (metis utf8_is_valid_error)
  with assms(2) show ?thesis by (cases s) auto
qed

function utf8_normalize :: "cstr \<Rightarrow> char \<Rightarrow> cstr" where
  "utf8_normalize s replacement =
     (if s = [] then []
      else case utf8_is_valid (Some s) (- 1) of
             (True, _) \<Rightarrow> s
           | (False, None) \<Rightarrow> s
           | (False, Some e) \<Rightarrow>
               take (length s - length e) s @ replacement # utf8_normalize (drop 1 e) replacement)"
  by pat_completeness auto
termination
  by (relation "measure (\<lambda>(s, _). length s)") (auto dest: utf8_is_valid_error_shorter)

declare utf8_normalize.simps [simp del]

subsection \<open>Moving in a string\<close>

text \<open>
  Positions are relative to \<open>string_start\<close>, whose bytes are the list: \<open>string_start\<close> itself is 0
  and \<open>string\<close> is an index.
\<close>

definition utf8_prev_char :: "cstr \<Rightarrow> nat option \<Rightarrow> nat option" where
  "utf8_prev_char start string =
     (case string of
        None \<Rightarrow> None
      | Some 0 \<Rightarrow> None
      | Some (Suc i) \<Rightarrow>
          if bat start i AND 0xC0 = 0x80 then
            (case i of
               0 \<Rightarrow> Some i
             | Suc j \<Rightarrow>
                 if bat start j AND 0xC0 = 0x80 then
                   (case j of
                      0 \<Rightarrow> Some j
                    | Suc k \<Rightarrow>
                        if bat start k AND 0xC0 = 0x80 then
                          (case k of 0 \<Rightarrow> Some k | Suc l \<Rightarrow> Some l)
                        else Some k)
                 else Some j)
          else Some i)"

fun utf8_strlen_loop :: "cstr \<Rightarrow> nat" where
  "utf8_strlen_loop [] = 0"
| "utf8_strlen_loop (c # s) = Suc (utf8_strlen_loop (utf8_skip (c # s)))"

definition utf8_strlen :: "cstr option \<Rightarrow> nat" where
  "utf8_strlen string = (case string of None \<Rightarrow> 0 | Some s \<Rightarrow> utf8_strlen_loop s)"

text \<open>The argument \<open>pos\<close> is the distance \<open>string - start\<close>.\<close>

fun utf8_strnlen_loop :: "cstr \<Rightarrow> nat \<Rightarrow> int \<Rightarrow> nat" where
  "utf8_strnlen_loop [] pos bytes = 0"
| "utf8_strnlen_loop (c # s) pos bytes =
     (if int pos < bytes
      then Suc (utf8_strnlen_loop (utf8_skip (c # s)) (pos + utf8_char_size (Some (c # s))) bytes)
      else 0)"

definition utf8_strnlen :: "cstr option \<Rightarrow> int \<Rightarrow> nat" where
  "utf8_strnlen string bytes =
     (case string of None \<Rightarrow> 0 | Some s \<Rightarrow> utf8_strnlen_loop s 0 bytes)"

fun utf8_add_offset_loop :: "cstr \<Rightarrow> int \<Rightarrow> cstr" where
  "utf8_add_offset_loop [] offset = []"
| "utf8_add_offset_loop (c # s) offset =
     (if offset > 0 then utf8_add_offset_loop (utf8_skip (c # s)) (offset - 1) else c # s)"

definition utf8_add_offset :: "cstr option \<Rightarrow> int \<Rightarrow> cstr option" where
  "utf8_add_offset string offset = map_option (\<lambda>s. utf8_add_offset_loop s offset) string"

fun utf8_real_pos_loop :: "cstr \<Rightarrow> int \<Rightarrow> int \<Rightarrow> int \<Rightarrow> int" where
  "utf8_real_pos_loop [] count pos real_pos = real_pos"
| "utf8_real_pos_loop (c # s) count pos real_pos =
     (if count < pos
      then utf8_real_pos_loop (utf8_skip (c # s)) (count + 1) pos
             (real_pos + int (utf8_char_size (Some (c # s))))
      else real_pos)"

definition utf8_real_pos :: "cstr option \<Rightarrow> int \<Rightarrow> int" where
  "utf8_real_pos string pos =
     (case string of None \<Rightarrow> pos | Some s \<Rightarrow> utf8_real_pos_loop s 0 pos 0)"

text \<open>The argument \<open>at\<close> is the distance of \<open>string\<close> to its start, compared with \<open>limit\<close>.\<close>

fun utf8_pos_loop :: "cstr \<Rightarrow> int \<Rightarrow> int \<Rightarrow> int \<Rightarrow> int" where
  "utf8_pos_loop [] at limit count = count"
| "utf8_pos_loop (c # s) at limit count =
     (if at < limit
      then utf8_pos_loop (utf8_skip (c # s)) (at + int (utf8_char_size (Some (c # s)))) limit
             (count + 1)
      else count)"

text \<open>The parameter \<open>charset\<close> is the global \<open>weechat_local_charset\<close>.\<close>

definition utf8_pos :: "cstr option \<Rightarrow> cstr option \<Rightarrow> int \<Rightarrow> int" where
  "utf8_pos charset string real_pos =
     (case string of
        None \<Rightarrow> real_pos
      | Some s \<Rightarrow> if charset = None then real_pos else utf8_pos_loop s 0 real_pos 0)"

definition utf8_strndup :: "cstr option \<Rightarrow> int \<Rightarrow> cstr option" where
  "utf8_strndup string len =
     (case string of
        None \<Rightarrow> None
      | Some s \<Rightarrow>
          if len < 0 then None
          else if len = 0 then Some []
          else case utf8_add_offset (Some s) len of
                 None \<Rightarrow> Some s
               | Some e \<Rightarrow>
                   if e = s then Some s
                   else string_strndup (Some s) (int (length s) - int (length e)))"

subsection \<open>Comparing chars\<close>

text \<open>
  The bytes of \<open>wint_t\<close> values.  A single byte is cast from \<open>char\<close>, which is signed on the
  platforms of the program, so that a byte from 128 on is extended with ones; \<open>WEOF\<close> is the
  largest value of 32 bits.
\<close>

definition WEOF :: nat where
  "WEOF = 0xFFFFFFFF"

definition wint_of_char :: "nat \<Rightarrow> nat" where
  "wint_of_char b = (if b < 128 then b else b + 0xFFFFFF00)"

definition utf8_wide_char :: "cstr option \<Rightarrow> nat" where
  "utf8_wide_char string =
     (case string of
        None \<Rightarrow> WEOF
      | Some s \<Rightarrow>
          if s = [] then WEOF
          else let char_size = utf8_char_size (Some s) in
            if char_size = 1 then wint_of_char (bat s 0)
            else if char_size = 2 then push_bit 8 (bat s 0) OR bat s 1
            else if char_size = 3 then push_bit 16 (bat s 0) OR push_bit 8 (bat s 1) OR bat s 2
            else if char_size = 4 then
              push_bit 24 (bat s 0) OR push_bit 16 (bat s 1) OR push_bit 8 (bat s 2) OR bat s 3
            else WEOF)"

text \<open>The result of a comparison when one of the strings is \<open>NULL\<close>.\<close>

definition cmp_null :: "'a option \<Rightarrow> 'b option \<Rightarrow> int" where
  "cmp_null s1 s2 = (if s1 \<noteq> None then 1 else if s2 \<noteq> None then - 1 else 0)"

fun utf8_charcmp_loop :: "nat list \<Rightarrow> nat list \<Rightarrow> int" where
  "utf8_charcmp_loop (x # xs) (y # ys) =
     (let diff = int x - int y in
      if diff \<noteq> 0 then (if diff < 0 then - 1 else 1) else utf8_charcmp_loop xs ys)"
| "utf8_charcmp_loop [] [] = 0"
| "utf8_charcmp_loop [] ys = 1"
| "utf8_charcmp_loop xs [] = - 1"

definition utf8_char_bytes :: "cstr \<Rightarrow> nat list" where
  "utf8_char_bytes s = map (bat s) [0..<utf8_char_size (Some s)]"

definition utf8_charcmp :: "cstr option \<Rightarrow> cstr option \<Rightarrow> int" where
  "utf8_charcmp string1 string2 =
     (case (string1, string2) of
        (Some s1, Some s2) \<Rightarrow> utf8_charcmp_loop (utf8_char_bytes s1) (utf8_char_bytes s2)
      | _ \<Rightarrow> cmp_null string1 string2)"

definition utf8_charcasecmp :: "cstr option \<Rightarrow> cstr option \<Rightarrow> int" where
  "utf8_charcasecmp string1 string2 =
     (case (string1, string2) of
        (Some s1, Some s2) \<Rightarrow>
          (let wchar1 = utf8_wide_char (Some s1);
               wchar1 = (if byte (CHR ''A'') \<le> wchar1 \<and> wchar1 \<le> byte (CHR ''Z'')
                         then wchar1 + (byte (CHR ''a'') - byte (CHR ''A'')) else wchar1);
               wchar2 = utf8_wide_char (Some s2);
               wchar2 = (if byte (CHR ''A'') \<le> wchar2 \<and> wchar2 \<le> byte (CHR ''Z'')
                         then wchar2 + (byte (CHR ''a'') - byte (CHR ''A'')) else wchar2)
           in if wchar1 < wchar2 then - 1 else if wchar1 = wchar2 then 0 else 1)
      | _ \<Rightarrow> cmp_null string1 string2)"

definition utf8_charcasecmp_range :: "cstr option \<Rightarrow> cstr option \<Rightarrow> nat \<Rightarrow> int" where
  "utf8_charcasecmp_range string1 string2 rng =
     (case (string1, string2) of
        (Some s1, Some s2) \<Rightarrow>
          (let wchar1 = utf8_wide_char (Some s1);
               wchar1 = (if byte (CHR ''A'') \<le> wchar1 \<and> wchar1 < byte (CHR ''A'') + rng
                         then wchar1 + (byte (CHR ''a'') - byte (CHR ''A'')) else wchar1);
               wchar2 = utf8_wide_char (Some s2);
               wchar2 = (if byte (CHR ''A'') \<le> wchar2 \<and> wchar2 < byte (CHR ''A'') + rng
                         then wchar2 + (byte (CHR ''a'') - byte (CHR ''A'')) else wchar2)
           in if wchar1 < wchar2 then - 1 else if wchar1 = wchar2 then 0 else 1)
      | _ \<Rightarrow> cmp_null string1 string2)"

subsection \<open>Encoding and decoding one char\<close>

lemma utf8_int_string_arith:
  "utf8_int_string v =
     (if v = 0 then []
      else if v < 128 then [chr v]
      else if v < 2048 then [chr (192 + v div 64), chr (128 + v mod 64)]
      else if v < 65536 then [chr (224 + v div 4096), chr (128 + v div 64 mod 64), chr (128 + v mod 64)]
      else if v < 2097152 then
        [chr (240 + v div 262144), chr (128 + v div 4096 mod 64), chr (128 + v div 64 mod 64), chr (128 + v mod 64)]
      else [])"
  by (simp add: utf8_int_string_def byte_simps drop_bit_eq_div)

lemma utf8_int_string_cases:
  assumes "0 < v" "v \<le> (0x1FFFFF :: nat)"
  obtains (one) "v < 128" "utf8_int_string v = [chr v]"
  | (two) a b where "v = 64 * a + b" "a < 32" "b < 64" "128 \<le> v"
      "utf8_int_string v = [chr (192 + a), chr (128 + b)]"
  | (three) a b c where "v = 4096 * a + 64 * b + c" "a < 16" "b < 64" "c < 64" "2048 \<le> v"
      "utf8_int_string v = [chr (224 + a), chr (128 + b), chr (128 + c)]"
  | (four) a b c d where "v = 262144 * a + 4096 * b + 64 * c + d" "a < 8" "b < 64" "c < 64" "d < 64"
      "65536 \<le> v" "utf8_int_string v = [chr (240 + a), chr (128 + b), chr (128 + c), chr (128 + d)]"
proof -
  consider "v < 128" | "128 \<le> v" "v < 2048" | "2048 \<le> v" "v < 65536" | "65536 \<le> v" "v < 2097152" 
    using assms by linarith
  then show ?thesis
  proof cases
    case 1 with assms one show ?thesis by (simp add: utf8_int_string_arith)
  next
    case 2 then show ?thesis by (intro two [of "v div 64" "v mod 64"]) (simp_all add: utf8_int_string_arith)
  next
    case 3 then show ?thesis using digits3 [of v]
      by (intro three [of "v div 4096" "v div 64 mod 64" "v mod 64"]) (simp_all add: utf8_int_string_arith del: mod_mult_self1)
  next
    case 4 then show ?thesis using digits4 [of v]
      by (intro four [of "v div 262144" "v div 4096 mod 64" "v div 64 mod 64" "v mod 64"]) (simp_all add: utf8_int_string_arith)
  qed
qed

lemmas utf8_char_defs = utf8_char_int_def utf8_next_char_def utf8_char_size_def

lemma utf8_char_int_int_string:
  assumes "0 < v" "v \<le> 0x1FFFFF"
  shows "utf8_char_int (Some (utf8_int_string v @ s)) = v"
  using assms
  by (cases rule: utf8_int_string_cases)
     (simp_all add: utf8_char_defs byte_simps push_bit_eq_mult)

lemma utf8_char_size_int_string:
  assumes "0 < v" "v \<le> 0x1FFFFF"
  shows "utf8_char_size (Some (utf8_int_string v @ s)) = length (utf8_int_string v)"
  using assms
  by (cases rule: utf8_int_string_cases)
     (simp_all add: utf8_char_defs byte_simps)

lemma cstr_ok_int_string: "cstr_ok (utf8_int_string v)"
  by (simp add: utf8_int_string_arith chr_eq_NUL)

text \<open>The values with an encoding that the program accepts: no NUL, no surrogate, 4 bytes at most.\<close>

definition utf8_scalar :: "nat \<Rightarrow> bool" where
  "utf8_scalar v \<longleftrightarrow> 0 < v \<and> v \<le> 0x1FFFFF \<and> \<not> (0xD800 \<le> v \<and> v \<le> 0xDFFF)"

lemma utf8_check_char_int_string:
  assumes "utf8_scalar v"
  shows "utf8_check_char (utf8_int_string v @ s) = Some (length (utf8_int_string v))"
proof -
  have v: "0 < v" "v \<le> 0x1FFFFF" and ns: "\<not> (0xD800 \<le> v \<and> v \<le> 0xDFFF)"
    using assms by (auto simp: utf8_scalar_def)
  note eq = utf8_char_int_int_string [OF v, of s]
  from v show ?thesis
  proof (cases rule: utf8_int_string_cases)
    case one
    then show ?thesis by (simp add: utf8_check_char_def byte_simps)
  next
    case (two a b)
    with eq show ?thesis by (simp add: utf8_check_char_def byte_simps Let_def)
  next
    case (three a b c)
    with eq ns show ?thesis by (simp add: utf8_check_char_def byte_simps Let_def)
  next
    case (four a b c d)
    with eq v show ?thesis by (simp add: utf8_check_char_def byte_simps Let_def)
  qed
qed

lemma utf8_int_string_two:
  "a < 32 \<Longrightarrow> b < 64 \<Longrightarrow> 128 \<le> 64 * a + b \<Longrightarrow> utf8_int_string (64 * a + b) = [chr (192 + a), chr (128 + b)]"
  by (simp add: utf8_int_string_arith)
lemma utf8_int_string_three:
  assumes "a < 16" "b < 64" "c < 64" "2048 \<le> 4096 * a + 64 * b + c"
  shows "utf8_int_string (4096 * a + 64 * b + c) = [chr (224 + a), chr (128 + b), chr (128 + c)]"
proof -
  have "(4096 * a + 64 * b + c) div 64 = 64 * a + b" using assms(3) by (simp add: div_nat_eqI)
  moreover have "(4096 * a + 64 * b + c) div 4096 = a" using assms(2,3) by (intro div_nat_eqI) simp_all
  moreover have "(4096 * a + 64 * b + c) mod 64 = c" using assms(3) 
    mod_mult_self4 [of 64 "64 * a + b" c] by (simp add: algebra_simps)
  ultimately show ?thesis using assms by (simp add: utf8_int_string_arith) linarith
qed
lemma utf8_int_string_four:
  assumes "a < 8" "b < 64" "c < 64" "d < 64" "65536 \<le> 262144 * a + 4096 * b + 64 * c + d"
  shows "utf8_int_string (262144 * a + 4096 * b + 64 * c + d) =
    [chr (240 + a), chr (128 + b), chr (128 + c), chr (128 + d)]"
proof -
  let ?v = "262144 * a + 4096 * b + 64 * c + d"
  have "?v div 64 = 4096 * a + 64 * b + c" using assms(4) by (intro div_nat_eqI) simp_all
  moreover have "?v div 4096 = 64 * a + b" using assms(3,4) by (intro div_nat_eqI) simp_all
  moreover have "?v div 262144 = a" using assms(2,3,4) by (intro div_nat_eqI) simp_all
  moreover have "?v mod 64 = d" using assms(4)
    mod_mult_self4 [of 64 "4096 * a + 64 * b + c" d] by (simp add: algebra_simps)
  moreover have "(4096 * a + 64 * b + c) mod 64 = c" using assms(3)
    mod_mult_self4 [of 64 "64 * a + b" c] by (simp add: algebra_simps)
  ultimately show ?thesis using assms by (simp add: utf8_int_string_arith) linarith
qed

lemma utf8_check_char_decode:
  assumes "cstr_ok s" "s \<noteq> []" "utf8_check_char s = Some k"
  shows "utf8_scalar (utf8_char_int (Some s)) \<and> take k s = utf8_int_string (utf8_char_int (Some s))"
proof -
  obtain c t where s: "s = c # t" using assms(2) by (cases s) auto
  consider "byte c < 128" "k = 1"
   | "0xC0 \<le> byte c" "byte c < 0xE0" "k = 2" 
   | "0xE0 \<le> byte c" "byte c < 0xF0" "k = 3" 
   | "0xF0 \<le> byte c" "byte c < 0xF8" "k = 4" 
    using assms(3) by (auto simp: s utf8_check_char_def byte_simps Let_def split: if_splits)
  then show ?thesis
  proof cases
    case 1
    with assms(1) have "0 < byte c" by (auto simp: s intro: Nat.gr0I)
    with 1 assms(1) show ?thesis
      by (simp add: s utf8_char_int_def byte_simps utf8_scalar_def utf8_int_string_arith)
  next
    case 2
    with assms(3) have b: "0x80 \<le> bat t 0" "bat t 0 < 0xC0" "0 < bat t 0"
      and v: "0x80 \<le> utf8_char_int (Some s)" "utf8_char_int (Some s) \<le> 0x7FF"
      by (auto simp: s utf8_check_char_def byte_simps Let_def split: if_splits)
    then obtain d u where t: "t = d # u" by (cases t) auto
    have "d \<noteq> NUL" using b by (auto simp: t)
    then have e: "utf8_char_int (Some s) = 64 * (byte c - 192) + (byte d - 128)"
      using 2 b by (simp add: mult.commute s t utf8_char_int_def byte_simps push_bit_eq_mult)
    with 2 b v show ?thesis
      using utf8_int_string_two [of "byte c - 192" "byte d - 128"]
      by (simp add: s t utf8_scalar_def)
  next
    case 3
    with assms(3) have b: "0x80 \<le> bat t 0" "bat t 0 < 0xC0" "0x80 \<le> bat t 1" "bat t 1 < 0xC0" 
      and v: "0x800 \<le> utf8_char_int (Some s)" "utf8_scalar (utf8_char_int (Some s))"
      by (auto simp: s utf8_check_char_def utf8_scalar_def byte_simps Let_def split: if_splits)
    then obtain d e u where t: "t = d # e # u" by (cases t rule: list.exhaust [case_product list.exhaust]) (auto simp: neq_Nil_conv bat_def split: if_splits)
    have "d \<noteq> NUL" "e \<noteq> NUL" using b by (auto simp: t)
    then have e: "utf8_char_int (Some s) = 4096 * (byte c - 224) + 64 * (byte d - 128) + (byte e - 128)"
      using 3 b by (simp add: mult.commute s t utf8_char_int_def byte_simps push_bit_eq_mult)
    with 3 b v show ?thesis
      using utf8_int_string_three [of "byte c - 224" "byte d - 128" "byte e - 128"]
      by (simp add: s t)
  next
    case 4
    with assms(3) have b: "0x80 \<le> bat t 0" "bat t 0 < 0xC0" "0x80 \<le> bat t 1" "bat t 1 < 0xC0" 
        "0x80 \<le> bat t 2" "bat t 2 < 0xC0" 
      and v: "0x10000 \<le> utf8_char_int (Some s)" "utf8_scalar (utf8_char_int (Some s))"
      by (auto simp: s utf8_check_char_def utf8_scalar_def byte_simps Let_def split: if_splits)
    then obtain d e f u where t: "t = d # e # f # u" 
      using bat_pos_length [of t 2] by (auto elim: length_gt_2E)
    obtain x y z w where xs: "byte c = 240 + x" "byte d = 128 + y" "byte e = 128 + z" "byte f = 128 + w"
      using 4 b by (auto simp: t le_iff_add)
    with 4 b have lt: "x < 8" "y < 64" "z < 64" "w < 64" by (simp_all add: t)
    have cs: "c = chr (240 + x)" "d = chr (128 + y)" "e = chr (128 + z)" "f = chr (128 + w)"
      by (simp_all flip: xs)
    have "utf8_char_int (Some s) = 262144 * x + 4096 * y + 64 * z + w"
      unfolding s t utf8_char_int_def using lt by (simp add: xs byte_simps push_bit_eq_mult)
    moreover from this v(1) have "utf8_int_string (262144 * x + 4096 * y + 64 * z + w) = [c, d, e, f]"
      using utf8_int_string_four [OF lt] by (simp add: cs)
    ultimately show ?thesis using v 4 by (simp add: s t)
  qed
qed
text \<open>
  Claim C5. Encoding a code point from 1 to 0x1FFFFF with \<open>utf8_int_string\<close> and decoding the
  start of any string that begins with it by \<open>utf8_char_int\<close> gives the code point back, and
  \<open>utf8_char_size\<close> skips exactly the encoding.
\<close>

theorem utf8_char_int_roundtrip:
  assumes "0 < v" and "v \<le> 0x1FFFFF"
  shows "utf8_char_int (Some (utf8_int_string v @ s)) = v
    \<and> utf8_char_size (Some (utf8_int_string v @ s)) = length (utf8_int_string v)"
  using utf8_char_int_int_string [OF assms] utf8_char_size_int_string [OF assms] by blast

theorem utf8_char_int_roundtrip_witness:
  "utf8_char_int (Some (utf8_int_string 0x20AC @ ''a'')) = 0x20AC
    \<and> utf8_char_size (Some (utf8_int_string 0x20AC @ ''a'')) = length (utf8_int_string 0x20AC)"
  by (rule utf8_char_int_roundtrip) simp_all

subsection \<open>The chars of a string\<close>

fun utf8_chars :: "cstr \<Rightarrow> cstr list" where
  "utf8_chars [] = []"
| "utf8_chars (c # s) = take (utf8_char_size (Some (c # s))) (c # s) # utf8_chars (utf8_skip (c # s))"

lemma concat_utf8_chars [simp]: "concat (utf8_chars s) = s"
  by (induction s rule: utf8_chars.induct) (simp_all add: utf8_skip_def)

lemma utf8_chars_nonempty: "u \<in> set (utf8_chars s) \<Longrightarrow> u \<noteq> []"
proof (induction s rule: utf8_chars.induct)
  case (2 c s)
  then show ?case using utf8_char_size_pos [of "c # s"] by auto
qed simp

lemma utf8_strlen_loop_chars: "utf8_strlen_loop s = length (utf8_chars s)"
  by (induction s rule: utf8_chars.induct) simp_all

lemma utf8_add_offset_loop_chars:
  "utf8_add_offset_loop s n = concat (drop (nat n) (utf8_chars s))"
proof (induction s n rule: utf8_add_offset_loop.induct)
  case (2 c s n)
  show ?case
  proof (cases "n > 0")
    case True
    then have "nat n = Suc (nat (n - 1))" by simp
    with 2 True show ?thesis by simp
  next
    case False
    then show ?thesis by (simp add: utf8_skip_def)
  qed
qed simp

lemma length_take_size:
  "length (take (utf8_char_size (Some (c # s))) (c # s)) = utf8_char_size (Some (c # s))"
  using utf8_char_size_le_length [of "c # s"] by simp

lemma utf8_real_pos_loop_chars:
  "utf8_real_pos_loop s c n r = r + int (length (concat (take (nat (n - c)) (utf8_chars s))))"
proof (induction s c n r rule: utf8_real_pos_loop.induct)
  case (2 c s k n r)
  show ?case
  proof (cases "k < n")
    case True
    then have "nat (n - k) = Suc (nat (n - (k + 1)))" by simp
    with 2 True length_take_size [of c s] show ?thesis by (simp del: length_take)
  next
    case False
    then show ?thesis by simp
  qed
qed simp

lemma utf8_pos_loop_chars:
  assumes "m \<le> length (utf8_chars s)" 
  shows "utf8_pos_loop s k (k + int (length (concat (take m (utf8_chars s))))) c = c + int m"
  using assms
proof (induction s arbitrary: k c m rule: utf8_chars.induct)
  case (2 b s)
  show ?case
  proof (cases m)
    case (Suc l)
    let ?z = "utf8_char_size (Some (b # s))"
    let ?r = "int (length (concat (take l (utf8_chars (utf8_skip (b # s))))))"
    have "k + int (length (concat (take m (utf8_chars (b # s))))) = (k + int ?z) + ?r"
      using length_take_size [of b s] by (simp add: Suc del: length_take)
    moreover have "k < (k + int ?z) + ?r"
      using utf8_char_size_pos [of "b # s"] by simp
    moreover have "utf8_pos_loop (utf8_skip (b # s)) (k + int ?z) ((k + int ?z) + ?r) (c + 1) = c + 1 + int l"
      using 2 Suc by simp
    ultimately show ?thesis by (simp add: Suc algebra_simps)
  qed simp
qed simp

lemma utf8_strnlen_loop_pos: "utf8_pos_loop s (int k) n c = c + int (utf8_strnlen_loop s k n)"
proof (induction s k n arbitrary: c rule: utf8_strnlen_loop.induct)
  case (2 b s k n)
  from 2 [of "c + 1"] show ?case by (simp add: algebra_simps)
qed simp

text \<open>Positions in bytes and in chars are inverse to each other: converting a number of
  chars to bytes with \<open>utf8_real_pos\<close> and back with \<open>utf8_pos\<close> gives the number, cut to the
  number of chars of the string.\<close>

theorem utf8_pos_real_pos:
  "utf8_pos (Some charset) (Some s) (utf8_real_pos (Some s) n) = min (max n 0) (int (utf8_strlen (Some s)))"
proof -
  let ?m = "min (nat n) (length (utf8_chars s))"
  have "take ?m (utf8_chars s) = take (nat n) (utf8_chars s)" by (simp add: min_def)
  then have "utf8_real_pos (Some s) n = 0 + int (length (concat (take ?m (utf8_chars s))))"
    by (simp add: utf8_real_pos_def utf8_real_pos_loop_chars)
  then have "utf8_pos (Some charset) (Some s) (utf8_real_pos (Some s) n) = int ?m"
    using utf8_pos_loop_chars [of ?m s 0 0] by (simp add: utf8_pos_def)
  then show ?thesis by (simp add: utf8_strlen_def utf8_strlen_loop_chars)
qed

text \<open>\<open>utf8_strndup\<close> returns the first chars of the string, whole, and \<open>NULL\<close> for a negative
  count.\<close>

theorem utf8_strndup_chars:
  "utf8_strndup (Some s) n = (if n < 0 then None else Some (concat (take (nat n) (utf8_chars s))))"
proof -
  define a b where "a = concat (take (nat n) (utf8_chars s))"
    and "b = concat (drop (nat n) (utf8_chars s))"
  have s: "s = a @ b"
    unfolding a_def b_def by (metis append_take_drop_id concat_append concat_utf8_chars)
  have a_s: "a = s" if "b = s" "0 < n"
  proof (cases "utf8_chars s")
    case Nil
    then have "s = []" using concat_utf8_chars [of s] by simp
    with s show ?thesis by simp
  next
    case (Cons u us)
    from s that(1) have "a = []" by (metis append_self_conv2)
    moreover from that(2) have "nat n = Suc (nat (n - 1))" by simp
    ultimately have "u = []" by (simp add: Cons a_def)
    with Cons show ?thesis using utf8_chars_nonempty [of u s] by simp
  qed
  have "utf8_add_offset_loop s n = b"
    by (simp add: b_def utf8_add_offset_loop_chars)
  then have "utf8_strndup (Some s) n = Some a" if "0 < n"
    using that s a_s by (auto simp: utf8_strndup_def utf8_add_offset_def string_strndup_def)
  moreover have "utf8_strndup (Some s) n = None" if "n < 0"
    using that by (simp add: utf8_strndup_def)
  moreover have "utf8_strndup (Some s) 0 = Some []"
    by (simp add: utf8_strndup_def)
  ultimately show ?thesis
    unfolding a_def by (cases n "0 :: int" rule: linorder_cases) simp_all
qed

text \<open>\<open>utf8_prev_char\<close> undoes \<open>utf8_next_char\<close>: from the position after an encoded char it
  returns to the position of that char, whatever surrounds it.\<close>

theorem utf8_prev_char_next:
  assumes "0 < v" "v \<le> 0x1FFFFF"
  shows "utf8_prev_char (p @ utf8_int_string v @ q)
      (Some (length p + utf8_char_size (Some (utf8_int_string v @ q)))) = Some (length p)"
proof -
  have "utf8_prev_char (p @ utf8_int_string v @ q) (Some (length p + length (utf8_int_string v)))
    = Some (length p)"
    using assms
  proof (cases rule: utf8_int_string_cases)
    case one
    then show ?thesis
      by (simp add: utf8_prev_char_def bat_append_Suc byte_simps)
  next
    case two
    then show ?thesis
      by (simp add: utf8_prev_char_def bat_append_Suc byte_simps)
  next
    case three
    then show ?thesis
      by (simp add: utf8_prev_char_def bat_append_Suc byte_simps)
  next
    case four
    then show ?thesis
      by (simp add: utf8_prev_char_def bat_append_Suc byte_simps)
  qed
  then show ?thesis
    by (simp add: utf8_char_size_int_string [OF assms])
qed

theorem utf8_prev_char_next_witness:
  "utf8_prev_char (''ab'' @ utf8_int_string 0xE9 @ ''c'')
     (Some (length ''ab'' + utf8_char_size (Some (utf8_int_string 0xE9 @ ''c'')))) = Some (length ''ab'')"
  by (rule utf8_prev_char_next) simp_all

subsection \<open>Validity\<close>

text \<open>The specification: a string is UTF-8 when it is a sequence of encodings.\<close>

definition utf8_text :: "cstr \<Rightarrow> bool" where
  "utf8_text s \<longleftrightarrow> (\<exists>vs. list_all utf8_scalar vs \<and> s = concat (map utf8_int_string vs))"

lemma utf8_text_Nil: "utf8_text []"
  unfolding utf8_text_def by (rule exI [of _ "[]"]) simp

lemma utf8_text_Cons: "utf8_scalar v \<Longrightarrow> utf8_text s \<Longrightarrow> utf8_text (utf8_int_string v @ s)"
  unfolding utf8_text_def by (metis concat.simps(2) list.simps(9) list.pred_inject(2))

lemma utf8_int_string_nonempty: "utf8_scalar v \<Longrightarrow> utf8_int_string v \<noteq> []"
  by (simp add: utf8_scalar_def utf8_int_string_arith)

lemma utf8_is_valid_loop_encoded:
  "list_all utf8_scalar vs \<Longrightarrow> utf8_is_valid_loop (concat (map utf8_int_string vs) @ s) 0 n
     = utf8_is_valid_loop s 0 (n + length vs)"
proof (induction vs arbitrary: n)
  case (Cons v vs)
  then have v: "utf8_scalar v" by simp
  let ?t = "concat (map utf8_int_string vs) @ s"
  have "utf8_is_valid_loop (utf8_int_string v @ ?t) 0 n = utf8_is_valid_loop ?t 0 (n + 1)"
    using v by (simp add: utf8_is_valid_loop.simps [of "utf8_int_string v @ ?t"]
        utf8_check_char_int_string utf8_int_string_nonempty)
  with Cons show ?case by simp
qed simp

lemma utf8_is_valid_loop_split:
  assumes "cstr_ok s"
  obtains (valid) "utf8_text s" "utf8_is_valid_loop s 0 n = (True, None)"
  | (invalid) p e where "utf8_text p" "s = p @ e" "e \<noteq> []" "utf8_check_char e = None"
      "utf8_is_valid_loop s 0 n = (False, Some e)"
  using assms
proof (induction "length s" arbitrary: s n thesis rule: less_induct)
  case less
  show ?case
  proof (cases "s = []")
    case True
    then show ?thesis
      using utf8_text_Nil less.prems(1) by (simp add: utf8_is_valid_loop.simps [of "[]"])
  next
    case ne: False
    show ?thesis
    proof (cases "utf8_check_char s")
      case None
      with ne utf8_text_Nil show ?thesis
        by (intro less.prems(2) [of "[]" s]) (simp_all add: utf8_is_valid_loop.simps [of s])
    next
      case (Some k)
      let ?v = "utf8_char_int (Some s)"
      have v: "utf8_scalar ?v" "take k s = utf8_int_string ?v"
        using utf8_check_char_decode [OF less.prems(3) ne Some] by auto
      then have s: "s = utf8_int_string ?v @ drop k s"
        by (metis append_take_drop_id)
      have eq: "utf8_is_valid_loop s 0 n = utf8_is_valid_loop (drop k s) 0 (n + 1)"
        using ne Some by (simp add: utf8_is_valid_loop.simps [of s])
      have len: "length (drop k s) < length s" and ok: "cstr_ok (drop k s)"
        using ne utf8_check_char_pos [OF Some] less.prems(3) by auto
      show ?thesis
      proof (rule less.hyps [OF len _ _ ok, of "n + 1"])
        assume "utf8_text (drop k s)" "utf8_is_valid_loop (drop k s) 0 (n + 1) = (True, None)"
        moreover from this have "utf8_text s" using utf8_text_Cons [OF v(1)] by (subst s) blast
        ultimately show ?thesis using eq by (intro less.prems(1)) simp_all
      next
        fix p e
        assume *: "utf8_text p" "drop k s = p @ e" "e \<noteq> []" "utf8_check_char e = None"
          "utf8_is_valid_loop (drop k s) 0 (n + 1) = (False, Some e)"
        have t: "utf8_text (utf8_int_string ?v @ p)" using utf8_text_Cons [OF v(1) *(1)] .
        have se: "s = (utf8_int_string ?v @ p) @ e"
          unfolding append_assoc using s unfolding *(2) .
        show ?thesis by (rule less.prems(2) [OF t se *(3,4)]) (rule trans [OF eq *(5)])
      qed
    qed
  qed
qed

lemma utf8_text_valid: "utf8_text s \<Longrightarrow> utf8_is_valid_loop s 0 n = (True, None)"
  using utf8_is_valid_loop_encoded [of _ "[]" n]
  by (auto simp: utf8_text_def utf8_is_valid_loop.simps [of "[]"])

text \<open>Claim C1. \<open>utf8_is_valid\<close> accepts exactly the concatenations of encodings of accepted code points.\<close>

theorem utf8_is_valid_iff_text:
  assumes "cstr_ok s"
  shows "fst (utf8_is_valid (Some s) 0) \<longleftrightarrow> utf8_text s"
proof (cases rule: utf8_is_valid_loop_split [OF assms, where n = 0])
  case 1
  then show ?thesis by (simp add: utf8_is_valid_def)
next
  case (2 p e)
  then show ?thesis using utf8_text_valid [of s 0] by (auto simp: utf8_is_valid_def)
qed

theorem utf8_is_valid_iff_text_witness:
  "fst (utf8_is_valid (Some ''a'') 0) \<longleftrightarrow> utf8_text ''a''"
  by (rule utf8_is_valid_iff_text) simp

text \<open>When \<open>utf8_is_valid\<close> refuses a string, \<open>*error\<close> points at the first char that is not
  valid: all before it is valid, and no char starts there.\<close>

theorem utf8_is_valid_first_error:
  assumes "cstr_ok s" and "utf8_is_valid (Some s) 0 = (False, Some e)"
  shows "\<exists>p. s = p @ e \<and> utf8_text p \<and> utf8_check_char e = None"
  using assms(2) by (cases rule: utf8_is_valid_loop_split [OF assms(1), where n = 0])
    (auto simp: utf8_is_valid_def)

theorem utf8_is_valid_first_error_witness:
  "\<exists>p. [CHR ''a'', CHR 0xFF, CHR ''b''] = p @ [CHR 0xFF, CHR ''b''] \<and> utf8_text p
     \<and> utf8_check_char [CHR 0xFF, CHR ''b''] = None"
  by (rule utf8_is_valid_first_error)
    (simp_all add: utf8_is_valid_def utf8_is_valid_loop.simps utf8_check_char_def byte_simps)

lemma utf8_text_append: "utf8_text s \<Longrightarrow> utf8_text t \<Longrightarrow> utf8_text (s @ t)"
  unfolding utf8_text_def by (metis concat_append list_all_append map_append)

lemma utf8_text_ascii:
  assumes "byte r < 128" "r \<noteq> NUL"
  shows "utf8_text [r]"
proof -
  have "0 < byte r" using assms(2) by (auto intro: Nat.gr0I)
  with assms(1) have "utf8_int_string (byte r) = [r]" "utf8_scalar (byte r)"
    by (simp_all add: utf8_int_string_arith utf8_scalar_def assms(2))
  then show ?thesis using utf8_text_Cons [of "byte r" "[]"] utf8_text_Nil by simp
qed

lemma utf8_is_valid_negative: "utf8_is_valid (Some s) (- 1) = utf8_is_valid (Some s) 0"
proof -
  have "utf8_is_valid_loop s (- 1) n = utf8_is_valid_loop s 0 n" for n
    by (induction s "0::int" n rule: utf8_is_valid_loop.induct)
      (auto simp: utf8_is_valid_loop.simps [of _ "- 1"] utf8_is_valid_loop.simps [of _ 0] split: option.split)
  then show ?thesis by (simp add: utf8_is_valid_def)
qed

text \<open>\<open>utf8_normalize\<close> with an ASCII replacement always leaves a valid string, of the same
  length.\<close>

theorem utf8_normalize_valid:
  assumes "cstr_ok s" and "byte r < 128" and "r \<noteq> NUL"
  shows "fst (utf8_is_valid (Some (utf8_normalize s r)) 0) \<and> length (utf8_normalize s r) = length s"
proof -
  have "utf8_text (utf8_normalize s r) \<and> length (utf8_normalize s r) = length s"
    using assms(1)
  proof (induction "length s" arbitrary: s rule: less_induct)
    case less
    show ?case
    proof (cases rule: utf8_is_valid_loop_split [OF less.prems, where n = 0])
      case 1
      then show ?thesis
        using utf8_is_valid_negative [of s] utf8_text_Nil
        by (simp add: utf8_normalize.simps [of s] utf8_is_valid_def)
    next
      case (2 p e)
      then obtain d f where e: "e = d # f" by (cases e) auto
      have "utf8_normalize s r = p @ r # utf8_normalize f r"
        using 2 utf8_is_valid_negative [of s]
        by (subst utf8_normalize.simps) (simp add: utf8_is_valid_def e)
      moreover have "utf8_text (utf8_normalize f r) \<and> length (utf8_normalize f r) = length f"
        using 2 e less.prems by (intro less.hyps) auto
      ultimately show ?thesis
        using 2 e utf8_text_append [OF 2(1) utf8_text_append [OF utf8_text_ascii [OF assms(2,3)]]]
        by simp
    qed
  qed
  then show ?thesis using utf8_text_valid by (simp add: utf8_is_valid_def)
qed

theorem utf8_normalize_valid_witness:
  "fst (utf8_is_valid (Some (utf8_normalize [CHR 0xFF] (CHR ''?''))) 0)
     \<and> length (utf8_normalize [CHR 0xFF] (CHR ''?'')) = length [CHR 0xFF]"
  by (rule utf8_normalize_valid) simp_all

lemma utf8_normalize_id:
  assumes "fst (utf8_is_valid (Some s) 0)"
  shows "utf8_normalize s r = s"
  using assms by (cases "s = []")
    (auto simp: utf8_normalize.simps [of s] utf8_normalize.simps [of "[]"] utf8_is_valid_negative
      split: prod.splits bool.splits)

subsection \<open>Comparison\<close>

lemma utf8_charcmp_loop_0: "utf8_charcmp_loop xs ys = 0 \<longleftrightarrow> xs = ys"
  by (induction xs ys rule: utf8_charcmp_loop.induct) (auto simp: Let_def)

lemma utf8_charcmp_antisym: 
  "utf8_charcmp a b + utf8_charcmp b a = 0"
proof -
  have "utf8_charcmp_loop xs ys + utf8_charcmp_loop ys xs = 0" for xs ys
    by (induction xs ys rule: utf8_charcmp_loop.induct) (auto simp: Let_def)
  then show ?thesis by (simp add: utf8_charcmp_def cmp_null_def split: option.split)
qed

lemma utf8_charcmp_eq: "utf8_charcmp (Some s) (Some t) = 0 \<longleftrightarrow> utf8_char_bytes s = utf8_char_bytes t"
  by (simp add: utf8_charcmp_def utf8_charcmp_loop_0)

text \<open>
  The prefix case of \<open>utf8_charcmp\<close>: a char that ends before the other one, after equal bytes,
  compares as greater, although the comment of the function says that it is smaller.
\<close>

lemma utf8_charcmp_truncated:
  "utf8_charcmp (Some [CHR 0xC3]) (Some [CHR 0xC3, CHR 0xA9]) = 1"
  by (simp add: utf8_charcmp_def utf8_char_bytes_def utf8_char_size_def utf8_next_char_def upt_rec)

end
