(* ===== verification/Compare.thy ===== *)
theory Compare
  imports Prelude
begin

text \<open>
  The contract of the comparison callbacks of the program (\<open>callback_cmp\<close> of the arraylists,
  \<open>callback_keycmp\<close> of the hashtables, the comparisons of strings): a three-way comparison whose
  sign is a total preorder.  The containers are verified once against the contract; every theory
  that provides a comparison interprets it.
\<close>

text \<open>
  Lists in order, with and without equal elements; insertion after the elements that are not
  greater, and insertion that replaces the equal ones.
\<close>

definition cmp_ordered :: "('a \<Rightarrow> 'a \<Rightarrow> int) \<Rightarrow> 'a list \<Rightarrow> bool" where
  "cmp_ordered cmp xs \<longleftrightarrow> sorted_wrt (\<lambda>x y. cmp x y \<le> 0) xs"

definition cmp_distinct :: "('a \<Rightarrow> 'a \<Rightarrow> int) \<Rightarrow> 'a list \<Rightarrow> bool" where
  "cmp_distinct cmp xs \<longleftrightarrow> sorted_wrt (\<lambda>x y. cmp x y < 0) xs"

definition ins_after :: "('a \<Rightarrow> 'a \<Rightarrow> int) \<Rightarrow> 'a \<Rightarrow> 'a list \<Rightarrow> 'a list" where
  "ins_after cmp p xs = filter (\<lambda>x. 0 \<le> cmp p x) xs @ p # filter (\<lambda>x. cmp p x < 0) xs"

definition ins_replace :: "('a \<Rightarrow> 'a \<Rightarrow> int) \<Rightarrow> 'a \<Rightarrow> 'a list \<Rightarrow> 'a list" where
  "ins_replace cmp p xs = filter (\<lambda>x. 0 < cmp p x) xs @ p # filter (\<lambda>x. cmp p x < 0) xs"

locale cmp_order =
  fixes cmp :: "'a \<Rightarrow> 'a \<Rightarrow> int"
  assumes cmp_sym: "sgn (cmp x y) = - sgn (cmp y x)"
    and cmp_trans: "cmp x y \<le> 0 \<Longrightarrow> cmp y z \<le> 0 \<Longrightarrow> cmp x z \<le> 0"
begin

lemma cmp_le_iff: "cmp x y \<le> 0 \<longleftrightarrow> 0 \<le> cmp y x"
  using cmp_sym [of x y] by (auto simp: sgn_if split: if_splits)

lemma cmp_less_iff: "cmp x y < 0 \<longleftrightarrow> 0 < cmp y x"
  using cmp_le_iff [of y x] by linarith

lemma cmp_0_iff: "cmp x y = 0 \<longleftrightarrow> cmp y x = 0"
  using cmp_le_iff [of y x] cmp_le_iff [of x y] by linarith

lemma cmp_refl: "cmp x x = 0"
  using cmp_le_iff [of x x] by linarith

lemma cmp_less_le_trans: "cmp x y < 0 \<Longrightarrow> cmp y z \<le> 0 \<Longrightarrow> cmp x z < 0"
  by (meson cmp_le_iff cmp_trans not_le)

lemma cmp_le_less_trans: "cmp x y \<le> 0 \<Longrightarrow> cmp y z < 0 \<Longrightarrow> cmp x z < 0"
  by (meson cmp_le_iff cmp_trans not_le)

lemma cmp_eq_trans: "cmp x y = 0 \<Longrightarrow> cmp y z = 0 \<Longrightarrow> cmp x z = 0"
  by (metis cmp_0_iff cmp_le_iff cmp_trans order.antisym order.refl)

lemmas cmp_transs = cmp_trans cmp_less_le_trans cmp_le_less_trans cmp_eq_trans

lemma distinct_ordered_imp: "cmp_distinct cmp xs \<Longrightarrow> cmp_ordered cmp xs"
  unfolding cmp_ordered_def cmp_distinct_def by (erule sorted_wrt_mono_rel [rotated]) simp

lemma ordered_nth: "cmp_ordered cmp xs \<Longrightarrow> i \<le> j \<Longrightarrow> j < length xs \<Longrightarrow> cmp (xs ! i) (xs ! j) \<le> 0"
  unfolding cmp_ordered_def by (cases "i = j") (auto simp: cmp_refl sorted_wrt_iff_nth_less)

text \<open>In an cmp_ordered cmp list a key cuts the list where the comparison turns.\<close>

lemma ordered_before: "cmp_ordered cmp xs \<Longrightarrow> j < length xs \<Longrightarrow> 0 \<le> cmp p (xs ! j) \<Longrightarrow> i \<le> j
    \<Longrightarrow> 0 \<le> cmp p (xs ! i)"
  using ordered_nth [of xs i j] cmp_trans [of "xs ! i" "xs ! j" p] cmp_le_iff by blast

lemma ordered_after: "cmp_ordered cmp xs \<Longrightarrow> cmp p (xs ! i) < 0 \<Longrightarrow> i \<le> j \<Longrightarrow> j < length xs
    \<Longrightarrow> cmp p (xs ! j) < 0"
  using ordered_nth [of xs i j] cmp_less_le_trans by blast

lemma ordered_before_strict: "cmp_ordered cmp xs \<Longrightarrow> j < length xs \<Longrightarrow> 0 < cmp p (xs ! j) \<Longrightarrow> i \<le> j
    \<Longrightarrow> 0 < cmp p (xs ! i)"
  using ordered_nth [of xs i j] cmp_le_less_trans [of "xs ! i" "xs ! j" p] cmp_less_iff by blast

lemma ordered_ins_after: "cmp_ordered cmp xs \<Longrightarrow> cmp_ordered cmp (ins_after cmp p xs)"
  unfolding cmp_ordered_def ins_after_def
  by (auto simp: sorted_wrt_append sorted_wrt_filter cmp_le_iff intro: cmp_trans)
    (meson cmp_le_iff cmp_trans less_imp_le)+

lemma distinct_ordered_ins_replace: "cmp_distinct cmp xs \<Longrightarrow> cmp_distinct cmp (ins_replace cmp p xs)"
  unfolding cmp_distinct_def ins_replace_def
  by (auto simp: sorted_wrt_append sorted_wrt_filter cmp_less_iff)
    (meson cmp_less_iff cmp_less_le_trans less_imp_le)+

lemma set_ins_after: "set (ins_after cmp p xs) = insert p (set xs)"
  by (auto simp: ins_after_def)

lemma set_ins_replace: "set (ins_replace cmp p xs) = insert p {x \<in> set xs. cmp p x \<noteq> 0}"
  by (auto simp: ins_replace_def)

text \<open>A list cut at the turning point of an cmp_ordered cmp list.\<close>

lemma filter_cut:
  assumes "i \<le> length xs" and "\<And>j. j < i \<Longrightarrow> P (xs ! j)"
    and "\<And>j. i \<le> j \<Longrightarrow> j < length xs \<Longrightarrow> \<not> P (xs ! j)"
  shows "filter P xs = take i xs"
proof -
  have "filter P (take i xs @ drop i xs) = take i xs"
    unfolding filter_append using assms
    by (subst filter_True, force simp: in_set_conv_nth, subst filter_False)
       (auto simp: in_set_conv_nth)
  then show ?thesis by simp
qed

lemma filter_cut_drop:
  assumes "i \<le> length xs" and "\<And>j. j < i \<Longrightarrow> \<not> P (xs ! j)"
    and "\<And>j. i \<le> j \<Longrightarrow> j < length xs \<Longrightarrow> P (xs ! j)"
  shows "filter P xs = drop i xs"
proof -
  have "filter P (take i xs @ drop i xs) = drop i xs"
    unfolding filter_append using assms
    by (subst filter_False, force simp: in_set_conv_nth, subst filter_True)
       (auto simp: in_set_conv_nth)
  then show ?thesis by simp
qed

end

text \<open>Lexicographic comparison of lists of numbers, the shape of every comparison of strings.\<close>

fun list_cmp :: "nat list \<Rightarrow> nat list \<Rightarrow> int" where
  "list_cmp (x # xs) (y # ys) = (if x < y then - 1 else if x = y then list_cmp xs ys else 1)"
| "list_cmp [] [] = 0"
| "list_cmp [] ys = - 1"
| "list_cmp xs [] = 1"

lemma list_cmp_Nil [simp]:
  "list_cmp [] ys = (if ys = [] then 0 else - 1)" "list_cmp xs [] = (if xs = [] then 0 else 1)"
  by (cases ys; simp) (cases xs; simp)

lemma list_cmp_sym: "list_cmp xs ys = - list_cmp ys xs"
proof -
  have "list_cmp xs ys + list_cmp ys xs = 0"
    by (induction xs ys rule: list_cmp.induct) auto
  then show ?thesis by simp
qed

lemma list_cmp_0: "list_cmp xs ys = 0 \<longleftrightarrow> xs = ys"
  by (induction xs ys rule: list_cmp.induct) auto

lemma list_cmp_trans: "list_cmp xs ys \<le> 0 \<Longrightarrow> list_cmp ys zs \<le> 0 \<Longrightarrow> list_cmp xs zs \<le> 0"
proof (induction xs ys arbitrary: zs rule: list_cmp.induct)
  case (1 x xs y ys)
  then show ?case by (cases zs) (auto split: if_splits)
next
  case (3 v va)
  then show ?case by (cases zs) auto
qed auto

lemma list_cmp_values: "list_cmp xs ys \<in> {- 1, 0, 1}"
  by (induction xs ys rule: list_cmp.induct) auto

lemma cmp_order_key: "cmp_order (\<lambda>x y. list_cmp (f x) (f y))"
proof
  fix x y z
  show "sgn (list_cmp (f x) (f y)) = - sgn (list_cmp (f y) (f x))"
    by (subst list_cmp_sym) (simp add: sgn_if)
  show "list_cmp (f x) (f y) \<le> 0 \<Longrightarrow> list_cmp (f y) (f z) \<le> 0 \<Longrightarrow> list_cmp (f x) (f z) \<le> 0"
    by (rule list_cmp_trans)
qed

text \<open>The C library's \<open>strcmp\<close>, up to its sign.\<close>

definition strcmp :: "cstr \<Rightarrow> cstr \<Rightarrow> int" where
  "strcmp s t = list_cmp (map of_char s) (map of_char t)"

interpretation strcmp: cmp_order strcmp
  unfolding strcmp_def [abs_def] by (rule cmp_order_key)

lemma strcmp_0 [simp]: "strcmp s t = 0 \<longleftrightarrow> s = t"
  by (simp add: strcmp_def list_cmp_0 inj_map_eq_map [OF inj_of_char])

end
