(* ===== verification/Arraylist.thy ===== *)
theory Arraylist
  imports Compare "HOL-Library.Multiset"
begin

text \<open>
  The arraylists, \<open>src/core/wee-arraylist.c\<close>.  The live elements \<open>data[0] .. data[size - 1]\<close>
  are a list, so \<open>size\<close> is its length; the allocated size is a field of its own.  The elements
  passed to \<open>callback_free\<close> are logged in order, when the list has such a callback.  The
  comparison callback is the argument \<open>cmp\<close>.
\<close>

record 'a arraylist =
  al_size_alloc :: int
  al_size_alloc_min :: int
  al_sorted :: bool
  al_allow_duplicates :: bool
  al_data :: "'a list"
  al_callback_free :: bool
  al_freed :: "'a list"

abbreviation al_size :: "'a arraylist \<Rightarrow> int" where
  "al_size al \<equiv> int (length (al_data al))"

text \<open>The default comparison, on addresses.\<close>

definition arraylist_cmp_default_cb :: "nat \<Rightarrow> nat \<Rightarrow> int" where
  "arraylist_cmp_default_cb pointer1 pointer2 =
     (if pointer1 < pointer2 then - 1 else if pointer1 > pointer2 then 1 else 0)"

interpretation pointer_cmp: cmp_order arraylist_cmp_default_cb
  by unfold_locales (auto simp: arraylist_cmp_default_cb_def split: if_splits)

definition arraylist_new :: "int \<Rightarrow> bool \<Rightarrow> bool \<Rightarrow> bool \<Rightarrow> 'a arraylist option" where
  "arraylist_new initial_size is_sorted allow_duplicates callback_free =
     (if initial_size < 0 then None
      else Some \<lparr>al_size_alloc = (if initial_size > 0 then initial_size else 0),
                 al_size_alloc_min = (if initial_size > 0 then initial_size else 0),
                 al_sorted = is_sorted, al_allow_duplicates = allow_duplicates, al_data = [],
                 al_callback_free = callback_free, al_freed = []\<rparr>)"

definition arraylist_size :: "'a arraylist option \<Rightarrow> int" where
  "arraylist_size al = (case al of None \<Rightarrow> 0 | Some al \<Rightarrow> al_size al)"

definition arraylist_get :: "'a arraylist option \<Rightarrow> int \<Rightarrow> 'a option" where
  "arraylist_get al index =
     (case al of
        None \<Rightarrow> None
      | Some al \<Rightarrow>
          if index < 0 \<or> index \<ge> al_size al then None else Some (al_data al ! nat index))"

definition arraylist_grow :: "'a arraylist \<Rightarrow> 'a arraylist" where
  "arraylist_grow al =
     (if al_size al + 1 \<le> al_size_alloc al then al
      else al\<lparr>al_size_alloc := (if al_size_alloc al < 2 then 2
                                else al_size_alloc al + al_size_alloc al div 2)\<rparr>)"

text \<open>\<open>realloc\<close> keeps the elements below the new size only.\<close>

definition arraylist_shrink :: "'a arraylist \<Rightarrow> 'a arraylist" where
  "arraylist_shrink al =
     (if al_size_alloc al = 0 \<or> al_size_alloc al \<le> al_size_alloc_min al then al
      else if al_size_alloc al = 1 then al\<lparr>al_data := [], al_size_alloc := 0\<rparr>
      else let new_size_alloc = al_size_alloc al - al_size_alloc al div 2 in
        if al_size al - 1 \<ge> new_size_alloc then al
        else al\<lparr>al_size_alloc := new_size_alloc\<rparr>)"

subsection \<open>Searching\<close>

text \<open>The loop of the binary search: the indexes found and to insert at.\<close>

function arraylist_binary_search_loop ::
  "('a \<Rightarrow> 'a \<Rightarrow> int) \<Rightarrow> 'a list \<Rightarrow> 'a \<Rightarrow> int \<Rightarrow> int \<Rightarrow> int \<times> int" where
  "arraylist_binary_search_loop cmp d pointer start end =
     (if start \<le> end then
        (let middle = (start + end) div 2; rc = cmp pointer (d ! nat middle) in
         if rc = 0 then (middle, middle + 1)
         else if rc < 0 then
           if start > middle - 1 then (- 1, middle)
           else arraylist_binary_search_loop cmp d pointer start (middle - 1)
         else
           if middle + 1 > end then (- 1, middle + 1)
           else arraylist_binary_search_loop cmp d pointer (middle + 1) end)
      else (- 1, - 1))"
  by pat_completeness auto
termination
  by (relation "measure (\<lambda>(_, _, _, s, e). nat (e + 1 - s))") auto

declare arraylist_binary_search_loop.simps [simp del]

text \<open>The part of the search before the label \<open>end\<close>.\<close>

definition arraylist_binary_search_raw ::
  "('a \<Rightarrow> 'a \<Rightarrow> int) \<Rightarrow> 'a list \<Rightarrow> 'a \<Rightarrow> int \<times> int" where
  "arraylist_binary_search_raw cmp d pointer =
     (let start = 0; end = int (length d) - 1; rc = cmp pointer (d ! nat end) in
      if rc = 0 then (end, end + 1)
      else if rc > 0 then (- 1, - 1)
      else if length d = 1 then (- 1, 0)
      else let rc = cmp pointer (d ! nat start) in
        if rc = 0 then (start, start + 1)
        else if rc < 0 then (- 1, start)
        else if length d = 2 then (- 1, end)
        else arraylist_binary_search_loop cmp d pointer (start + 1) (end - 1))"

text \<open>The loops over the duplicates of the element found, to its left and to its right.\<close>

fun arraylist_dup_start :: "('a \<Rightarrow> 'a \<Rightarrow> int) \<Rightarrow> 'a list \<Rightarrow> 'a \<Rightarrow> nat \<Rightarrow> nat" where
  "arraylist_dup_start cmp d pointer 0 = 0"
| "arraylist_dup_start cmp d pointer (Suc i) =
     (if cmp pointer (d ! i) \<noteq> 0 then Suc i else arraylist_dup_start cmp d pointer i)"

function arraylist_dup_end :: "('a \<Rightarrow> 'a \<Rightarrow> int) \<Rightarrow> 'a list \<Rightarrow> 'a \<Rightarrow> nat \<Rightarrow> nat" where
  "arraylist_dup_end cmp d pointer end =
     (if end < length d then
        if cmp pointer (d ! end) \<noteq> 0 then end else arraylist_dup_end cmp d pointer (Suc end)
      else end)"
  by pat_completeness auto
termination
  by (relation "measure (\<lambda>(_, d, _, e). length d - e)") auto

declare arraylist_dup_end.simps [simp del]

text \<open>
  The pointer returned, \<open>*index\<close> and \<open>*index_insert\<close>.  After the loops over the duplicates the code
  has \<open>start\<close> at the first one and \<open>end + 1\<close> one past the last one.
\<close>

definition arraylist_binary_search ::
  "('a \<Rightarrow> 'a \<Rightarrow> int) \<Rightarrow> 'a arraylist \<Rightarrow> 'a \<Rightarrow> 'a option \<times> int \<times> int" where
  "arraylist_binary_search cmp al pointer =
     (let d = al_data al; (ret_index, ret_index_insert) = arraylist_binary_search_raw cmp d pointer in
      if ret_index \<ge> 0 \<and> al_allow_duplicates al then
        (let start = arraylist_dup_start cmp d pointer (nat ret_index);
             end = arraylist_dup_end cmp d pointer (Suc (nat ret_index))
         in (Some (d ! start), int start, int end))
      else (if ret_index \<ge> 0 then Some (d ! nat ret_index) else None, ret_index, ret_index_insert))"

fun arraylist_standard_search_loop ::
  "('a \<Rightarrow> 'a \<Rightarrow> int) \<Rightarrow> 'a list \<Rightarrow> 'a \<Rightarrow> int \<Rightarrow> 'a option \<times> int \<times> int" where
  "arraylist_standard_search_loop cmp [] pointer i = (None, - 1, - 1)"
| "arraylist_standard_search_loop cmp (x # d) pointer i =
     (if cmp x pointer = 0 then (Some x, i, - 1)
      else arraylist_standard_search_loop cmp d pointer (i + 1))"

definition arraylist_standard_search ::
  "('a \<Rightarrow> 'a \<Rightarrow> int) \<Rightarrow> 'a arraylist \<Rightarrow> 'a \<Rightarrow> 'a option \<times> int \<times> int" where
  "arraylist_standard_search cmp al pointer =
     arraylist_standard_search_loop cmp (al_data al) pointer 0"

definition arraylist_search ::
  "('a \<Rightarrow> 'a \<Rightarrow> int) \<Rightarrow> 'a arraylist option \<Rightarrow> 'a \<Rightarrow> 'a option \<times> int \<times> int" where
  "arraylist_search cmp al pointer =
     (case al of
        None \<Rightarrow> (None, - 1, - 1)
      | Some al \<Rightarrow>
          if al_data al = [] then (None, - 1, - 1)
          else if al_sorted al then arraylist_binary_search cmp al pointer
          else arraylist_standard_search cmp al pointer)"

subsection \<open>Changing the list\<close>

text \<open>The list and the value returned.\<close>

definition arraylist_remove :: "'a arraylist \<Rightarrow> int \<Rightarrow> 'a arraylist \<times> int" where
  "arraylist_remove al index =
     (if index < 0 \<or> index \<ge> al_size al then (al, - 1)
      else let i = nat index; size = length (al_data al);
               freed = (if al_callback_free al then al_freed al @ [al_data al ! i] else al_freed al);
               rest = take i (al_data al) @ drop (Suc i) (al_data al);
               shrunk = arraylist_shrink al
           in (shrunk\<lparr>al_data := rest, al_freed := freed\<rparr>, index))"

text \<open>The loop that removes the equal elements from \<open>index\<close> on, in a sorted list.\<close>

lemma length_arraylist_remove:
  "0 \<le> i \<Longrightarrow> i < al_size al \<Longrightarrow>
     length (al_data (fst (arraylist_remove al i))) = length (al_data al) - 1"
  by (simp add: arraylist_remove_def Let_def)

function arraylist_remove_equal_at ::
  "('a \<Rightarrow> 'a \<Rightarrow> int) \<Rightarrow> 'a arraylist \<Rightarrow> nat \<Rightarrow> 'a \<Rightarrow> 'a arraylist" where
  "arraylist_remove_equal_at cmp al index pointer =
     (if index < length (al_data al) \<and> cmp (al_data al ! index) pointer = 0
      then arraylist_remove_equal_at cmp (fst (arraylist_remove al (int index))) index pointer
      else al)"
  by pat_completeness auto
termination
  by (relation "measure (\<lambda>(_, al, _, _). length (al_data al))")
    (auto simp: length_arraylist_remove)

text \<open>The loop that removes every equal element, in a list that is not sorted.\<close>

function arraylist_remove_equal ::
  "('a \<Rightarrow> 'a \<Rightarrow> int) \<Rightarrow> 'a arraylist \<Rightarrow> nat \<Rightarrow> 'a \<Rightarrow> 'a arraylist" where
  "arraylist_remove_equal cmp al i pointer =
     (if i < length (al_data al) then
        if cmp (al_data al ! i) pointer = 0
        then arraylist_remove_equal cmp (fst (arraylist_remove al (int i))) i pointer
        else arraylist_remove_equal cmp al (Suc i) pointer
      else al)"
  by pat_completeness auto
termination
  by (relation "measure (\<lambda>(_, al, i, _). length (al_data al) - i)")
    (auto simp: length_arraylist_remove)

declare arraylist_remove_equal_at.simps [simp del] arraylist_remove_equal.simps [simp del]

definition arraylist_insert ::
  "('a \<Rightarrow> 'a \<Rightarrow> int) \<Rightarrow> 'a arraylist \<Rightarrow> int \<Rightarrow> 'a \<Rightarrow> 'a arraylist \<times> int" where
  "arraylist_insert cmp al index pointer =
     (let (al, index) =
        (if al_sorted al then
           (let (_, found, index_insert) = arraylist_search cmp (Some al) pointer in
            if found \<ge> 0 \<and> \<not> al_allow_duplicates al
            then (arraylist_remove_equal_at cmp al (nat found) pointer, found)
            else (al, index_insert))
         else if \<not> al_allow_duplicates al then (arraylist_remove_equal cmp al 0 pointer, index)
         else (al, index));
          index = (if index < 0 \<or> index > al_size al then al_size al else index);
          al = arraylist_grow al
      in (al\<lparr>al_data := take (nat index) (al_data al) @ pointer # drop (nat index) (al_data al)\<rparr>,
          index))"

definition arraylist_add :: "('a \<Rightarrow> 'a \<Rightarrow> int) \<Rightarrow> 'a arraylist \<Rightarrow> 'a \<Rightarrow> 'a arraylist \<times> int" where
  "arraylist_add cmp al pointer = arraylist_insert cmp al (- 1) pointer"

definition arraylist_clear :: "'a arraylist \<Rightarrow> 'a arraylist" where
  "arraylist_clear al =
     al\<lparr>al_freed := (if al_callback_free al then al_freed al @ al_data al else al_freed al),
        al_size_alloc := (if al_size_alloc al > 0 \<and> al_size_alloc al \<noteq> al_size_alloc_min al
                          then (if al_size_alloc_min al > 0 then al_size_alloc_min al else 0)
                          else al_size_alloc al),
        al_data := []\<rparr>"

subsection \<open>The searches\<close>

context cmp_order
begin

text \<open>What the search in an cmp_ordered cmp list finds: an equal element, or the place where it would be.\<close>

definition search_result :: "'a list \<Rightarrow> 'a \<Rightarrow> int \<times> int \<Rightarrow> bool" where
  "search_result d p r \<longleftrightarrow>
     (case r of (i, ins) \<Rightarrow>
        (0 \<le> i \<and> i < int (length d) \<and> cmp p (d ! nat i) = 0)
        \<or> (i = - 1 \<and> - 1 \<le> ins \<and> ins \<le> int (length d) \<and>
           (let c = (if ins < 0 then length d else nat ins) in
            (\<forall>j<c. 0 < cmp p (d ! j)) \<and> (\<forall>j. c \<le> j \<and> j < length d \<longrightarrow> cmp p (d ! j) < 0))))"

lemma search_result_found: "i < length d \<Longrightarrow> cmp p (d ! i) = 0 \<Longrightarrow> search_result d p (int i, k)"
  by (simp add: search_result_def)

lemma search_result_cut:
  "\<forall>j<c. 0 < cmp p (d ! j) \<Longrightarrow> \<forall>j. c \<le> j \<and> j < length d \<longrightarrow> cmp p (d ! j) < 0
   \<Longrightarrow> c \<le> length d \<Longrightarrow> search_result d p (- 1, int c)"
  by (simp add: search_result_def)

lemma arraylist_binary_search_loop_correct:
  assumes "cmp_ordered cmp d" and "0 < s" "s \<le> e" "e + 1 < int (length d)"
    and "0 < cmp p (d ! nat (s - 1))" and "cmp p (d ! nat (e + 1)) < 0"
  shows "search_result d p (arraylist_binary_search_loop cmp d p s e)"
  using assms(2-)
proof (induction "nat (e + 1 - s)" arbitrary: s e rule: less_induct)
  case less
  define m where "m = (s + e) div 2"
  have m: "s \<le> m" "m \<le> e" "nat m < length d" "int (nat m) = m"
    using less.prems(1-3) by (auto simp: m_def)
  let ?rc = "cmp p (d ! nat m)"
  have before: "\<forall>j<nat (k + 1). 0 < cmp p (d ! j)" if "0 < cmp p (d ! nat k)" "0 \<le> k" "nat k < length d" for k
    using ordered_before_strict [OF assms(1) that(3,1)] that(2) by auto
  have after: "\<forall>j. nat k \<le> j \<and> j < length d \<longrightarrow> cmp p (d ! j) < 0" if "cmp p (d ! nat k) < 0" for k
    using ordered_after [OF assms(1) that] by auto
  consider "?rc = 0" | "?rc < 0" "s > m - 1" | "?rc < 0" "s \<le> m - 1"
    | "0 < ?rc" "m + 1 > e" | "0 < ?rc" "m + 1 \<le> e" by linarith
  then show ?case
  proof cases
    case 1
    then show ?thesis using less.prems m search_result_found [of "nat m" d p]
      by (simp add: arraylist_binary_search_loop.simps [of cmp d p s e] Let_def flip: m_def)
  next
    case 2
    then have "s = m" using m(1) by simp
    moreover from 2 less.prems(2) have "arraylist_binary_search_loop cmp d p s e = (- 1, m)"
      by (simp add: arraylist_binary_search_loop.simps [of cmp d p s e] Let_def flip: m_def)
    ultimately show ?thesis
      using 2(1) less.prems m before [of "s - 1"] after [of m] search_result_cut [of "nat m" p d]
      by simp
  next
    case 3
    then have "search_result d p (arraylist_binary_search_loop cmp d p s (m - 1))"
      using less.prems m by (intro less.hyps) auto
    with 3 less.prems show ?thesis
      by (simp add: arraylist_binary_search_loop.simps [of cmp d p s e] Let_def flip: m_def)
  next
    case 4
    then have "e = m" using m(2) by simp
    moreover from 4 less.prems(2) have "arraylist_binary_search_loop cmp d p s e = (- 1, m + 1)"
      by (simp add: arraylist_binary_search_loop.simps [of cmp d p s e] Let_def flip: m_def)
    ultimately show ?thesis
      using 4(1) less.prems m before [of m] after [of "m + 1"] search_result_cut [of "nat (m + 1)" p d]
      by simp
  next
    case 5
    then have "search_result d p (arraylist_binary_search_loop cmp d p (m + 1) e)"
      using less.prems m by (intro less.hyps) auto
    with 5 less.prems show ?thesis
      by (simp add: arraylist_binary_search_loop.simps [of cmp d p s e] Let_def flip: m_def)
  qed
qed

lemma arraylist_binary_search_raw_correct:
  assumes "cmp_ordered cmp d" and "d \<noteq> []"
  shows "search_result d p (arraylist_binary_search_raw cmp d p)"
proof -
  let ?n = "length d"
  have n: "0 < ?n" "nat (int ?n - 1) = ?n - 1" using assms(2) by auto
  let ?last = "cmp p (d ! (?n - 1))" and ?first = "cmp p (d ! 0)"
  have all_greater: "\<forall>j<?n. 0 < cmp p (d ! j)" if "0 < ?last"
    using ordered_before_strict [OF assms(1) _ that] n by auto
  have all_less: "\<forall>j<?n. cmp p (d ! j) < 0" if "?first < 0"
    using ordered_after [OF assms(1) that] by auto
  consider "?last = 0" | "0 < ?last" | "?last < 0" "?n = 1" | "?last < 0" "1 < ?n" "?first = 0"
    | "?last < 0" "1 < ?n" "?first < 0" | "?last < 0" "?n = 2" "0 < ?first"
    | "?last < 0" "2 < ?n" "0 < ?first" using n by linarith
  then show ?thesis
  proof cases
    case 1
    then show ?thesis using n
      by (simp add: arraylist_binary_search_raw_def search_result_def Let_def)
  next
    case 2
    then show ?thesis using n all_greater
      by (simp add: arraylist_binary_search_raw_def search_result_def Let_def)
  next
    case 3
    then show ?thesis
      by (simp add: arraylist_binary_search_raw_def search_result_def Let_def)
  next
    case 4
    then show ?thesis using n
      by (simp add: arraylist_binary_search_raw_def search_result_def Let_def)
  next
    case 5
    then have "arraylist_binary_search_raw cmp d p = (- 1, 0)"
      using n by (simp add: arraylist_binary_search_raw_def Let_def)
    then show ?thesis using all_less [OF 5(3)] search_result_cut [of 0 p d] by simp
  next
    case 6
    then show ?thesis using n
      by (auto simp: arraylist_binary_search_raw_def search_result_def Let_def less_2_cases_iff)
  next
    case 7
    then have "search_result d p (arraylist_binary_search_loop cmp d p 1 (int ?n - 2))"
      using n by (intro arraylist_binary_search_loop_correct [OF assms(1)]) (simp_all add: nat_diff_distrib)
    with 7 n show ?thesis
      by (simp add: arraylist_binary_search_raw_def Let_def)
  qed
qed


text \<open>The loops over duplicates stop at the ends of the run of equal elements.\<close>

lemma arraylist_dup_start_bounds:
  "arraylist_dup_start cmp d p i \<le> i
   \<and> (\<forall>k. arraylist_dup_start cmp d p i \<le> k \<and> k < i \<longrightarrow> cmp p (d ! k) = 0)
   \<and> (arraylist_dup_start cmp d p i = 0 \<or> cmp p (d ! (arraylist_dup_start cmp d p i - 1)) \<noteq> 0)"
proof (induction i)
  case (Suc i)
  then show ?case by (cases "cmp p (d ! i) = 0") (auto simp: less_Suc_eq)
qed simp

lemma arraylist_dup_end_bounds:
  "e \<le> length d \<Longrightarrow> e \<le> arraylist_dup_end cmp d p e \<and> arraylist_dup_end cmp d p e \<le> length d
   \<and> (\<forall>k. e \<le> k \<and> k < arraylist_dup_end cmp d p e \<longrightarrow> cmp p (d ! k) = 0)
   \<and> (arraylist_dup_end cmp d p e = length d \<or> cmp p (d ! arraylist_dup_end cmp d p e) \<noteq> 0)"
proof (induction "length d - e" arbitrary: e)
  case 0
  then show ?case by (simp add: arraylist_dup_end.simps [of cmp d p e])
next
  case (Suc n)
  show ?case
  proof (cases "cmp p (d ! e) = 0")
    case True
    have "e < length d" using Suc by simp
    with True have eq: "arraylist_dup_end cmp d p e = arraylist_dup_end cmp d p (Suc e)"
      by (simp add: arraylist_dup_end.simps [of cmp d p e])
    let ?r = "arraylist_dup_end cmp d p (Suc e)"
    have IH: "Suc e \<le> ?r \<and> ?r \<le> length d \<and> (\<forall>k. Suc e \<le> k \<and> k < ?r \<longrightarrow> cmp p (d ! k) = 0)
        \<and> (?r = length d \<or> cmp p (d ! ?r) \<noteq> 0)"
      by (rule Suc.hyps(1)) (use Suc.hyps(2) \<open>e < length d\<close> in auto)
    moreover from IH True have "cmp p (d ! k) = 0" if "e \<le> k" "k < ?r" for k
      using that by (cases "k = e") auto
    ultimately show ?thesis unfolding eq by auto
  next
    case False
    then show ?thesis using Suc by (simp add: arraylist_dup_end.simps [of cmp d p e])
  qed
qed

definition cut_at :: "'a list \<Rightarrow> 'a \<Rightarrow> nat \<Rightarrow> bool" where
  "cut_at d p c \<longleftrightarrow> c \<le> length d \<and> (\<forall>j<c. 0 \<le> cmp p (d ! j))
     \<and> (\<forall>j. c \<le> j \<and> j < length d \<longrightarrow> cmp p (d ! j) < 0)"

lemma cut_at_ins_after: "cut_at d p c \<Longrightarrow> take c d @ p # drop c d = ins_after cmp p d"
  unfolding ins_after_def cut_at_def
  by (subst filter_cut [of c], simp, simp, simp add: not_le, subst filter_cut_drop [of c])
    (auto simp: not_less)

lemma search_cut:
  assumes "cmp_ordered cmp (al_data al)" and "al_data al \<noteq> []" and "al_allow_duplicates al"
    and "arraylist_binary_search cmp al p = (ptr, i, ins)"
  shows "cut_at (al_data al) p (if ins < 0 then length (al_data al) else nat ins)"
proof -
  let ?d = "al_data al"
  obtain ri rins where raw: "arraylist_binary_search_raw cmp ?d p = (ri, rins)" by fastforce
  with arraylist_binary_search_raw_correct [OF assms(1,2), of p]
  have r: "search_result ?d p (ri, rins)" by simp
  show ?thesis
  proof (cases "0 \<le> ri")
    case True
    with r have ri: "nat ri < length ?d" "cmp p (?d ! nat ri) = 0" by (auto simp: search_result_def)
    let ?e = "arraylist_dup_end cmp ?d p (Suc (nat ri))"
    from True raw assms(3,4) have "ins = int ?e"
      by (simp add: arraylist_binary_search_def Let_def)
    moreover have e: "Suc (nat ri) \<le> ?e" "?e \<le> length ?d"
        "\<forall>k. Suc (nat ri) \<le> k \<and> k < ?e \<longrightarrow> cmp p (?d ! k) = 0"
        "?e = length ?d \<or> cmp p (?d ! ?e) \<noteq> 0"
      using arraylist_dup_end_bounds [of "Suc (nat ri)" ?d p] ri by simp_all
    moreover have "0 \<le> cmp p (?d ! j)" if "j < ?e" for j
      using ordered_before [OF assms(1) ri(1), of p j] ri(2) e(3) that by (cases "j \<le> nat ri") auto
    moreover have "cmp p (?d ! j) < 0" if "?e \<le> j" "j < length ?d" for j
    proof -
      from that e(4) have ne: "cmp p (?d ! ?e) \<noteq> 0" by auto
      have "cmp (?d ! nat ri) (?d ! ?e) \<le> 0"
        using e(1) that by (intro ordered_nth [OF assms(1)]) auto
      with ri(2) have "cmp p (?d ! ?e) \<le> 0" using cmp_trans [of p "?d ! nat ri"] by simp
      with ne have "cmp p (?d ! ?e) < 0" by simp
      with that show ?thesis using ordered_after [OF assms(1)] by blast
    qed
    ultimately show ?thesis by (simp add: cut_at_def)
  next
    case False
    with raw assms(3,4) have "ins = rins"
      by (simp add: arraylist_binary_search_def Let_def)
    with False r show ?thesis
      by (auto simp: search_result_def cut_at_def Let_def intro: less_imp_le split: if_splits)
  qed
qed


text \<open>In a list without duplicates the element found is the only equal one.\<close>

lemma search_found_distinct:
  assumes "cmp_distinct cmp (al_data al)" and "al_data al \<noteq> []" and "\<not> al_allow_duplicates al"
    and "arraylist_binary_search cmp al p = (ptr, i, ins)" and "0 \<le> i"
  shows "nat i < length (al_data al) \<and> cmp p (al_data al ! nat i) = 0
    \<and> (\<forall>j < nat i. 0 < cmp p (al_data al ! j))
    \<and> (\<forall>j. nat i < j \<and> j < length (al_data al) \<longrightarrow> cmp p (al_data al ! j) < 0)"
proof -
  let ?d = "al_data al"
  from assms(3,4) have "arraylist_binary_search_raw cmp ?d p = (i, ins)"
    by (simp add: arraylist_binary_search_def Let_def split: prod.splits)
  with arraylist_binary_search_raw_correct [OF distinct_ordered_imp [OF assms(1)] assms(2), of p] assms(5)
  have i: "nat i < length ?d" "cmp p (?d ! nat i) = 0" by (auto simp: search_result_def)
  have nth: "cmp (?d ! j) (?d ! k) < 0" if "j < k" "k < length ?d" for j k
    using assms(1) that by (simp add: cmp_distinct_def sorted_wrt_iff_nth_less)
  have "cmp (?d ! nat i) p = 0" using i(2) cmp_0_iff by blast
  then have "0 < cmp p (?d ! j)" if "j < nat i" for j
    using cmp_less_le_trans [OF nth [OF that i(1)], of p] cmp_less_iff [of _ p] by auto
  moreover have "cmp p (?d ! j) < 0" if "nat i < j" "j < length ?d" for j
    using cmp_le_less_trans [OF _ nth [OF that], of p] i(2) by simp
  ultimately show ?thesis using i by blast
qed

lemma search_not_found_distinct:
  assumes "cmp_distinct cmp (al_data al)" and "al_data al \<noteq> []" and "\<not> al_allow_duplicates al"
    and "arraylist_binary_search cmp al p = (ptr, i, ins)" and "i < 0"
  shows "let c = (if ins < 0 then length (al_data al) else nat ins) in
    c \<le> length (al_data al) \<and> (\<forall>j<c. 0 < cmp p (al_data al ! j))
    \<and> (\<forall>j. c \<le> j \<and> j < length (al_data al) \<longrightarrow> cmp p (al_data al ! j) < 0) \<and> ins \<le> int (length (al_data al))"
proof -
  let ?d = "al_data al"
  from assms(3,4) have "arraylist_binary_search_raw cmp ?d p = (i, ins)"
    by (simp add: arraylist_binary_search_def Let_def split: prod.splits)
  with arraylist_binary_search_raw_correct [OF distinct_ordered_imp [OF assms(1)] assms(2), of p] assms(5)
  show ?thesis by (auto simp: search_result_def Let_def)
qed

end

subsection \<open>Removal\<close>

lemma arraylist_shrink_fields [simp]:
  "al_sorted (arraylist_shrink al) = al_sorted al"
  "al_allow_duplicates (arraylist_shrink al) = al_allow_duplicates al"
  "al_callback_free (arraylist_shrink al) = al_callback_free al"
  "al_size_alloc_min (arraylist_shrink al) = al_size_alloc_min al"
  by (simp_all add: arraylist_shrink_def Let_def)

lemma arraylist_remove_fields [simp]:
  "al_sorted (fst (arraylist_remove al i)) = al_sorted al"
  "al_allow_duplicates (fst (arraylist_remove al i)) = al_allow_duplicates al"
  "al_callback_free (fst (arraylist_remove al i)) = al_callback_free al"
  "al_size_alloc_min (fst (arraylist_remove al i)) = al_size_alloc_min al"
  by (simp_all add: arraylist_remove_def Let_def)

lemma al_data_remove:
  "i < length (al_data al) \<Longrightarrow>
     al_data (fst (arraylist_remove al (int i))) = take i (al_data al) @ drop (Suc i) (al_data al)"
  by (simp add: arraylist_remove_def Let_def)

lemma arraylist_remove_equal_at_data:
  assumes "i \<le> length (al_data al)"
  shows "al_data (arraylist_remove_equal_at cmp al i p)
     = take i (al_data al) @ dropWhile (\<lambda>x. cmp x p = 0) (drop i (al_data al))"
  using assms
proof (induction "length (al_data al)" arbitrary: al rule: less_induct)
  case less
  show ?case
  proof (cases "i < length (al_data al) \<and> cmp (al_data al ! i) p = 0")
    case True
    let ?al = "fst (arraylist_remove al (int i))"
    have d: "al_data ?al = take i (al_data al) @ drop (Suc i) (al_data al)"
      using True by (simp add: al_data_remove)
    have "al_data (arraylist_remove_equal_at cmp ?al i p)
       = take i (al_data ?al) @ dropWhile (\<lambda>x. cmp x p = 0) (drop i (al_data ?al))"
      using True by (intro less.hyps) (auto simp: d)
    moreover have "drop i (al_data al) = al_data al ! i # drop (Suc i) (al_data al)"
      using True by (simp add: Cons_nth_drop_Suc)
    ultimately show ?thesis using True
      by (simp add: arraylist_remove_equal_at.simps [of cmp al i p] d)
  next
    case False
    then show ?thesis using less.prems
      by (cases "drop i (al_data al)")
        (auto simp: arraylist_remove_equal_at.simps [of cmp al i p] nth_via_drop,
          metis append_take_drop_id)
  qed
qed

lemma arraylist_remove_equal_data:
  assumes "i \<le> length (al_data al)"
  shows "al_data (arraylist_remove_equal cmp al i p)
     = take i (al_data al) @ filter (\<lambda>x. cmp x p \<noteq> 0) (drop i (al_data al))"
  using assms
proof (induction "length (al_data al) - i" arbitrary: al i)
  case 0
  then show ?case by (simp add: arraylist_remove_equal.simps [of cmp al i p])
next
  case (Suc n)
  let ?al = "fst (arraylist_remove al (int i))"
  from Suc have i: "i < length (al_data al)" by simp
  then have d: "al_data ?al = take i (al_data al) @ drop (Suc i) (al_data al)"
    by (simp add: al_data_remove)
  have cons: "drop i (al_data al) = al_data al ! i # drop (Suc i) (al_data al)"
    using i by (simp add: Cons_nth_drop_Suc)
  show ?case
  proof (cases "cmp (al_data al ! i) p = 0")
    case True
    have "al_data (arraylist_remove_equal cmp ?al i p)
       = take i (al_data ?al) @ filter (\<lambda>x. cmp x p \<noteq> 0) (drop i (al_data ?al))"
      by (rule Suc.hyps(1)) (use Suc.hyps(2) i d in auto)
    with True i cons d show ?thesis
      by (simp add: arraylist_remove_equal.simps [of cmp al i p])
  next
    case False
    have "al_data (arraylist_remove_equal cmp al (Suc i) p)
       = take (Suc i) (al_data al) @ filter (\<lambda>x. cmp x p \<noteq> 0) (drop (Suc i) (al_data al))"
      by (rule Suc.hyps(1)) (use Suc.hyps(2) i in auto)
    with False i cons show ?thesis
      by (simp add: arraylist_remove_equal.simps [of cmp al i p] take_Suc_conv_app_nth)
  qed
qed

subsection \<open>Insertion\<close>

lemma arraylist_grow_fields [simp]:
  "al_sorted (arraylist_grow al) = al_sorted al"
  "al_allow_duplicates (arraylist_grow al) = al_allow_duplicates al"
  "al_callback_free (arraylist_grow al) = al_callback_free al"
  "al_size_alloc_min (arraylist_grow al) = al_size_alloc_min al"
  "al_data (arraylist_grow al) = al_data al"
  "al_freed (arraylist_grow al) = al_freed al"
  by (simp_all add: arraylist_grow_def)

lemma arraylist_remove_equal_at_fields [simp]:
  "al_sorted (arraylist_remove_equal_at cmp al i p) = al_sorted al \<and>
   al_allow_duplicates (arraylist_remove_equal_at cmp al i p) = al_allow_duplicates al"
  by (induction cmp al i p rule: arraylist_remove_equal_at.induct)
    (subst arraylist_remove_equal_at.simps, simp)+

lemma arraylist_remove_equal_fields [simp]:
  "al_sorted (arraylist_remove_equal cmp al i p) = al_sorted al \<and>
   al_allow_duplicates (arraylist_remove_equal cmp al i p) = al_allow_duplicates al"
  by (induction cmp al i p rule: arraylist_remove_equal.induct)
    (subst arraylist_remove_equal.simps, simp)+

text \<open>The element placed at an index, or at the end when the index is out of range.\<close>

definition put_at :: "int \<Rightarrow> 'a \<Rightarrow> 'a list \<Rightarrow> 'a list" where
  "put_at i p d = (let k = (if i < 0 \<or> i > int (length d) then length d else nat i) in
     take k d @ p # drop k d)"

lemma put_at_negative: "i < 0 \<Longrightarrow> put_at i p d = d @ [p]"
  by (simp add: put_at_def)

text \<open>The invariant of a sorted list, and what an insertion must do to the elements.\<close>

definition al_inv :: "('a \<Rightarrow> 'a \<Rightarrow> int) \<Rightarrow> 'a arraylist \<Rightarrow> bool" where
  "al_inv cmp al \<longleftrightarrow> (al_sorted al \<longrightarrow>
     (if al_allow_duplicates al then cmp_ordered cmp (al_data al) else cmp_distinct cmp (al_data al)))"

definition insert_spec :: "('a \<Rightarrow> 'a \<Rightarrow> int) \<Rightarrow> 'a arraylist \<Rightarrow> int \<Rightarrow> 'a \<Rightarrow> 'a list" where
  "insert_spec cmp al index p =
     (if al_sorted al then
        if al_allow_duplicates al then ins_after cmp p (al_data al)
        else ins_replace cmp p (al_data al)
      else put_at index p
        (if al_allow_duplicates al then al_data al else filter (\<lambda>x. cmp x p \<noteq> 0) (al_data al)))"

text \<open>The insertion is a change of the data by \<open>put_at\<close> at an index, after the removals.\<close>

lemma arraylist_insert_put_at:
  "arraylist_insert cmp al index p =
    (let (al', i) =
        (if al_sorted al then
           (let (_, found, ins) = arraylist_search cmp (Some al) p in
            if found \<ge> 0 \<and> \<not> al_allow_duplicates al
            then (arraylist_remove_equal_at cmp al (nat found) p, found) else (al, ins))
         else if \<not> al_allow_duplicates al then (arraylist_remove_equal cmp al 0 p, index)
         else (al, index))
     in ((arraylist_grow al')\<lparr>al_data := put_at i p (al_data al')\<rparr>,
         if i < 0 \<or> i > al_size al' then al_size al' else i))"
  by (auto simp: arraylist_insert_def put_at_def Let_def split: prod.splits)

context cmp_order
begin

lemma insert_sorted_duplicates:
  assumes "al_inv cmp al" "al_sorted al" "al_allow_duplicates al"
  shows "al_data (fst (arraylist_insert cmp al index p)) = ins_after cmp p (al_data al)"
proof (cases "al_data al = []")
  case True
  with assms(2) show ?thesis
    by (simp add: arraylist_insert_put_at arraylist_search_def put_at_def ins_after_def)
next
  case False
  obtain ptr i ins where r: "arraylist_binary_search cmp al p = (ptr, i, ins)" by (cases rule: prod_cases3)
  let ?c = "if ins < 0 then length (al_data al) else nat ins"
  from assms have "cut_at (al_data al) p ?c"
    by (intro search_cut [OF _ False assms(3) r]) (simp add: al_inv_def)
  moreover from this have "put_at ins p (al_data al) = take ?c (al_data al) @ p # drop ?c (al_data al)"
    by (auto simp: put_at_def cut_at_def Let_def)
  ultimately show ?thesis using assms False r
    by (simp add: arraylist_insert_put_at arraylist_search_def cut_at_ins_after)
qed

lemma insert_sorted_distinct:
  assumes "al_inv cmp al" "al_sorted al" "\<not> al_allow_duplicates al"
  shows "al_data (fst (arraylist_insert cmp al index p)) = ins_replace cmp p (al_data al)"
proof (cases "al_data al = []")
  case True
  with assms(2) show ?thesis
    by (simp add: arraylist_insert_put_at arraylist_search_def put_at_def ins_replace_def)
next
  case False
  let ?d = "al_data al"
  obtain ptr i ins where r: "arraylist_binary_search cmp al p = (ptr, i, ins)" by (cases rule: prod_cases3)
  have inv: "cmp_distinct cmp ?d" using assms by (simp add: al_inv_def)
  show ?thesis
  proof (cases "0 \<le> i")
    case True
    note f = search_found_distinct [OF inv False assms(3) r True]
    then have "dropWhile (\<lambda>x. cmp x p = 0) (drop (nat i) ?d) = drop (Suc (nat i)) ?d"
    proof -
      have "drop (nat i) ?d = ?d ! nat i # drop (Suc (nat i)) ?d"
        using f by (simp add: Cons_nth_drop_Suc)
      moreover have "dropWhile (\<lambda>x. cmp x p = 0) (drop (Suc (nat i)) ?d) = drop (Suc (nat i)) ?d"
      proof (cases "Suc (nat i) < length ?d")
        case True
        with f have "cmp p (?d ! Suc (nat i)) < 0" by simp
        then have "cmp (?d ! Suc (nat i)) p \<noteq> 0" using cmp_0_iff by force
        with True show ?thesis by (simp add: dropWhile_eq_self_iff hd_drop_conv_nth)
      qed simp
      ultimately show ?thesis using f cmp_0_iff by auto
    qed
    then have "al_data (arraylist_remove_equal_at cmp al (nat i) p) = take (nat i) ?d @ drop (Suc (nat i)) ?d"
      using f by (simp add: arraylist_remove_equal_at_data)
    moreover have "filter (\<lambda>x. 0 < cmp p x) ?d = take (nat i) ?d"
      using f by (intro filter_cut) (auto simp: not_less le_less)
    moreover have "filter (\<lambda>x. cmp p x < 0) ?d = drop (Suc (nat i)) ?d"
      using f by (intro filter_cut_drop) (auto simp: not_less less_Suc_eq intro: less_imp_le)
    ultimately show ?thesis using assms False r True f
      by (simp add: arraylist_insert_put_at arraylist_search_def put_at_def ins_replace_def Let_def)
  next
    case ni: False
    let ?c = "if ins < 0 then length ?d else nat ins"
    from search_not_found_distinct [OF inv False assms(3) r] ni
    have c: "?c \<le> length ?d" "\<forall>j<?c. 0 < cmp p (?d ! j)" 
      "\<forall>j. ?c \<le> j \<and> j < length ?d \<longrightarrow> cmp p (?d ! j) < 0" "ins \<le> int (length ?d)"
      by (simp_all add: Let_def)
    have "filter (\<lambda>x. 0 < cmp p x) ?d = take ?c ?d"
      using c by (intro filter_cut) (auto simp: not_less intro: less_imp_le)
    moreover have "filter (\<lambda>x. cmp p x < 0) ?d = drop ?c ?d"
      using c by (intro filter_cut_drop) (auto simp: not_less intro: less_imp_le)
    moreover have "put_at ins p ?d = take ?c ?d @ p # drop ?c ?d"
      using c by (auto simp: put_at_def Let_def)
    ultimately show ?thesis using assms False r ni
      by (simp add: arraylist_insert_put_at arraylist_search_def ins_replace_def)
  qed
qed

lemma insert_correct:
  assumes "al_inv cmp al"
  shows "al_data (fst (arraylist_insert cmp al index p)) = insert_spec cmp al index p"
    and "al_inv cmp (fst (arraylist_insert cmp al index p))"
proof -
  show eq: "al_data (fst (arraylist_insert cmp al index p)) = insert_spec cmp al index p"
  proof (cases "al_sorted al")
    case True
    with assms show ?thesis
      by (cases "al_allow_duplicates al")
        (simp_all add: insert_spec_def insert_sorted_duplicates insert_sorted_distinct)
  next
    case False
    then show ?thesis
      by (simp add: arraylist_insert_put_at insert_spec_def arraylist_remove_equal_data)
  qed
  have "al_sorted (fst (arraylist_insert cmp al index p)) = al_sorted al"
    "al_allow_duplicates (fst (arraylist_insert cmp al index p)) = al_allow_duplicates al"
    by (auto simp: arraylist_insert_put_at split: prod.splits)
  with assms eq show "al_inv cmp (fst (arraylist_insert cmp al index p))"
    by (simp add: al_inv_def insert_spec_def ordered_ins_after distinct_ordered_ins_replace)
qed


lemma standard_search_correct:
  "arraylist_standard_search_loop cmp d p k = (r, i, ins) \<Longrightarrow>
     (case r of None \<Rightarrow> i = - 1 \<and> (\<forall>x\<in>set d. cmp x p \<noteq> 0)
      | Some x \<Rightarrow> \<exists>j<length d. i = k + int j \<and> d ! j = x \<and> cmp x p = 0 \<and> (\<forall>l<j. cmp (d ! l) p \<noteq> 0))"
proof (induction d arbitrary: k)
  case (Cons y d)
  show ?case
  proof (cases "cmp y p = 0")
    case True
    with Cons.prems show ?thesis by (auto intro: exI [of _ 0])
  next
    case False
    with Cons.prems have "arraylist_standard_search_loop cmp d p (k + 1) = (r, i, ins)" by simp
    note IH = Cons.IH [OF this]
    show ?thesis
    proof (cases r)
      case None
      with IH False show ?thesis by simp
    next
      case (Some x)
      with IH obtain j where "j < length d" "i = k + 1 + int j" "d ! j = x" "cmp x p = 0"
        "\<forall>l<j. cmp (d ! l) p \<noteq> 0" by auto
      with False have "Suc j < length (y # d) \<and> i = k + int (Suc j) \<and> (y # d) ! Suc j = x \<and> cmp x p = 0
          \<and> (\<forall>l<Suc j. cmp ((y # d) ! l) p \<noteq> 0)" by (auto simp: less_Suc_eq_0_disj)
      then have "\<exists>j<length (y # d). i = k + int j \<and> (y # d) ! j = x \<and> cmp x p = 0
          \<and> (\<forall>l<j. cmp ((y # d) ! l) p \<noteq> 0)" by blast
      then show ?thesis unfolding Some option.case .
    qed
  qed
qed simp

lemma binary_search_correct:
  assumes "cmp_ordered cmp (al_data al)" and "al_data al \<noteq> []"
    and "al_allow_duplicates al \<or> cmp_distinct cmp (al_data al)"
    and "arraylist_binary_search cmp al p = (r, i, ins)"
  shows "case r of None \<Rightarrow> i = - 1 \<and> (\<forall>x\<in>set (al_data al). cmp x p \<noteq> 0)
      | Some x \<Rightarrow> \<exists>j<length (al_data al). i = int j \<and> al_data al ! j = x \<and> cmp x p = 0
          \<and> (\<forall>l<j. cmp (al_data al ! l) p \<noteq> 0)"
proof -
  let ?d = "al_data al"
  obtain ri rins where raw: "arraylist_binary_search_raw cmp ?d p = (ri, rins)" by fastforce
  with arraylist_binary_search_raw_correct [OF assms(1,2), of p]
  have sr: "search_result ?d p (ri, rins)" by simp
  show ?thesis
  proof (cases "0 \<le> ri")
    case False
    with raw assms(4) have "r = None" "i = ri"
      by (auto simp: arraylist_binary_search_def Let_def)
    moreover have "ri = - 1" and "\<forall>j<length ?d. cmp p (?d ! j) \<noteq> 0"
      using False sr by (auto simp: search_result_def Let_def split: if_splits)
        (metis less_irrefl not_le)+
    ultimately show ?thesis using cmp_0_iff by (auto simp: in_set_conv_nth)
  next
    case True
    with sr have ri: "nat ri < length ?d" "cmp p (?d ! nat ri) = 0" by (auto simp: search_result_def)
    show ?thesis
    proof (cases "al_allow_duplicates al")
      case dup: True
      let ?s = "arraylist_dup_start cmp ?d p (nat ri)"
      have s: "?s \<le> nat ri" "\<forall>k. ?s \<le> k \<and> k < nat ri \<longrightarrow> cmp p (?d ! k) = 0"
        "?s = 0 \<or> cmp p (?d ! (?s - 1)) \<noteq> 0"
        using arraylist_dup_start_bounds [of ?d p "nat ri"] by auto
      have eq: "r = Some (?d ! ?s)" "i = int ?s"
        using assms(4) raw True dup by (auto simp: arraylist_binary_search_def Let_def)
      have s0: "cmp p (?d ! ?s) = 0" using s(1,2) ri(2) by (cases "?s = nat ri") auto
      moreover have "cmp p (?d ! l) \<noteq> 0" if "l < ?s" for l
      proof -
        have "0 \<le> cmp p (?d ! (?s - 1))"
          using ordered_before [OF assms(1), of ?s p "?s - 1"] s(1) ri(1) s0 by simp
        with s(3) that have "0 < cmp p (?d ! (?s - 1))" by auto
        then have "0 < cmp p (?d ! l)"
          using ordered_before_strict [OF assms(1), of "?s - 1" p l] s(1) ri(1) that by auto
        then show ?thesis by simp
      qed
      ultimately show ?thesis using eq s(1) ri(1) cmp_0_iff by (auto intro!: exI [of _ ?s])
    next
      case nodup: False
      with assms(3) have dist: "cmp_distinct cmp ?d" by simp
      have eq: "r = Some (?d ! nat ri)" "i = ri"
        using assms(4) raw True nodup by (auto simp: arraylist_binary_search_def Let_def)
      have "\<forall>l<nat ri. cmp p (?d ! l) \<noteq> 0"
        using search_found_distinct [OF dist assms(2) nodup assms(4)] eq True by auto
      then show ?thesis using eq ri True cmp_0_iff by (auto intro!: exI [of _ "nat ri"])
    qed
  qed
qed

lemma search_correct:
  assumes "al_inv cmp al" and "arraylist_search cmp (Some al) p = (r, i, ins)"
  shows "case r of None \<Rightarrow> i = - 1 \<and> (\<forall>x\<in>set (al_data al). cmp x p \<noteq> 0)
      | Some x \<Rightarrow> \<exists>j<length (al_data al). i = int j \<and> al_data al ! j = x \<and> cmp x p = 0
          \<and> (\<forall>l<j. cmp (al_data al ! l) p \<noteq> 0)"
proof (cases "al_data al = []")
  case True
  with assms(2) show ?thesis by (auto simp: arraylist_search_def)
next
  case False
  show ?thesis
  proof (cases "al_sorted al")
    case True
    with assms False show ?thesis
      by (intro binary_search_correct)
        (auto simp: arraylist_search_def al_inv_def distinct_ordered_imp split: if_splits)
  next
    case ns: False
    with assms(2) False have "arraylist_standard_search_loop cmp (al_data al) p 0 = (r, i, ins)"
      by (simp add: arraylist_search_def arraylist_standard_search_def)
    from standard_search_correct [OF this] show ?thesis by (cases r) simp_all
  qed
qed

end

subsection \<open>Memory\<close>

text \<open>The allocated array holds the elements.\<close>

definition al_room :: "'a arraylist \<Rightarrow> bool" where
  "al_room al \<longleftrightarrow> al_size al \<le> al_size_alloc al \<and> 0 \<le> al_size_alloc_min al"

lemma al_room_remove: "al_room al \<Longrightarrow> al_room (fst (arraylist_remove al i))"
  by (auto simp: al_room_def arraylist_remove_def arraylist_shrink_def Let_def)

lemma al_room_remove_equal_at: "al_room al \<Longrightarrow> al_room (arraylist_remove_equal_at cmp al i p)"
  by (induction cmp al i p rule: arraylist_remove_equal_at.induct)
    (subst arraylist_remove_equal_at.simps, simp add: al_room_remove)

lemma al_room_remove_equal: "al_room al \<Longrightarrow> al_room (arraylist_remove_equal cmp al i p)"
  by (induction cmp al i p rule: arraylist_remove_equal.induct)
    (subst arraylist_remove_equal.simps, simp add: al_room_remove)

lemma al_room_grow_put:
  "al_room al \<Longrightarrow> al_room ((arraylist_grow al)\<lparr>al_data := put_at i p (al_data al)\<rparr>)"
  by (auto simp: al_room_def arraylist_grow_def put_at_def Let_def)

lemma al_room_insert: "al_room al \<Longrightarrow> al_room (fst (arraylist_insert cmp al i p))"
  by (auto simp: arraylist_insert_put_at al_room_grow_put al_room_remove_equal
      al_room_remove_equal_at split: prod.splits)

text \<open>With a free callback, every element that leaves the list is freed once.\<close>

definition al_owned :: "'a arraylist \<Rightarrow> 'a multiset" where
  "al_owned al = mset (al_data al) + mset (al_freed al)"

lemma al_owned_remove:
  "al_callback_free al \<Longrightarrow> al_owned (fst (arraylist_remove al i)) = al_owned al"
proof (cases "0 \<le> i \<and> i < al_size al")
  case True
  moreover assume "al_callback_free al"
  moreover have "mset (al_data al) = mset (take (nat i) (al_data al) @ drop (Suc (nat i)) (al_data al)) + {#al_data al ! nat i#}"
    using True by (subst id_take_nth_drop [of "nat i" "al_data al"]) auto
  ultimately show ?thesis by (auto simp: al_owned_def arraylist_remove_def Let_def)
qed (auto simp: arraylist_remove_def)

lemma al_owned_remove_equal_at:
  "al_callback_free al \<Longrightarrow> al_owned (arraylist_remove_equal_at cmp al i p) = al_owned al"
  by (induction cmp al i p rule: arraylist_remove_equal_at.induct)
    (subst arraylist_remove_equal_at.simps, simp add: al_owned_remove)

lemma al_owned_remove_equal:
  "al_callback_free al \<Longrightarrow> al_owned (arraylist_remove_equal cmp al i p) = al_owned al"
  by (induction cmp al i p rule: arraylist_remove_equal.induct)
    (subst arraylist_remove_equal.simps, simp add: al_owned_remove)

lemma mset_put_at: "mset (put_at i p d) = add_mset p (mset d)"
proof -
  have "mset (take k d) + mset (drop k d) = mset d" for k
    by (metis append_take_drop_id mset_append)
  then show ?thesis by (simp add: put_at_def Let_def)
qed

lemma al_owned_grow_put:
  "al_owned ((arraylist_grow al)\<lparr>al_data := put_at i p (al_data al)\<rparr>) = add_mset p (al_owned al)"
  by (simp add: al_owned_def mset_put_at)

lemma al_owned_insert:
  "al_callback_free al \<Longrightarrow> al_owned (fst (arraylist_insert cmp al i p)) = add_mset p (al_owned al)"
  by (auto simp: arraylist_insert_put_at al_owned_grow_put al_owned_remove_equal
      al_owned_remove_equal_at split: prod.splits)


lemma al_room_clear: "al_room al \<Longrightarrow> al_room (arraylist_clear al)"
  by (auto simp: al_room_def arraylist_clear_def)

lemma al_owned_clear: "al_callback_free al \<Longrightarrow> al_owned (arraylist_clear al) = al_owned al"
  by (simp add: al_owned_def arraylist_clear_def)

text \<open>
  The allocated size can fall under \<open>size_alloc_min\<close>, although the structure describes that field as
  the minimum number of allocated items: a list created with room for 3 elements that has grown to
  4 shrinks to 2 when an element is removed while it holds 2.
\<close>

lemma arraylist_shrink_under_min:
  "let al = \<lparr>al_size_alloc = 4, al_size_alloc_min = 3, al_sorted = False,
            al_allow_duplicates = True, al_data = ''ab'', al_callback_free = False, al_freed = []\<rparr>
   in al_size_alloc (fst (arraylist_remove al 0)) = 2"
  by (simp add: arraylist_remove_def arraylist_shrink_def Let_def)

subsection \<open>Properties\<close>

text \<open>
  Claim C2. Insertion in an arraylist, for every total comparison: a sorted list keeps its order; with duplicates
  allowed the new element comes after all elements that are not greater, without duplicates it
  replaces the equal one, and in a list that is not sorted it is put at the index asked for (at the
  end when that is out of range) once the equal elements are removed.
\<close>

theorem arraylist_insert_correct:
  assumes "cmp_order cmp" and "al_inv cmp al"
  shows "al_data (fst (arraylist_insert cmp al index p)) = insert_spec cmp al index p
    \<and> al_inv cmp (fst (arraylist_insert cmp al index p))"
  using cmp_order.insert_correct [OF assms] by blast

theorem arraylist_insert_correct_witness:
  "\<exists>al. al_data (fst (arraylist_insert strcmp al (- 1) ''b'')) = insert_spec strcmp al (- 1) ''b''
     \<and> al_inv strcmp (fst (arraylist_insert strcmp al (- 1) ''b'')) \<and> al_data al = [''a'', ''c'']"
proof -
  let ?al = "\<lparr>al_size_alloc = 2, al_size_alloc_min = 0, al_sorted = True,
        al_allow_duplicates = False, al_data = [''a'', ''c''], al_callback_free = False,
        al_freed = []\<rparr>"
  have "al_inv strcmp ?al" by (simp add: al_inv_def cmp_distinct_def strcmp_def)
  then show ?thesis
    using arraylist_insert_correct [OF strcmp.cmp_order_axioms, of ?al "- 1" "''b''"]
    by (intro exI [of _ ?al]) simp
qed

text \<open>
  Claim C3. The search of an arraylist, binary or not, finds an element exactly when one compares
  equal, and then returns the first of them with its index.
\<close>

theorem arraylist_search_correct:
  assumes "cmp_order cmp" and "al_inv cmp al"
    and "arraylist_search cmp (Some al) p = (r, i, ins)"
  shows "case r of None \<Rightarrow> i = - 1 \<and> (\<forall>x\<in>set (al_data al). cmp x p \<noteq> 0)
      | Some x \<Rightarrow> \<exists>j<length (al_data al). i = int j \<and> al_data al ! j = x \<and> cmp x p = 0
          \<and> (\<forall>l<j. cmp (al_data al ! l) p \<noteq> 0)"
  by (rule cmp_order.search_correct [OF assms])

theorem arraylist_search_correct_witness:
  "let al = \<lparr>al_size_alloc = 2, al_size_alloc_min = 0, al_sorted = True,
        al_allow_duplicates = True, al_data = [''a'', ''c''], al_callback_free = False,
        al_freed = []\<rparr>
   in \<exists>j<length (al_data al). (1::int) = int j \<and> al_data al ! j = ''c'' \<and> strcmp ''c'' ''c'' = 0
        \<and> (\<forall>l<j. strcmp (al_data al ! l) ''c'' \<noteq> 0)"
proof -
  let ?al = "\<lparr>al_size_alloc = 2, al_size_alloc_min = 0, al_sorted = True,
        al_allow_duplicates = True, al_data = [''a'', ''c''], al_callback_free = False,
        al_freed = []\<rparr>"
  have "al_inv strcmp ?al" by (simp add: al_inv_def cmp_ordered_def strcmp_def)
  moreover have "arraylist_search strcmp (Some ?al) ''c'' = (Some ''c'', 1, 2)"
    by (simp add: arraylist_search_def arraylist_binary_search_def arraylist_binary_search_raw_def
        arraylist_dup_end.simps strcmp_def)
  ultimately show ?thesis
    using arraylist_search_correct [OF strcmp.cmp_order_axioms, of ?al "''c''" "Some ''c''" 1 2]
    by simp
qed

text \<open>
  The allocated array always has room for the elements: insertion, removal and clearing
  keep the size within the allocated size.
\<close>

theorem arraylist_room:
  assumes "al_room al"
  shows "al_room (fst (arraylist_insert cmp al index p)) \<and> al_room (fst (arraylist_remove al index))
    \<and> al_room (arraylist_clear al)"
  using assms by (simp add: al_room_insert al_room_remove al_room_clear)

theorem arraylist_room_witness:
  "\<exists>al. arraylist_new 1 True False False = Some al
     \<and> al_room (fst (arraylist_insert strcmp al 0 ''a''))
     \<and> al_room (fst (arraylist_remove al 0)) \<and> al_room (arraylist_clear al)"
  using arraylist_room [of "the (arraylist_new 1 True False False)" strcmp 0 "''a''"]
  by (auto simp: arraylist_new_def al_room_def)

text \<open>
  Claim C4. No element is lost or freed twice: with a free callback, the elements of the list and the
  elements freed so far together change by the inserted element only.
\<close>

theorem arraylist_owned:
  assumes "al_callback_free al"
  shows "al_owned (fst (arraylist_insert cmp al index p)) = add_mset p (al_owned al)
    \<and> al_owned (fst (arraylist_remove al index)) = al_owned al
    \<and> al_owned (arraylist_clear al) = al_owned al"
  using assms by (simp add: al_owned_insert al_owned_remove al_owned_clear)

theorem arraylist_owned_witness:
  "\<exists>al. al_data al = [''a''] \<and> al_owned (fst (arraylist_insert strcmp al 0 ''a'')) = add_mset ''a'' (al_owned al)
    \<and> al_owned (fst (arraylist_remove al 0)) = al_owned al
    \<and> al_owned (arraylist_clear al) = al_owned al"
proof -
  let ?al = "\<lparr>al_size_alloc = 2, al_size_alloc_min = 0, al_sorted = True,
        al_allow_duplicates = False, al_data = [''a''], al_callback_free = True, al_freed = []\<rparr>"
  show ?thesis using arraylist_owned [of ?al strcmp 0 "''a''"]
    by (intro exI [of _ ?al]) simp
qed

end
