(* ===== verification/Linked_List.thy ===== *)
theory Linked_List
  imports Prelude "HOL-Library.Monad_Syntax"
begin

text \<open>
  Doubly linked lists, the representation of most collections of the program: every item holds
  the addresses of the previous and next ones, and the owner those of the first and last items.
  The heap maps addresses to items; reading an address outside it is an error, the value
  \<open>None\<close> of the operations.  A segment is a list of addresses whose links are in order.
\<close>

record 'a item =
  payload :: 'a
  prev_item :: "nat option"
  next_item :: "nat option"

type_synonym 'a heap = "nat \<Rightarrow> 'a item option"

text \<open>The assignments \<open>ptr->prev_item = p\<close> and \<open>ptr->next_item = n\<close>.\<close>

definition set_prev :: "nat \<Rightarrow> nat option \<Rightarrow> 'a heap \<Rightarrow> 'a heap option" where
  "set_prev a p h = map_option (\<lambda>it. h(a \<mapsto> it\<lparr>prev_item := p\<rparr>)) (h a)"

definition set_next :: "nat \<Rightarrow> nat option \<Rightarrow> 'a heap \<Rightarrow> 'a heap option" where
  "set_next a n h = map_option (\<lambda>it. h(a \<mapsto> it\<lparr>next_item := n\<rparr>)) (h a)"

text \<open>The same through a pointer that may be \<open>NULL\<close>: \<open>if (ptr) ptr->prev_item = p\<close>.\<close>

definition set_prev_if :: "nat option \<Rightarrow> nat option \<Rightarrow> 'a heap \<Rightarrow> 'a heap option" where
  "set_prev_if ao p h = (case ao of None \<Rightarrow> Some h | Some a \<Rightarrow> set_prev a p h)"

definition set_next_if :: "nat option \<Rightarrow> nat option \<Rightarrow> 'a heap \<Rightarrow> 'a heap option" where
  "set_next_if ao n h = (case ao of None \<Rightarrow> Some h | Some a \<Rightarrow> set_next a n h)"

subsection \<open>Segments\<close>

definition first_or :: "nat list \<Rightarrow> nat option \<Rightarrow> nat option" where
  "first_or xs n = (case xs of [] \<Rightarrow> n | a # _ \<Rightarrow> Some a)"

definition last_or :: "nat option \<Rightarrow> nat list \<Rightarrow> nat option" where
  "last_or p xs = (if xs = [] then p else Some (last xs))"

lemma first_or_simps [simp]:
  "first_or [] n = n" "first_or (a # xs) n = Some a"
  "first_or (xs @ ys) n = first_or xs (first_or ys n)"
  by (simp_all add: first_or_def split: list.split)

lemma last_or_simps [simp]:
  "last_or p [] = p" "last_or p (a # xs) = last_or (Some a) xs"
  "last_or p (xs @ ys) = last_or (last_or p xs) ys"
  by (simp_all add: last_or_def)

fun seg :: "'a heap \<Rightarrow> nat option \<Rightarrow> nat list \<Rightarrow> nat option \<Rightarrow> bool" where
  "seg h p [] n = True"
| "seg h p (a # xs) n =
     ((\<exists>it. h a = Some it \<and> prev_item it = p \<and> next_item it = first_or xs n) \<and> seg h (Some a) xs n)"

lemma seg_append [simp]:
  "seg h p (xs @ ys) n \<longleftrightarrow> seg h p xs (first_or ys n) \<and> seg h (last_or p xs) ys n"
  by (induction xs arbitrary: p) auto

lemma seg_frame: "(\<And>a. a \<in> set xs \<Longrightarrow> h' a = h a) \<Longrightarrow> seg h' p xs n = seg h p xs n"
  by (induction xs arbitrary: p) auto

lemma seg_upd [simp]: "a \<notin> set xs \<Longrightarrow> seg (h(a := x)) p xs n = seg h p xs n"
  by (rule seg_frame) auto

lemma seg_dom: "seg h p xs n \<Longrightarrow> set xs \<subseteq> dom h"
  by (induction xs arbitrary: p) auto

text \<open>The payloads of the items at a list of addresses.\<close>

definition payloads :: "'a heap \<Rightarrow> nat list \<Rightarrow> 'a list" where
  "payloads h xs = map (\<lambda>a. payload (the (h a))) xs"

lemma payloads_simps [simp]:
  "payloads h [] = []" "payloads h (a # xs) = payload (the (h a)) # payloads h xs"
  "payloads h (xs @ ys) = payloads h xs @ payloads h ys"
  "length (payloads h xs) = length xs"
  by (simp_all add: payloads_def)

text \<open>An owned list: its addresses are distinct and its ends point to nothing.\<close>

definition dlist :: "'a heap \<Rightarrow> nat option \<Rightarrow> nat option \<Rightarrow> nat list \<Rightarrow> bool" where
  "dlist h first_ptr last_ptr xs \<longleftrightarrow>
     distinct xs \<and> seg h None xs None \<and> first_ptr = first_or xs None \<and> last_ptr = last_or None xs"

lemma dlistI:
  "distinct xs \<Longrightarrow> seg h None xs None \<Longrightarrow> f = first_or xs None \<Longrightarrow> l = last_or None xs
    \<Longrightarrow> dlist h f l xs"
  by (simp add: dlist_def)

lemma first_or_None [simp]: "first_or xs None = None \<longleftrightarrow> xs = []"
  by (cases xs) simp_all

lemma last_or_None [simp]: "last_or None xs = None \<longleftrightarrow> xs = []"
  by (simp add: last_or_def)

lemma last_or_Some_None [simp]: "last_or (Some a) xs \<noteq> None" "first_or xs (Some a) \<noteq> None"
  by (simp_all add: last_or_def first_or_def split: list.split)

lemma last_or_Some: "last_or p xs = Some a \<longleftrightarrow> (xs = [] \<and> p = Some a) \<or> (\<exists>ys. xs = ys @ [a])"
  by (cases xs rule: rev_cases) auto


subsection \<open>Surgery\<close>

text \<open>The effect of the assignments when the addresses are valid.\<close>

definition upd_next :: "nat option \<Rightarrow> nat option \<Rightarrow> 'a heap \<Rightarrow> 'a heap" where
  "upd_next ao n h =
     (case ao of None \<Rightarrow> h | Some a \<Rightarrow> h(a := map_option (\<lambda>it. it\<lparr>next_item := n\<rparr>) (h a)))"

definition upd_prev :: "nat option \<Rightarrow> nat option \<Rightarrow> 'a heap \<Rightarrow> 'a heap" where
  "upd_prev ao p h =
     (case ao of None \<Rightarrow> h | Some a \<Rightarrow> h(a := map_option (\<lambda>it. it\<lparr>prev_item := p\<rparr>) (h a)))"

lemma set_upd:
  "h a \<noteq> None \<Longrightarrow> set_next a n h = Some (upd_next (Some a) n h)"
  "h a \<noteq> None \<Longrightarrow> set_prev a n h = Some (upd_prev (Some a) n h)"
  by (auto simp: set_next_def set_prev_def upd_next_def upd_prev_def)

lemma set_if_upd:
  "(\<And>a. ao = Some a \<Longrightarrow> h a \<noteq> None) \<Longrightarrow> set_next_if ao n h = Some (upd_next ao n h)"
  "(\<And>a. ao = Some a \<Longrightarrow> h a \<noteq> None) \<Longrightarrow> set_prev_if ao n h = Some (upd_prev ao n h)"
  by (cases ao; simp add: set_next_if_def set_prev_if_def set_upd upd_next_def upd_prev_def)+

lemma upd_valid [simp]:
  "upd_next ao n h a = None \<longleftrightarrow> h a = None" "upd_prev ao n h a = None \<longleftrightarrow> h a = None"
  by (auto simp: upd_next_def upd_prev_def split: option.split)

lemma upd_payload [simp]:
  "h a \<noteq> None \<Longrightarrow> payload (the (upd_next ao n h a)) = payload (the (h a))"
  "h a \<noteq> None \<Longrightarrow> payload (the (upd_prev ao n h a)) = payload (the (h a))"
  by (auto simp: upd_next_def upd_prev_def split: option.split)

lemma upd_None [simp]: "upd_next None n h = h" "upd_prev None n h = h"
  by (simp_all add: upd_next_def upd_prev_def)

lemma upd_other [simp]:
  "ao \<noteq> Some a \<Longrightarrow> upd_next ao n h a = h a" "ao \<noteq> Some a \<Longrightarrow> upd_prev ao n h a = h a"
  by (auto simp: upd_next_def upd_prev_def split: option.split)

lemma payloads_upd [simp]:
  "set xs \<subseteq> dom h \<Longrightarrow> payloads (upd_next ao n h) xs = payloads h xs"
  "set xs \<subseteq> dom h \<Longrightarrow> payloads (upd_prev ao n h) xs = payloads h xs"
  by (auto simp: payloads_def)

lemma seg_upd_next:
  assumes "seg h p xs n" "distinct xs"
  shows "seg (upd_next (last_or None xs) n' h) p xs n'"
proof (cases xs rule: rev_cases)
  case (snoc ys a)
  then show ?thesis using assms
    by (auto simp: upd_next_def)
qed simp

lemma seg_upd_prev:
  assumes "seg h p xs n" "distinct xs"
  shows "seg (upd_prev (first_or xs None) p' h) p' xs n"
  using assms by (cases xs) (auto simp: upd_prev_def)

lemma seg_upd_other [simp]:
  "(\<And>a. ao = Some a \<Longrightarrow> a \<notin> set xs) \<Longrightarrow> seg (upd_next ao m h) p xs n = seg h p xs n"
  "(\<And>a. ao = Some a \<Longrightarrow> a \<notin> set xs) \<Longrightarrow> seg (upd_prev ao m h) p xs n = seg h p xs n"
  by (rule seg_frame, metis upd_other(1)) (rule seg_frame, metis upd_other(2))

lemma last_or_mem: "last_or None xs = Some a \<Longrightarrow> a \<in> set xs"
  by (auto simp: last_or_def split: if_splits)

lemma first_or_mem: "first_or xs None = Some a \<Longrightarrow> a \<in> set xs"
  by (cases xs) auto

text \<open>Unlinking an item, and linking a new one between two segments.\<close>

lemma seg_unlink:
  assumes "seg h None (xs @ a # ys) None" "distinct (xs @ a # ys)"
  shows "seg (upd_prev (first_or ys None) (last_or None xs) (upd_next (last_or None xs) (first_or ys None) h))
    None (xs @ ys) None"
proof -
  let ?h = "upd_next (last_or None xs) (first_or ys None) h"
  have x: "seg ?h None xs (first_or ys None)" using assms by (intro seg_upd_next) auto
  have y: "seg ?h (Some a) ys None"
    using assms by (subst seg_upd_other) (auto dest: last_or_mem)
  then have "seg (upd_prev (first_or ys None) (last_or None xs) ?h) (last_or None xs) ys None"
    using assms by (intro seg_upd_prev) auto
  moreover have "seg (upd_prev (first_or ys None) (last_or None xs) ?h) None xs (first_or ys None)"
    using x assms by (subst seg_upd_other) (auto dest: first_or_mem)
  ultimately show ?thesis by simp
qed

lemma seg_link:
  assumes "seg h None (xs @ ys) None" "distinct (xs @ ys)" "a \<notin> set xs" "a \<notin> set ys"
    and "h a = Some it" "prev_item it = last_or None xs" "next_item it = first_or ys None"
  shows "seg (upd_prev (first_or ys None) (Some a) (upd_next (last_or None xs) (Some a) h))
    None (xs @ a # ys) None"
proof -
  let ?h = "upd_next (last_or None xs) (Some a) h"
  let ?g = "upd_prev (first_or ys None) (Some a) ?h"
  have x: "seg ?h None xs (Some a)" using assms by (intro seg_upd_next) auto
  have x': "seg ?g None xs (Some a)"
    using x assms by (subst seg_upd_other) (auto dest: first_or_mem)
  have "seg ?h (last_or None xs) ys None"
    using assms by (subst seg_upd_other) (auto dest: last_or_mem)
  then have y: "seg ?g (Some a) ys None" using assms by (intro seg_upd_prev) auto
  have "?h a = h a" using assms(3) by (intro upd_other) (auto dest: last_or_mem)
  moreover have "?g a = ?h a" using assms(4) by (intro upd_other) (auto dest: first_or_mem)
  ultimately have "?g a = Some it" using assms(5) by simp
  with x' y assms(6,7) show ?thesis by auto
qed

lemma seg_valid:
  "seg h p xs n \<Longrightarrow> a \<in> set xs \<Longrightarrow> h a \<noteq> None"
  using seg_dom [of h p xs n] by auto

subsection \<open>The lists of the program\<close>

text \<open>
  The code that links an item before another one, links it at the end of a list and unlinks it is
  the same for every list of the program.  The payloads are those of a map, which these operations
  leave alone.
\<close>

definition payload_map :: "'a heap \<Rightarrow> nat \<Rightarrow> 'a option" where
  "payload_map h a = map_option payload (h a)"

lemma payload_map_simps [simp]:
  "payload_map (h(a := None)) = (payload_map h)(a := None)"
  "payload_map (h(a \<mapsto> it)) = (payload_map h)(a \<mapsto> payload it)"
  "dom (payload_map h) = dom h"
  by (auto simp: payload_map_def fun_eq_iff dom_def)

lemma payload_map_None: "payload_map h a = None \<longleftrightarrow> h a = None"
  by (simp add: payload_map_def)

lemma payload_map_SomeD: "payload_map h a = Some x \<Longrightarrow> \<exists>it. h a = Some it \<and> payload it = x"
  by (auto simp: payload_map_def)

lemma payload_map_Some: "h a = Some it \<Longrightarrow> payload_map h a = Some (payload it)"
  by (simp add: payload_map_def)

lemma payload_map_upd [simp]:
  "payload_map (upd_next ao n h) = payload_map h" "payload_map (upd_prev ao n h) = payload_map h"
  by (auto simp: payload_map_def fun_eq_iff upd_next_def upd_prev_def split: option.split)
     (case_tac "h x2"; auto)+

lemma dlist_frame:
  assumes "dlist h f l xs" "\<And>b. b \<in> set xs \<Longrightarrow> h' b = h b"
  shows "dlist h' f l xs"
  using assms seg_frame [of xs h' h] by (simp add: dlist_def)

lemma dlist_item:
  assumes "dlist h f l (xs @ a # ys)"
  obtains it where "h a = Some it" "prev_item it = last_or None xs" "next_item it = first_or ys None"
  using assms by (auto simp: dlist_def)

lemma dlist_first: "dlist h f l xs \<Longrightarrow> f = first_or xs None"
  by (simp add: dlist_def)

lemma dlist_last: "dlist h f l xs \<Longrightarrow> l = last_or None xs"
  by (simp add: dlist_def)

lemma dlist_valid: "dlist h f l xs \<Longrightarrow> a \<in> set xs \<Longrightarrow> h a \<noteq> None"
  by (auto simp: dlist_def dest: seg_valid)

lemma dlist_subset: "dlist h f l xs \<Longrightarrow> set xs \<subseteq> dom h"
  by (auto simp: dlist_def dest: seg_dom)

lemma dlist_distinct: "dlist h f l xs \<Longrightarrow> distinct xs"
  by (simp add: dlist_def)

lemma dlist_unlink:
  assumes d: "dlist h f l (xs @ a # ys)" and it: "h a = Some it"
  obtains h1 h2 where "set_next_if (prev_item it) (next_item it) h = Some h1"
    "set_prev_if (next_item it) (prev_item it) h1 = Some h2"
    "dlist h2 (if prev_item it \<noteq> None then f else next_item it)
      (if l = Some a then prev_item it else l) (xs @ ys)"
    "\<And>b. b \<notin> set (xs @ ys) \<Longrightarrow> h2 b = h b" "payload_map h2 = payload_map h"
proof -
  from d have seg: "seg h None (xs @ a # ys) None" and dist: "distinct (xs @ a # ys)"
    and D: "set (xs @ a # ys) \<subseteq> dom h" by (auto simp: dlist_def dest: seg_dom)
  have pn: "prev_item it = last_or None xs" "next_item it = first_or ys None"
    using seg it by auto
  let ?h1 = "upd_next (last_or None xs) (first_or ys None) h"
  let ?h2 = "upd_prev (first_or ys None) (last_or None xs) ?h1"
  have s: "set_next_if (prev_item it) (next_item it) h = Some ?h1"
    "set_prev_if (next_item it) (prev_item it) ?h1 = Some ?h2"
    unfolding pn by (rule set_if_upd; use D in \<open>auto dest!: last_or_mem first_or_mem\<close>)+
  have f: "f = first_or (xs @ a # ys) None" and l: "l = last_or None (xs @ a # ys)"
    using d by (auto simp: dlist_def)
  have fl: "(if prev_item it \<noteq> None then f else next_item it) = first_or (xs @ ys) None"
    "(if l = Some a then prev_item it else l) = last_or None (xs @ ys)"
    unfolding pn f l by (cases xs; simp) (use dist in \<open>cases ys rule: rev_cases; simp\<close>)
  have 1: "dlist ?h2 (if prev_item it \<noteq> None then f else next_item it)
      (if l = Some a then prev_item it else l) (xs @ ys)"
    using seg_unlink [OF seg dist] dist unfolding fl by (simp add: dlist_def)
  have 2: "?h2 b = h b" if "b \<notin> set (xs @ ys)" for b
    using that by (subst upd_other, fastforce dest: first_or_mem, subst upd_other)
      (auto dest: last_or_mem)
  show ?thesis by (rule that [OF s 1 2]) simp_all
qed

lemma dlist_link_before:
  assumes d: "dlist h f l (xs @ q # ys)" and a: "h a = Some it" "a \<notin> set (xs @ q # ys)"
    and q: "h q = Some pos"
  obtains h1 h2 h3 h4 where "set_prev a (prev_item pos) h = Some h1" "set_next a (Some q) h1 = Some h2"
    "set_next_if (prev_item pos) (Some a) h2 = Some h3" "set_prev q (Some a) h3 = Some h4"
    "dlist h4 (if prev_item pos \<noteq> None then f else Some a) l (xs @ a # q # ys)"
    "\<And>b. b \<notin> set (xs @ a # q # ys) \<Longrightarrow> h4 b = h b" "payload_map h4 = payload_map h"
proof -
  from d have seg: "seg h None (xs @ q # ys) None" and dist: "distinct (xs @ q # ys)"
    and D: "set (xs @ q # ys) \<subseteq> dom h" by (auto simp: dlist_def dest: seg_dom)
  have p: "prev_item pos = last_or None xs" using seg q by auto
  let ?h2 = "h(a \<mapsto> it\<lparr>prev_item := last_or None xs, next_item := Some q\<rparr>)"
  let ?h3 = "upd_next (last_or None xs) (Some a) ?h2"
  let ?h4 = "upd_prev (Some q) (Some a) ?h3"
  have s3: "set_next_if (last_or None xs) (Some a) ?h2 = Some ?h3"
    by (rule set_if_upd) (use D in \<open>auto dest!: last_or_mem\<close>)
  have s4: "set_prev q (Some a) ?h3 = Some ?h4"
    by (rule set_upd) (use D in auto)
  have "seg ?h2 None (xs @ q # ys) None" using seg a(2) by (subst seg_upd) auto
  then have "seg ?h4 None (xs @ a # q # ys) None"
    using seg_link [of ?h2 xs "q # ys" a] dist a(2) by simp
  moreover have "(if prev_item pos \<noteq> None then f else Some a) = first_or (xs @ [a]) None"
    using d unfolding p by (cases xs) (auto simp: dlist_def)
  ultimately have "dlist ?h4 (if prev_item pos \<noteq> None then f else Some a) l (xs @ a # q # ys)"
    using d dist a(2) by (cases xs) (auto simp: dlist_def)
  moreover have "?h4 b = h b" if "b \<notin> set (xs @ a # q # ys)" for b
    using that by (subst upd_other, fastforce, subst upd_other) (auto dest: last_or_mem)
  moreover have "payload_map ?h4 = payload_map h"
    using a(1) by (auto simp: payload_map_def fun_eq_iff)
  ultimately show ?thesis using s3 s4
    by (intro that [of "h(a \<mapsto> it\<lparr>prev_item := last_or None xs\<rparr>)" ?h2 ?h3 ?h4])
       (auto simp: set_prev_def set_next_def a p)
qed

lemma dlist_link_end:
  assumes d: "dlist h f (Some z) xs" and a: "h a = Some it" "a \<notin> set xs"
  obtains h1 h2 h3 where "set_prev a (Some z) h = Some h1" "set_next a None h1 = Some h2"
    "set_next z (Some a) h2 = Some h3" "dlist h3 f (Some a) (xs @ [a])"
    "\<And>b. b \<notin> set (xs @ [a]) \<Longrightarrow> h3 b = h b" "payload_map h3 = payload_map h"
proof -
  from d have seg: "seg h None xs None" and dist: "distinct xs" and D: "set xs \<subseteq> dom h"
    and z: "last_or None xs = Some z" by (auto simp: dlist_def dest: seg_dom)
  let ?h2 = "h(a \<mapsto> it\<lparr>prev_item := Some z, next_item := None\<rparr>)"
  let ?h3 = "upd_next (Some z) (Some a) ?h2"
  have zx: "z \<in> set xs" using z by (rule last_or_mem)
  have s3: "set_next z (Some a) ?h2 = Some ?h3"
    by (rule set_upd) (use D zx in auto)
  have "seg ?h2 None (xs @ []) None" using seg a(2) by (subst append_Nil2, subst seg_upd) auto
  then have "seg ?h3 None (xs @ [a]) None"
    using seg_link [of ?h2 xs "[]" a] dist a(2) z by simp
  then have "dlist ?h3 f (Some a) (xs @ [a])"
    using d dist a(2) zx by (cases xs) (auto simp: dlist_def)
  moreover have "?h3 b = h b" if "b \<notin> set (xs @ [a])" for b
    using that zx by (subst upd_other) auto
  moreover have "payload_map ?h3 = payload_map h"
    using a(1) by (auto simp: payload_map_def fun_eq_iff)
  ultimately show ?thesis using s3
    by (intro that [of "h(a \<mapsto> it\<lparr>prev_item := Some z\<rparr>)" ?h2 ?h3])
       (auto simp: set_prev_def set_next_def a)
qed

lemma dlist_link_empty:
  assumes "h a = Some it"
  obtains h1 h2 where "set_prev a None h = Some h1" "set_next a None h1 = Some h2"
    "dlist h2 (Some a) (Some a) [a]" "\<And>b. b \<noteq> a \<Longrightarrow> h2 b = h b" "payload_map h2 = payload_map h"
  using assms
  by (intro that [of "h(a \<mapsto> it\<lparr>prev_item := None\<rparr>)" "h(a \<mapsto> it\<lparr>prev_item := None, next_item := None\<rparr>)"])
     (auto simp: set_prev_def set_next_def dlist_def payload_map_def fun_eq_iff)

end
