(* ===== verification/String_Compare.thy ===== *)
theory String_Compare
  imports Utf8 Compare
begin

text \<open>
  The comparisons of strings that ignore case, \<open>string_strcasecmp\<close> and its variants of
  \<open>src/core/wee-string.c\<close>, with the case conversions.  They are shown to be
  lexicographic comparisons of the folded chars, hence comparisons in the sense of the contract
  of the containers.
\<close>

subsection \<open>The functions\<close>

fun string_strcasecmp_loop :: "cstr \<Rightarrow> cstr \<Rightarrow> int" where
  "string_strcasecmp_loop (a # s) (b # t) =
     (let diff = utf8_charcasecmp (Some (a # s)) (Some (b # t)) in
      if diff \<noteq> 0 then (if diff < 0 then - 1 else 1)
      else string_strcasecmp_loop (utf8_skip (a # s)) (utf8_skip (b # t)))"
| "string_strcasecmp_loop s t = (if s \<noteq> [] then 1 else if t \<noteq> [] then - 1 else 0)"

definition string_strcasecmp :: "cstr option \<Rightarrow> cstr option \<Rightarrow> int" where
  "string_strcasecmp string1 string2 =
     (case (string1, string2) of
        (Some s, Some t) \<Rightarrow> string_strcasecmp_loop s t
      | _ \<Rightarrow> cmp_null string1 string2)"

fun string_strcasecmp_range_loop :: "cstr \<Rightarrow> cstr \<Rightarrow> nat \<Rightarrow> int" where
  "string_strcasecmp_range_loop (a # s) (b # t) rng =
     (let diff = utf8_charcasecmp_range (Some (a # s)) (Some (b # t)) rng in
      if diff \<noteq> 0 then (if diff < 0 then - 1 else 1)
      else string_strcasecmp_range_loop (utf8_skip (a # s)) (utf8_skip (b # t)) rng)"
| "string_strcasecmp_range_loop s t rng = (if s \<noteq> [] then 1 else if t \<noteq> [] then - 1 else 0)"

definition string_strcasecmp_range :: "cstr option \<Rightarrow> cstr option \<Rightarrow> nat \<Rightarrow> int" where
  "string_strcasecmp_range string1 string2 rng =
     (case (string1, string2) of
        (Some s, Some t) \<Rightarrow> string_strcasecmp_range_loop s t rng
      | _ \<Rightarrow> cmp_null string1 string2)"

text \<open>The number of chars left to compare is \<open>max - count\<close>.\<close>

fun string_strncasecmp_loop :: "cstr \<Rightarrow> cstr \<Rightarrow> nat \<Rightarrow> int" where
  "string_strncasecmp_loop s t 0 = 0"
| "string_strncasecmp_loop (a # s) (b # t) (Suc n) =
     (let diff = utf8_charcasecmp (Some (a # s)) (Some (b # t)) in
      if diff \<noteq> 0 then (if diff < 0 then - 1 else 1)
      else string_strncasecmp_loop (utf8_skip (a # s)) (utf8_skip (b # t)) n)"
| "string_strncasecmp_loop s t (Suc n) = (if s \<noteq> [] then 1 else if t \<noteq> [] then - 1 else 0)"

definition string_strncasecmp :: "cstr option \<Rightarrow> cstr option \<Rightarrow> int \<Rightarrow> int" where
  "string_strncasecmp string1 string2 maxn =
     (case (string1, string2) of
        (Some s, Some t) \<Rightarrow> string_strncasecmp_loop s t (nat maxn)
      | _ \<Rightarrow> cmp_null string1 string2)"

fun string_strncasecmp_range_loop :: "cstr \<Rightarrow> cstr \<Rightarrow> nat \<Rightarrow> nat \<Rightarrow> int" where
  "string_strncasecmp_range_loop s t 0 rng = 0"
| "string_strncasecmp_range_loop (a # s) (b # t) (Suc n) rng =
     (let diff = utf8_charcasecmp_range (Some (a # s)) (Some (b # t)) rng in
      if diff \<noteq> 0 then (if diff < 0 then - 1 else 1)
      else string_strncasecmp_range_loop (utf8_skip (a # s)) (utf8_skip (b # t)) n rng)"
| "string_strncasecmp_range_loop s t (Suc n) rng =
     (if s \<noteq> [] then 1 else if t \<noteq> [] then - 1 else 0)"

definition string_strncasecmp_range ::
  "cstr option \<Rightarrow> cstr option \<Rightarrow> int \<Rightarrow> nat \<Rightarrow> int" where
  "string_strncasecmp_range string1 string2 maxn rng =
     (case (string1, string2) of
        (Some s, Some t) \<Rightarrow> string_strncasecmp_range_loop s t (nat maxn) rng
      | _ \<Rightarrow> cmp_null string1 string2)"

text \<open>The inner loops that skip ignored chars.\<close>

fun skip_ignored :: "cstr \<Rightarrow> cstr \<Rightarrow> cstr" where
  "skip_ignored ignored [] = []"
| "skip_ignored ignored (c # s) =
     (if c \<in> set ignored then skip_ignored ignored (utf8_skip (c # s)) else c # s)"

lemma length_skip_ignored: "length (skip_ignored ignored s) \<le> length s"
proof (induction ignored s rule: skip_ignored.induct)
  case (2 ignored c s)
  then show ?case using length_utf8_skip_Cons [of c s] by auto
qed simp

lemma length_utf8_skip_le: "length (utf8_skip s) \<le> length s"
  by (simp add: utf8_skip_def)

text \<open>
  The chars are compared as \<open>char\<close>, that is signed, when the comparison is case sensitive.
\<close>

definition signed_byte :: "nat \<Rightarrow> int" where
  "signed_byte b = (if b < 128 then int b else int b - 256)"

function string_strcmp_ignore_chars_loop :: "cstr \<Rightarrow> cstr \<Rightarrow> cstr \<Rightarrow> bool \<Rightarrow> int" where
  "string_strcmp_ignore_chars_loop s t ignored case_sensitive =
     (if s \<noteq> [] \<and> t \<noteq> [] then
        (let s = skip_ignored ignored s; t = skip_ignored ignored t in
         if s = [] \<and> t = [] then 0
         else if s = [] then - 1
         else if t = [] then 1
         else let diff = (if case_sensitive then signed_byte (bat s 0) - signed_byte (bat t 0)
                          else utf8_charcasecmp (Some s) (Some t)) in
           if diff \<noteq> 0 then (if diff < 0 then - 1 else 1)
           else string_strcmp_ignore_chars_loop (skip_ignored ignored (utf8_skip s))
                  (skip_ignored ignored (utf8_skip t)) ignored case_sensitive)
      else if s = [] \<and> t \<noteq> [] then - 1
      else if s \<noteq> [] \<and> t = [] then 1
      else 0)"
  by pat_completeness auto
termination
proof (relation "measure (\<lambda>(s, _). length s)")
  fix s t ignored s' t' :: cstr and cs :: bool and d :: int
  assume "s \<noteq> [] \<and> t \<noteq> []" "s' = skip_ignored ignored s" "t' = skip_ignored ignored t"
    "\<not> (s' = [] \<and> t' = [])" "s' \<noteq> []"
  then have "length (skip_ignored ignored (utf8_skip s')) < length s"
    using length_utf8_skip [of s'] length_skip_ignored [of ignored s]
      length_skip_ignored [of ignored "utf8_skip s'"] by simp
  then show "((skip_ignored ignored (utf8_skip s'), skip_ignored ignored (utf8_skip t'), ignored, cs),
      (s, t, ignored, cs)) \<in> measure (\<lambda>(s, _). length s)" by simp
qed simp

declare string_strcmp_ignore_chars_loop.simps [simp del]

definition string_strcmp_ignore_chars ::
  "cstr option \<Rightarrow> cstr option \<Rightarrow> cstr \<Rightarrow> bool \<Rightarrow> int" where
  "string_strcmp_ignore_chars string1 string2 chars_ignored case_sensitive =
     (case (string1, string2) of
        (Some s, Some t) \<Rightarrow> string_strcmp_ignore_chars_loop s t chars_ignored case_sensitive
      | _ \<Rightarrow> cmp_null string1 string2)"

fun string_strcasestr_loop :: "cstr \<Rightarrow> cstr \<Rightarrow> nat \<Rightarrow> cstr option" where
  "string_strcasestr_loop [] search n = None"
| "string_strcasestr_loop (c # s) search n =
     (if string_strncasecmp (Some (c # s)) (Some search) (int n) = 0 then Some (c # s)
      else string_strcasestr_loop (utf8_skip (c # s)) search n)"

text \<open>The pointer returned is the suffix of the string where the match starts.\<close>

definition string_strcasestr :: "cstr option \<Rightarrow> cstr option \<Rightarrow> cstr option" where
  "string_strcasestr string search =
     (let length_search = utf8_strlen search in
      case (string, search) of
        (Some s, Some t) \<Rightarrow>
          if length_search = 0 then None else string_strcasestr_loop s t length_search
      | _ \<Rightarrow> None)"

text \<open>Only the first byte of a char is converted.\<close>

fun string_tolower :: "cstr \<Rightarrow> cstr" where
  "string_tolower [] = []"
| "string_tolower (c # s) =
     (let c' = (if byte (CHR ''A'') \<le> byte c \<and> byte c \<le> byte (CHR ''Z'')
                then chr (byte c + (byte (CHR ''a'') - byte (CHR ''A''))) else c)
      in c' # take (utf8_char_size (Some (c # s)) - 1) s @ string_tolower (utf8_skip (c # s)))"

fun string_toupper :: "cstr \<Rightarrow> cstr" where
  "string_toupper [] = []"
| "string_toupper (c # s) =
     (let c' = (if byte (CHR ''a'') \<le> byte c \<and> byte c \<le> byte (CHR ''z'')
                then chr (byte c - (byte (CHR ''a'') - byte (CHR ''A''))) else c)
      in c' # take (utf8_char_size (Some (c # s)) - 1) s @ string_toupper (utf8_skip (c # s)))"

subsection \<open>Comparison of folded chars\<close>

text \<open>The number of bytes that the lead byte of a char asks for.\<close>

definition lead_size :: "char \<Rightarrow> nat" where
  "lead_size c =
     (if 0xC0 \<le> byte c \<and> byte c < 0xE0 then 2
      else if 0xE0 \<le> byte c \<and> byte c < 0xF0 then 3
      else if 0xF0 \<le> byte c \<and> byte c < 0xF8 then 4 else 1)"

lemma utf8_char_size_lead:
  assumes "cstr_ok (c # s)"
  shows "utf8_char_size (Some (c # s)) = min (lead_size c) (Suc (length s))"
proof -
  have z: "bat (c # s) i = 0 \<longleftrightarrow> Suc (length s) \<le> i" for i
    using bat_0_iff [OF assms, of i] by simp
  define n where "n = length s"
  show ?thesis
    unfolding utf8_char_size_def utf8_next_char_def option.case z n_def [symmetric]
    by (auto simp: lead_size_def byte_simps min_def)
qed

lemma utf8_char_size_append:
  assumes "cstr_ok u" and "u \<noteq> []" and "cstr_ok v" and "utf8_char_size (Some u) = length u \<Longrightarrow> lead_size (hd u) \<le> length u \<or> v = []"
  shows "utf8_char_size (Some (take (utf8_char_size (Some u)) u @ v)) = utf8_char_size (Some u)"
proof -
  obtain c s where u: "u = c # s" using assms(2) by (cases u) auto
  define k where "k = utf8_char_size (Some u)"
  have k: "k = min (lead_size c) (Suc (length s))"
    using assms(1) by (simp add: k_def u utf8_char_size_lead)
  then obtain j where j: "k = Suc j" by (cases k) (auto simp: lead_size_def split: if_splits)
  have "cstr_ok (take k u @ v)" using assms(1,3) by (auto simp: cstr_ok_take)
  then have "utf8_char_size (Some (take k u @ v)) = min (lead_size c) (length (take k u @ v))"
    by (simp add: u j utf8_char_size_lead del: length_append)
  also have "\<dots> = k"
  proof (cases "lead_size c \<le> Suc (length s)")
    case True
    then show ?thesis using k u by simp
  next
    case False
    with k have "utf8_char_size (Some u) = length u" by (simp add: k_def u)
    with assms(4) False have "v = []" by (simp add: u)
    with False k show ?thesis by (simp add: u)
  qed
  finally show ?thesis by (simp add: k_def)
qed

text \<open>The wide char as a number of base 256.\<close>

lemma or_byte: "b < 256 \<Longrightarrow> push_bit 8 a OR b = 256 * a + (b::nat)"
  using or_disjoint [of b 8 a] by (simp add: push_bit_eq_mult mult.commute)

lemma utf8_wide_char_arith:
  assumes "u \<noteq> []"
  shows "utf8_wide_char (Some u) =
    (let k = utf8_char_size (Some u) in
     if k = 1 then wint_of_char (bat u 0)
     else if k = 2 then 256 * bat u 0 + bat u 1
     else if k = 3 then 256 * (256 * bat u 0 + bat u 1) + bat u 2
     else 256 * (256 * (256 * bat u 0 + bat u 1) + bat u 2) + bat u 3)"
proof -
  have three: "push_bit 16 a OR push_bit 8 b OR c = 256 * (256 * a + b) + c" if "b < 256" "c < 256" for a b c :: nat
  proof -
    have "push_bit 16 a OR push_bit 8 b = push_bit 8 (push_bit 8 a OR b)"
      by (simp add: push_bit_or push_bit_push_bit)
    then have "push_bit 16 a OR push_bit 8 b OR c = push_bit 8 (push_bit 8 a OR b) OR c"
      by (simp only: or.assoc [symmetric])
    then show ?thesis by (simp only: or_byte [OF that(1)] or_byte [OF that(2)])
  qed
  have four: "push_bit 24 a OR push_bit 16 b OR push_bit 8 c OR d = 256 * (256 * (256 * a + b) + c) + d"
    if "b < 256" "c < 256" "d < 256" for a b c d :: nat
  proof -
    have "push_bit 24 a OR push_bit 16 b OR push_bit 8 c = push_bit 8 (push_bit 16 a OR push_bit 8 b OR c)"
      by (simp add: push_bit_or push_bit_push_bit or.assoc)
    then have "push_bit 24 a OR push_bit 16 b OR push_bit 8 c OR d
        = push_bit 8 (push_bit 16 a OR push_bit 8 b OR c) OR d" by (simp only: or.assoc [symmetric])
    then show ?thesis by (simp only: or_byte [OF that(3)] three [OF that(1,2)])
  qed
  have "utf8_char_size (Some u) \<in> {1, 2, 3, 4}"
    using utf8_char_size_pos [of u] utf8_char_size_le_4 [of "Some u"] by auto
  then consider "utf8_char_size (Some u) = 1" | "utf8_char_size (Some u) = 2"
    | "utf8_char_size (Some u) = 3" | "utf8_char_size (Some u) = 4" by blast
  then show ?thesis
  proof cases
    case 3
    then show ?thesis using assms three [of "bat u 1" "bat u 2" "bat u 0"]
      by (simp only: utf8_wide_char_def Let_def option.case) simp
  next
    case 4
    then show ?thesis using assms four [of "bat u 1" "bat u 2" "bat u 3" "bat u 0"]
      by (simp only: utf8_wide_char_def Let_def option.case) simp
  qed (use assms in \<open>simp_all add: utf8_wide_char_def or_byte\<close>)
qed

definition wide_fold :: "nat \<Rightarrow> nat \<Rightarrow> nat" where
  "wide_fold rng w = (if 65 \<le> w \<and> w < 65 + rng then w + 32 else w)"

lemma wide_fold_0 [simp]: "wide_fold 0 w = w"
  by (simp add: wide_fold_def)

fun fold_keys :: "nat \<Rightarrow> cstr \<Rightarrow> nat list" where
  "fold_keys rng [] = []"
| "fold_keys rng (c # s) = wide_fold rng (utf8_wide_char (Some (c # s))) # fold_keys rng (utf8_skip (c # s))"

lemma utf8_charcasecmp_range_fold:
  "utf8_charcasecmp_range (Some s) (Some t) rng
    = list_cmp [wide_fold rng (utf8_wide_char (Some s))] [wide_fold rng (utf8_wide_char (Some t))]"
  by (simp add: utf8_charcasecmp_range_def wide_fold_def Let_def)

lemma utf8_charcasecmp_26: "utf8_charcasecmp a b = utf8_charcasecmp_range a b 26"
proof -
  have "w \<le> 90 \<longleftrightarrow> w < 91" for w :: nat by auto
  then show ?thesis
    by (cases a; cases b) (simp_all add: utf8_charcasecmp_def utf8_charcasecmp_range_def Let_def)
qed

lemma fold_keys_Nil_iff [simp]: "fold_keys rng s = [] \<longleftrightarrow> s = []"
  by (cases s) simp_all

lemma string_strcasecmp_range_loop_keys:
  "string_strcasecmp_range_loop s t rng = list_cmp (fold_keys rng s) (fold_keys rng t)"
  by (induction s t rng rule: string_strcasecmp_range_loop.induct)
    (simp_all add: utf8_charcasecmp_range_fold Let_def)

lemma string_strcasecmp_loop_26: "string_strcasecmp_loop s t = string_strcasecmp_range_loop s t 26"
proof (induction s t rule: string_strcasecmp_loop.induct)
  case (1 a s b t)
  then show ?case by (auto simp: utf8_charcasecmp_26 Let_def)
qed auto

lemma string_strncasecmp_range_loop_keys:
  "string_strncasecmp_range_loop s t n rng = list_cmp (take n (fold_keys rng s)) (take n (fold_keys rng t))"
  by (induction s t n rng rule: string_strncasecmp_range_loop.induct)
    (simp_all add: utf8_charcasecmp_range_fold Let_def)

lemma string_strncasecmp_loop_26: "string_strncasecmp_loop s t n = string_strncasecmp_range_loop s t n 26"
proof (induction s t n rule: string_strncasecmp_loop.induct)
  case (2 a s b t n)
  then show ?case by (auto simp: utf8_charcasecmp_26 Let_def)
qed auto


lemma take_eq_bat:
  assumes "k \<le> length u" "k \<le> length v" "\<And>i. i < k \<Longrightarrow> bat u i = bat v i"
  shows "take k u = take k v"
proof (rule nth_equalityI)
  fix i assume "i < length (take k u)"
  then show "take k u ! i = take k v ! i"
    using assms(1,2) assms(3) [of i] by (simp add: bat_def)
qed (use assms in simp)

lemma digit_256: "b < 256 \<Longrightarrow> d < 256 \<Longrightarrow> 256 * a + b = 256 * c + (d::nat) \<longleftrightarrow> a = c \<and> b = d"
proof
  assume "b < 256" "d < 256" "256 * a + b = 256 * c + d"
  moreover from this have "a = c" by linarith
  ultimately show "a = c \<and> b = d" by simp
qed simp

lemma lead_of_size:
  "utf8_char_size (Some u) \<noteq> 1 \<Longrightarrow> 192 \<le> bat u 0 \<and> bat u 0 < 248"
  by (auto simp: utf8_char_size_def utf8_next_char_def byte_simps split: if_splits)

lemma char_sizes:
  obtains (1) "utf8_char_size (Some u) = 1" | (2) "utf8_char_size (Some u) = 2"
    | (3) "utf8_char_size (Some u) = 3" | (4) "utf8_char_size (Some u) = 4" | (Nil) "u = []"
  using utf8_char_size_pos [of u] utf8_char_size_le_4 [of "Some u"] by linarith

lemma wide_value:
  assumes "u \<noteq> []"
  shows "utf8_char_size (Some u) = 1 \<Longrightarrow> utf8_wide_char (Some u) = wint_of_char (bat u 0)"
    and "utf8_char_size (Some u) = 2 \<Longrightarrow> utf8_wide_char (Some u) = 256 * bat u 0 + bat u 1"
    and "utf8_char_size (Some u) = 3 \<Longrightarrow> utf8_wide_char (Some u) = 256 * (256 * bat u 0 + bat u 1) + bat u 2"
    and "utf8_char_size (Some u) = 4
      \<Longrightarrow> utf8_wide_char (Some u) = 256 * (256 * (256 * bat u 0 + bat u 1) + bat u 2) + bat u 3"
  using assms by (simp_all add: utf8_wide_char_arith)

lemma wide_interval:
  assumes "u \<noteq> []"
  shows "utf8_char_size (Some u) = 1 \<Longrightarrow> utf8_wide_char (Some u) < 128 \<or> 0xFFFFFF80 \<le> utf8_wide_char (Some u)"
    and "utf8_char_size (Some u) = 2 \<Longrightarrow> 49152 \<le> utf8_wide_char (Some u) \<and> utf8_wide_char (Some u) < 65536"
    and "utf8_char_size (Some u) = 3
      \<Longrightarrow> 12582912 \<le> utf8_wide_char (Some u) \<and> utf8_wide_char (Some u) < 16777216"
    and "utf8_char_size (Some u) = 4
      \<Longrightarrow> 3221225472 \<le> utf8_wide_char (Some u) \<and> utf8_wide_char (Some u) < 0xFFFFFF80"
proof -
  have b: "bat u 1 < 256" "bat u 2 < 256" "bat u 3 < 256" by (rule bat_less)+
  show "utf8_char_size (Some u) = 1 \<Longrightarrow> utf8_wide_char (Some u) < 128 \<or> 0xFFFFFF80 \<le> utf8_wide_char (Some u)"
    using assms by (auto simp: wide_value wint_of_char_def)
  show "49152 \<le> utf8_wide_char (Some u) \<and> utf8_wide_char (Some u) < 65536" if "utf8_char_size (Some u) = 2"
    unfolding wide_value(2) [OF assms that] using b lead_of_size [of u] that by (simp del: bat_less)
  show "12582912 \<le> utf8_wide_char (Some u) \<and> utf8_wide_char (Some u) < 16777216"
    if "utf8_char_size (Some u) = 3"
    unfolding wide_value(3) [OF assms that] using b lead_of_size [of u] that by (simp del: bat_less)
  show "3221225472 \<le> utf8_wide_char (Some u) \<and> utf8_wide_char (Some u) < 0xFFFFFF80"
    if "utf8_char_size (Some u) = 4"
    unfolding wide_value(4) [OF assms that] using b lead_of_size [of u] that by (simp del: bat_less)
qed

lemma wide_size:
  assumes "u \<noteq> []" "v \<noteq> []" "utf8_wide_char (Some u) = utf8_wide_char (Some v)"
  shows "utf8_char_size (Some u) = utf8_char_size (Some v)"
proof -
  note I = wide_interval [OF assms(2), folded assms(3)]
  show ?thesis
  proof (cases u rule: char_sizes)
    case 1
    note J = wide_interval(1) [OF assms(1) 1]
    show ?thesis using 1 J I by (cases v rule: char_sizes) (use assms(2) in linarith)+
  next
    case 2
    note J = wide_interval(2) [OF assms(1) 2]
    show ?thesis using 2 J I by (cases v rule: char_sizes) (use assms(2) in linarith)+
  next
    case 3
    note J = wide_interval(3) [OF assms(1) 3]
    show ?thesis using 3 J I by (cases v rule: char_sizes) (use assms(2) in linarith)+
  next
    case 4
    note J = wide_interval(4) [OF assms(1) 4]
    show ?thesis using 4 J I by (cases v rule: char_sizes) (use assms(2) in linarith)+
  qed (use assms(1) in simp)
qed

lemma wide_inj:
  assumes "u \<noteq> []" "v \<noteq> []" "utf8_wide_char (Some u) = utf8_wide_char (Some v)"
  shows "take (utf8_char_size (Some u)) u = take (utf8_char_size (Some u)) v"
proof -
  let ?k = "utf8_char_size (Some u)"
  note sz = wide_size [OF assms]
  note U = wide_value [OF assms(1)] and V = wide_value [OF assms(2), folded sz assms(3)]
  have w1: "wint_of_char a = wint_of_char b \<Longrightarrow> a < 256 \<Longrightarrow> b < 256 \<Longrightarrow> a = b" for a b
    by (auto simp: wint_of_char_def split: if_splits)
  have i2: "i < 2 \<longleftrightarrow> i = 0 \<or> i = 1" and i3: "i < 3 \<longleftrightarrow> i = 0 \<or> i = 1 \<or> i = 2"
    and i4: "i < 4 \<longleftrightarrow> i = 0 \<or> i = 1 \<or> i = 2 \<or> i = 3" for i :: nat by linarith+
  have "\<forall>i < ?k. bat u i = bat v i"
  proof (cases u rule: char_sizes)
    case 1
    then show ?thesis using U(1) V(1) w1 [of "bat u 0" "bat v 0"] by simp
  next
    case 2
    have "bat u 0 = bat v 0 \<and> bat u 1 = bat v 1"
      using U(2) [OF 2] V(2) [OF 2] by (simp only: digit_256 bat_less)
    then show ?thesis unfolding 2 i2 by blast
  next
    case 3
    have "(bat u 0 = bat v 0 \<and> bat u 1 = bat v 1) \<and> bat u 2 = bat v 2"
      using U(3) [OF 3] V(3) [OF 3] by (simp only: digit_256 bat_less)
    then show ?thesis unfolding 3 i3 by blast
  next
    case 4
    have "((bat u 0 = bat v 0 \<and> bat u 1 = bat v 1) \<and> bat u 2 = bat v 2) \<and> bat u 3 = bat v 3"
      using U(4) [OF 4] V(4) [OF 4] by (simp only: digit_256 bat_less)
    then show ?thesis unfolding 4 i4 by blast
  qed (use assms(1) in simp)
  then show ?thesis
    by (intro take_eq_bat) (use assms sz utf8_char_size_le_length [of u] utf8_char_size_le_length [of v] in simp_all)
qed

lemma wide_cong:
  assumes "u \<noteq> []" "v \<noteq> []" "utf8_char_size (Some u) = utf8_char_size (Some v)"
    and "\<And>i. i < utf8_char_size (Some u) \<Longrightarrow> bat u i = bat v i"
  shows "utf8_wide_char (Some u) = utf8_wide_char (Some v)"
proof -
  have "utf8_char_size (Some u) \<in> {1, 2, 3, 4}"
    using utf8_char_size_pos [of u] utf8_char_size_le_4 [of "Some u"] by auto
  then show ?thesis
    using assms(4) [of 0] assms(4) [of 1] assms(4) [of 2] assms(4) [of 3] assms(1-3)
    by (auto simp: utf8_wide_char_arith)
qed

lemma fold_keys_0_inj: "fold_keys 0 s = fold_keys 0 t \<Longrightarrow> s = t"
proof (induction "length s" arbitrary: s t rule: less_induct)
  case less
  show ?case
  proof (cases s)
    case Cons_nil: Nil
    with less.prems have "fold_keys 0 t = []" by simp
    with Cons_nil show ?thesis by simp
  next
    case (Cons c s')
    with less.prems obtain d t' where t: "t = d # t'" by (cases t) auto
    from less.prems Cons t have w: "utf8_wide_char (Some s) = utf8_wide_char (Some t)"
      and k: "fold_keys 0 (utf8_skip s) = fold_keys 0 (utf8_skip t)" by simp_all
    have "utf8_skip s = utf8_skip t"
      using less.hyps [OF _ k] length_utf8_skip [of s] Cons by simp
    moreover have "take (utf8_char_size (Some s)) s = take (utf8_char_size (Some t)) t"
      using wide_inj [OF _ _ w] wide_size [OF _ _ w] Cons t by simp
    ultimately show ?thesis
      by (metis append_take_drop_id utf8_skip_def)
  qed
qed

lemma cstr_ok_skip: "cstr_ok s \<Longrightarrow> cstr_ok (utf8_skip s)"
  by (auto simp: utf8_skip_def)

lemma cstr_ok_tolower: "cstr_ok s \<Longrightarrow> cstr_ok (string_tolower s)"
proof (induction s rule: string_tolower.induct)
  case (2 c s)
  then show ?case
    using cstr_ok_skip [of "c # s"] by (auto simp: Let_def chr_eq_NUL cstr_ok_take)
qed simp

lemma fold_keys_tolower: "cstr_ok s \<Longrightarrow> fold_keys 26 s = fold_keys 0 (string_tolower s)"
proof (induction s rule: string_tolower.induct)
  case (2 c s)
  let ?u = "c # s" and ?v = "string_tolower (utf8_skip (c # s))"
  let ?k = "utf8_char_size (Some ?u)"
  from 2 have IH: "fold_keys 26 (utf8_skip ?u) = fold_keys 0 ?v" and ok: "cstr_ok ?v"
    using cstr_ok_skip [of ?u] cstr_ok_tolower by simp_all
  show ?case
  proof (cases "65 \<le> byte c \<and> byte c \<le> 90")
    case True
    let ?c = "chr (byte c + 32)"
    have "lead_size c = 1" using True by (simp add: lead_size_def)
    then have k: "?k = 1" using utf8_char_size_lead [OF 2(2)] by simp
    have k': "utf8_char_size (Some (?c # ?v)) = 1"
      using True by (simp add: utf8_char_size_def utf8_next_char_def byte_simps)
    have "string_tolower ?u = ?c # ?v"
      using True k by (simp add: Let_def)
    then show ?thesis
      using True k k' IH
      by (simp add: utf8_wide_char_def wint_of_char_def wide_fold_def utf8_skip_def)
  next
    case False
    have "Suc (?k - 1) = ?k" using utf8_char_size_pos [of ?u] by simp
    then have low: "string_tolower ?u = take ?k ?u @ ?v"
      using False by (cases ?k) (auto simp: Let_def)
    have k': "utf8_char_size (Some (take ?k ?u @ ?v)) = ?k"
      by (rule utf8_char_size_append [OF 2(2) _ ok]) (simp_all add: utf8_skip_def)
    have len: "?k \<le> length ?u" using utf8_char_size_le_length [of ?u] by simp
    have ne: "take ?k ?u \<noteq> []" using utf8_char_size_pos [of ?u] by simp
    have w: "utf8_wide_char (Some (take ?k ?u @ ?v)) = utf8_wide_char (Some ?u)"
      by (rule wide_cong) (use k' ne len in \<open>auto simp: bat_def nth_append simp del: take_eq_Nil\<close>)
    have sk: "utf8_skip (take ?k ?u @ ?v) = ?v"
      using len by (subst utf8_skip_def) (simp add: k')
    obtain d r where dr: "take ?k ?u @ ?v = d # r" using ne by (cases "take ?k ?u") auto
    have nu: "\<not> (65 \<le> utf8_wide_char (Some ?u) \<and> utf8_wide_char (Some ?u) < 91)"
    proof
      assume "65 \<le> utf8_wide_char (Some ?u) \<and> utf8_wide_char (Some ?u) < 91"
      moreover from this wide_interval [of ?u] have "?k = 1"
        by (cases ?u rule: char_sizes) simp_all
      ultimately have "wint_of_char (byte c) < 91 \<and> 65 \<le> wint_of_char (byte c)" by (simp add: utf8_wide_char_def)
      with False show False by (auto simp: wint_of_char_def split: if_splits)
    qed
    show ?thesis
      unfolding low using w sk IH nu unfolding dr by (simp add: wide_fold_def)
  qed
qed simp

text \<open>
  Claim C9.  Two strings are equal for \<open>string_strcasecmp\<close> exactly when \<open>string_tolower\<close> makes
  them the same string, whatever bytes they hold, valid UTF-8 or not: the char by char comparison
  of wide chars neither confuses two different chars nor separates two that the conversion
  identifies.
\<close>

theorem string_strcasecmp_tolower:
  assumes "cstr_ok s" "cstr_ok t"
  shows "string_strcasecmp (Some s) (Some t) = 0 \<longleftrightarrow> string_tolower s = string_tolower t"
proof -
  have "string_strcasecmp (Some s) (Some t) = list_cmp (fold_keys 26 s) (fold_keys 26 t)"
    by (simp add: string_strcasecmp_def string_strcasecmp_loop_26 string_strcasecmp_range_loop_keys)
  then show ?thesis
    using fold_keys_0_inj by (auto simp: list_cmp_0 fold_keys_tolower assms)
qed

theorem string_strcasecmp_tolower_witness:
  "string_strcasecmp (Some ''#WeeChat'') (Some ''#weechaT'') = 0 \<longleftrightarrow>
     string_tolower ''#WeeChat'' = string_tolower ''#weechaT''"
  by (rule string_strcasecmp_tolower) simp_all

lemma string_strcasecmp_range_26: "string_strcasecmp a b = string_strcasecmp_range a b 26"
  by (simp add: string_strcasecmp_def string_strcasecmp_range_def string_strcasecmp_loop_26 split: option.split)

text \<open>The comparisons fulfil the contract of the containers.\<close>

interpretation strcasecmp: cmp_order "\<lambda>s t. string_strcasecmp (Some s) (Some t)"
  unfolding string_strcasecmp_def string_strcasecmp_loop_26 string_strcasecmp_range_loop_keys option.case prod.case
  by (rule cmp_order_key)

interpretation strcasecmp_range: cmp_order "\<lambda>s t. string_strcasecmp_range (Some s) (Some t) rng" for rng
  unfolding string_strcasecmp_range_def string_strcasecmp_range_loop_keys option.case prod.case
  by (rule cmp_order_key)


subsection \<open>Search\<close>

text \<open>The search visits the suffixes of the string that start at a char.\<close>

lemma string_strcasestr_loop_None:
  "string_strcasestr_loop s t n = None \<longleftrightarrow>
     (\<forall>k. (utf8_skip ^^ k) s \<noteq> [] \<longrightarrow> string_strncasecmp (Some ((utf8_skip ^^ k) s)) (Some t) (int n) \<noteq> 0)"
proof (induction s t n rule: string_strcasestr_loop.induct)
  case (1 search n)
  have "(utf8_skip ^^ k) [] = []" for k by (induction k) (simp_all add: utf8_skip_def)
  then show ?case by simp
next
  case (2 c s search n)
  have sk: "(utf8_skip ^^ k) (c # s) = (case k of 0 \<Rightarrow> c # s | Suc j \<Rightarrow> (utf8_skip ^^ j) (utf8_skip (c # s)))" for k
    by (cases k) (simp_all add: funpow_swap1)
  show ?case
  proof (cases "string_strncasecmp (Some (c # s)) (Some search) (int n) = 0")
    case True
    then show ?thesis by (auto intro!: exI [of _ 0])
  next
    case False
    then have "string_strcasestr_loop (c # s) search n = None \<longleftrightarrow>
        (\<forall>j. (utf8_skip ^^ j) (utf8_skip (c # s)) \<noteq> [] \<longrightarrow>
          string_strncasecmp (Some ((utf8_skip ^^ j) (utf8_skip (c # s)))) (Some search) (int n) \<noteq> 0)"
      using 2 by simp
    then show ?thesis using False
      by (auto simp: sk split: nat.split)
  qed
qed


subsection \<open>ASCII strings\<close>

definition ascii :: "cstr \<Rightarrow> bool" where
  "ascii s \<longleftrightarrow> (\<forall>c\<in>set s. 0 < byte c \<and> byte c < 128)"

definition lower :: "char \<Rightarrow> char" where
  "lower c = (if 65 \<le> byte c \<and> byte c \<le> 90 then chr (byte c + 32) else c)"

lemma ascii_simps [simp]:
  "ascii []" "ascii (c # s) \<longleftrightarrow> 0 < byte c \<and> byte c < 128 \<and> ascii s"
  by (auto simp: ascii_def)

lemma ascii_drop [simp]: "ascii s \<Longrightarrow> ascii (drop n s)"
  by (auto simp: ascii_def dest: in_set_dropD)

lemma utf8_char_size_ascii: "byte c < 128 \<Longrightarrow> utf8_char_size (Some (c # s)) = 1"
  by (simp add: utf8_char_size_def utf8_next_char_def byte_simps)

lemma utf8_skip_ascii: "byte c < 128 \<Longrightarrow> utf8_skip (c # s) = s"
  by (simp add: utf8_skip_def utf8_char_size_ascii)

lemma tolower_ascii: "ascii s \<Longrightarrow> string_tolower s = map lower s"
  by (induction s) (auto simp: utf8_skip_ascii utf8_char_size_ascii lower_def Let_def)

lemma byte_lower: "byte (lower c) = (if 65 \<le> byte c \<and> byte c \<le> 90 then byte c + 32 else byte c)"
  by (simp add: lower_def)

lemma fold_keys_ascii: "ascii s \<Longrightarrow> fold_keys 26 s = map (\<lambda>c. byte (lower c)) s"
  by (induction s)
    (auto simp: utf8_skip_ascii utf8_char_size_ascii utf8_wide_char_def wint_of_char_def wide_fold_def byte_lower)

lemma utf8_strlen_ascii: "ascii s \<Longrightarrow> utf8_strlen_loop s = length s"
  by (induction s) (auto simp: utf8_skip_ascii)

lemma strncasecmp_ascii:
  assumes "ascii p" "ascii w"
  shows "string_strncasecmp (Some p) (Some w) (int (length w)) = 0 \<longleftrightarrow>
    take (length w) (map lower p) = map lower w"
proof -
  have "string_strncasecmp (Some p) (Some w) (int (length w)) = 0 \<longleftrightarrow>
      map byte (take (length w) (map lower p)) = map byte (map lower w)"
    using assms
    by (simp add: string_strncasecmp_def string_strncasecmp_loop_26 string_strncasecmp_range_loop_keys
        fold_keys_ascii list_cmp_0 take_map comp_def)
  then show ?thesis by (simp only: inj_map_eq_map [OF inj_of_char])
qed

lemma strcasecmp_ascii:
  assumes "ascii s" "ascii t"
  shows "string_strcasecmp (Some s) (Some t) = 0 \<longleftrightarrow> map lower s = map lower t"
proof -
  have "string_strcasecmp (Some s) (Some t) = 0 \<longleftrightarrow> map byte (map lower s) = map byte (map lower t)"
    using assms by (simp add: string_strcasecmp_def string_strcasecmp_loop_26
        string_strcasecmp_range_loop_keys fold_keys_ascii list_cmp_0 comp_def)
  then show ?thesis by (simp only: inj_map_eq_map [OF inj_of_char])
qed

text \<open>Comparison of literals by simplification.\<close>

lemmas strcasecmp_literal = strcasecmp_ascii lower_def

end
