(* ===== verification/Weelist.thy ===== *)
theory Weelist
  imports Linked_List String_Compare
begin

text \<open>
  The sorted lists of strings, \<open>src/core/wee-list.c\<close>, at the level of their pointers.  The
  state of a list holds the memory of its items; an operation returns \<open>None\<close> when it would read
  an invalid pointer or walk for ever, which the theorems exclude.  The refinement shows that the
  pointers represent a list of strings with their user data.
\<close>

subsection \<open>The data and the operations\<close>

type_synonym weelist_data = "cstr \<times> nat"

record weelist =
  wl_heap :: "weelist_data heap"
  wl_items :: "nat option"
  wl_last_item :: "nat option"
  wl_size :: int

abbreviation data_of :: "weelist_data item \<Rightarrow> cstr" where
  "data_of it \<equiv> fst (payload it)"

definition weelist_new :: weelist where
  "weelist_new = \<lparr>wl_heap = (\<lambda>_. None), wl_items = None, wl_last_item = None, wl_size = 0\<rparr>"

partial_function (option) weelist_find_pos_loop ::
  "weelist_data heap \<Rightarrow> nat option \<Rightarrow> cstr \<Rightarrow> nat option option" where
  "weelist_find_pos_loop h ptr_item data =
     (case ptr_item of
        None \<Rightarrow> Some None
      | Some a \<Rightarrow> do {
          it \<leftarrow> h a;
          if string_strcasecmp (Some data) (Some (data_of it)) < 0 then Some (Some a)
          else weelist_find_pos_loop h (next_item it) data })"

definition weelist_find_pos :: "weelist \<Rightarrow> cstr option \<Rightarrow> nat option option" where
  "weelist_find_pos w data =
     (case data of None \<Rightarrow> Some None | Some d \<Rightarrow> weelist_find_pos_loop (wl_heap w) (wl_items w) d)"

partial_function (option) weelist_search_loop ::
  "weelist_data heap \<Rightarrow> nat option \<Rightarrow> cstr \<Rightarrow> nat option option" where
  "weelist_search_loop h ptr_item data =
     (case ptr_item of
        None \<Rightarrow> Some None
      | Some a \<Rightarrow> do {
          it \<leftarrow> h a;
          if strcmp data (data_of it) = 0 then Some (Some a)
          else weelist_search_loop h (next_item it) data })"

definition weelist_search :: "weelist \<Rightarrow> cstr option \<Rightarrow> nat option option" where
  "weelist_search w data =
     (case data of None \<Rightarrow> Some None | Some d \<Rightarrow> weelist_search_loop (wl_heap w) (wl_items w) d)"

partial_function (option) weelist_search_pos_loop ::
  "weelist_data heap \<Rightarrow> nat option \<Rightarrow> cstr \<Rightarrow> int \<Rightarrow> int option" where
  "weelist_search_pos_loop h ptr_item data i =
     (case ptr_item of
        None \<Rightarrow> Some (- 1)
      | Some a \<Rightarrow> do {
          it \<leftarrow> h a;
          if strcmp data (data_of it) = 0 then Some i
          else weelist_search_pos_loop h (next_item it) data (i + 1) })"

definition weelist_search_pos :: "weelist \<Rightarrow> cstr option \<Rightarrow> int option" where
  "weelist_search_pos w data =
     (case data of None \<Rightarrow> Some (- 1) | Some d \<Rightarrow> weelist_search_pos_loop (wl_heap w) (wl_items w) d 0)"

partial_function (option) weelist_casesearch_loop ::
  "weelist_data heap \<Rightarrow> nat option \<Rightarrow> cstr \<Rightarrow> nat option option" where
  "weelist_casesearch_loop h ptr_item data =
     (case ptr_item of
        None \<Rightarrow> Some None
      | Some a \<Rightarrow> do {
          it \<leftarrow> h a;
          if string_strcasecmp (Some data) (Some (data_of it)) = 0 then Some (Some a)
          else weelist_casesearch_loop h (next_item it) data })"

definition weelist_casesearch :: "weelist \<Rightarrow> cstr option \<Rightarrow> nat option option" where
  "weelist_casesearch w data =
     (case data of None \<Rightarrow> Some None | Some d \<Rightarrow> weelist_casesearch_loop (wl_heap w) (wl_items w) d)"

partial_function (option) weelist_casesearch_pos_loop ::
  "weelist_data heap \<Rightarrow> nat option \<Rightarrow> cstr \<Rightarrow> int \<Rightarrow> int option" where
  "weelist_casesearch_pos_loop h ptr_item data i =
     (case ptr_item of
        None \<Rightarrow> Some (- 1)
      | Some a \<Rightarrow> do {
          it \<leftarrow> h a;
          if string_strcasecmp (Some data) (Some (data_of it)) = 0 then Some i
          else weelist_casesearch_pos_loop h (next_item it) data (i + 1) })"

definition weelist_casesearch_pos :: "weelist \<Rightarrow> cstr option \<Rightarrow> int option" where
  "weelist_casesearch_pos w data =
     (case data of
        None \<Rightarrow> Some (- 1)
      | Some d \<Rightarrow> weelist_casesearch_pos_loop (wl_heap w) (wl_items w) d 0)"

partial_function (option) weelist_get_loop ::
  "weelist_data heap \<Rightarrow> nat option \<Rightarrow> int \<Rightarrow> int \<Rightarrow> nat option option" where
  "weelist_get_loop h ptr_item i position =
     (case ptr_item of
        None \<Rightarrow> Some None
      | Some a \<Rightarrow>
          if i = position then Some (Some a)
          else do { it \<leftarrow> h a; weelist_get_loop h (next_item it) (i + 1) position })"

definition weelist_get :: "weelist \<Rightarrow> int \<Rightarrow> nat option option" where
  "weelist_get w position = weelist_get_loop (wl_heap w) (wl_items w) 0 position"

text \<open>The item is removed from the memory at the end, where the code frees it.\<close>

definition weelist_remove :: "weelist \<Rightarrow> nat option \<Rightarrow> weelist option" where
  "weelist_remove w item =
     (case item of
        None \<Rightarrow> Some w
      | Some a \<Rightarrow> do {
          it \<leftarrow> wl_heap w a;
          let last_item = (if wl_last_item w = Some a then prev_item it else wl_last_item w);
          let new_items = (if prev_item it \<noteq> None then wl_items w else next_item it);
          h \<leftarrow> set_next_if (prev_item it) (next_item it) (wl_heap w);
          h \<leftarrow> set_prev_if (next_item it) (prev_item it) h;
          Some (w\<lparr>wl_heap := h(a := None), wl_items := new_items, wl_last_item := last_item,
                  wl_size := wl_size w - 1\<rparr>) })"

text \<open>The two halves of the insertion: an item with the same data is removed, the new one is linked.\<close>

definition weelist_insert_remove :: "weelist \<Rightarrow> cstr \<Rightarrow> weelist option" where
  "weelist_insert_remove w data =
     (if wl_items w \<noteq> None then do {
        pos_item \<leftarrow> weelist_search w (Some data);
        if pos_item \<noteq> None then weelist_remove w pos_item else Some w }
      else Some w)"

definition weelist_insert_link :: "weelist \<Rightarrow> nat \<Rightarrow> cstr \<Rightarrow> cstr \<Rightarrow> weelist option" where
  "weelist_insert_link w item data where_pos =
     (if wl_items w \<noteq> None then do {
        pos_item \<leftarrow>
          (if string_strcasecmp (Some where_pos) (Some ''beginning'') = 0 then Some (wl_items w)
           else if string_strcasecmp (Some where_pos) (Some ''end'') = 0 then Some None
           else weelist_find_pos w (Some data));
        case pos_item of
          Some q \<Rightarrow> do {
            pos \<leftarrow> wl_heap w q;
            h \<leftarrow> set_prev item (prev_item pos) (wl_heap w);
            h \<leftarrow> set_next item (Some q) h;
            h \<leftarrow> set_next_if (prev_item pos) (Some item) h;
            let items = (if prev_item pos \<noteq> None then wl_items w else Some item);
            h \<leftarrow> set_prev q (Some item) h;
            Some (w\<lparr>wl_heap := h, wl_items := items\<rparr>) }
        | None \<Rightarrow> do {
            h \<leftarrow> set_prev item (wl_last_item w) (wl_heap w);
            h \<leftarrow> set_next item None h;
            last_item \<leftarrow> wl_last_item w;
            h \<leftarrow> set_next last_item (Some item) h;
            Some (w\<lparr>wl_heap := h, wl_last_item := Some item\<rparr>) } }
      else do {
        h \<leftarrow> set_prev item None (wl_heap w);
        h \<leftarrow> set_next item None h;
        Some (w\<lparr>wl_heap := h, wl_items := Some item, wl_last_item := Some item\<rparr>) })"

definition weelist_insert :: "weelist \<Rightarrow> nat \<Rightarrow> cstr \<Rightarrow> weelist option" where
  "weelist_insert w item where_pos = do {
     it \<leftarrow> wl_heap w item;
     w \<leftarrow> weelist_insert_remove w (data_of it);
     weelist_insert_link w item (data_of it) where_pos }"

text \<open>The address \<open>new_item\<close> is the one that \<open>malloc\<close> returns.\<close>

definition weelist_add ::
  "weelist \<Rightarrow> nat \<Rightarrow> cstr option \<Rightarrow> cstr option \<Rightarrow> nat \<Rightarrow> (weelist \<times> nat option) option" where
  "weelist_add w new_item data where_pos user_data =
     (case (data, where_pos) of
        (Some d, Some p) \<Rightarrow>
          if d = [] \<or> p = [] then Some (w, None)
          else do {
            w \<leftarrow> weelist_insert (w\<lparr>wl_heap := (wl_heap w)(new_item \<mapsto>
                   \<lparr>payload = (d, user_data), prev_item = None, next_item = None\<rparr>)\<rparr>) new_item p;
            Some (w\<lparr>wl_size := wl_size w + 1\<rparr>, Some new_item) }
      | _ \<Rightarrow> Some (w, None))"

definition weelist_set :: "weelist \<Rightarrow> nat option \<Rightarrow> cstr option \<Rightarrow> weelist option" where
  "weelist_set w item val =
     (case (item, val) of
        (Some a, Some v) \<Rightarrow> do {
          it \<leftarrow> wl_heap w a;
          Some (w\<lparr>wl_heap := (wl_heap w)(a \<mapsto> it\<lparr>payload := (v, snd (payload it))\<rparr>)\<rparr>) }
      | _ \<Rightarrow> Some w)"

definition weelist_next :: "weelist \<Rightarrow> nat option \<Rightarrow> nat option option" where
  "weelist_next w item =
     (case item of None \<Rightarrow> Some None | Some a \<Rightarrow> map_option next_item (wl_heap w a))"

definition weelist_prev :: "weelist \<Rightarrow> nat option \<Rightarrow> nat option option" where
  "weelist_prev w item =
     (case item of None \<Rightarrow> Some None | Some a \<Rightarrow> map_option prev_item (wl_heap w a))"

definition weelist_string :: "weelist \<Rightarrow> nat option \<Rightarrow> cstr option option" where
  "weelist_string w item =
     (case item of None \<Rightarrow> Some None | Some a \<Rightarrow> map_option (\<lambda>it. Some (data_of it)) (wl_heap w a))"

definition weelist_size :: "weelist \<Rightarrow> int" where
  "weelist_size w = wl_size w"

partial_function (option) weelist_remove_all :: "weelist \<Rightarrow> weelist option" where
  "weelist_remove_all w =
     (if wl_items w = None then Some w
      else do { w \<leftarrow> weelist_remove w (wl_items w); weelist_remove_all w })"

subsection \<open>The list that the pointers represent\<close>

definition weelist_repr :: "weelist \<Rightarrow> nat list \<Rightarrow> weelist_data list \<Rightarrow> bool" where
  "weelist_repr w addrs xs \<longleftrightarrow>
     dlist (wl_heap w) (wl_items w) (wl_last_item w) addrs \<and> payloads (wl_heap w) addrs = xs \<and>
     dom (wl_heap w) = set addrs \<and> wl_size w = int (length xs)"

lemma weelist_repr_new: "weelist_repr weelist_new [] []"
  by (simp add: weelist_repr_def weelist_new_def dlist_def)

text \<open>Walks from an address visit the addresses of the segment in order.\<close>

lemma find_pos_loop_seg:
  assumes "seg h p ys None"
  shows "weelist_find_pos_loop h (first_or ys None) d =
    Some (first_or (dropWhile (\<lambda>a. 0 \<le> string_strcasecmp (Some d) (Some (fst (payload (the (h a)))))) ys) None)"
  using assms
  by (induction ys arbitrary: p) (subst weelist_find_pos_loop.simps, fastforce)+

lemma search_loop_seg:
  assumes "seg h p ys None"
  shows "weelist_search_loop h (first_or ys None) d =
    Some (first_or (dropWhile (\<lambda>a. fst (payload (the (h a))) \<noteq> d) ys) None)"
  using assms
  by (induction ys arbitrary: p) (subst weelist_search_loop.simps, fastforce)+

lemma casesearch_loop_seg:
  assumes "seg h p ys None"
  shows "weelist_casesearch_loop h (first_or ys None) d =
    Some (first_or (dropWhile (\<lambda>a. string_strcasecmp (Some d) (Some (fst (payload (the (h a))))) \<noteq> 0) ys) None)"
  using assms
  by (induction ys arbitrary: p) (subst weelist_casesearch_loop.simps, fastforce)+

lemma search_pos_loop_seg:
  assumes "seg h p ys None"
  shows "weelist_search_pos_loop h (first_or ys None) d i =
    Some (if d \<in> fst ` set (payloads h ys)
          then i + int (length (takeWhile (\<lambda>x. fst x \<noteq> d) (payloads h ys))) else - 1)"
  using assms
proof (induction ys arbitrary: p i)
  case Nil
  then show ?case by (subst weelist_search_pos_loop.simps) simp
next
  case (Cons a ys)
  from Cons.prems obtain it where it: "h a = Some it" "next_item it = first_or ys None"
    and s: "seg h (Some a) ys None" by auto
  show ?case
    by (subst weelist_search_pos_loop.simps) (auto simp: it Cons.IH [OF s])
qed

lemma get_loop_seg:
  assumes "seg h p ys None" "i \<le> k"
  shows "weelist_get_loop h (first_or ys None) i k =
    Some (if nat (k - i) < length ys then Some (ys ! nat (k - i)) else None)"
  using assms
proof (induction ys arbitrary: p i)
  case Nil
  then show ?case by (subst weelist_get_loop.simps) simp
next
  case (Cons a ys)
  show ?case
  proof (cases "i = k")
    case False
    then have "nat (k - i) = Suc (nat (k - (i + 1)))" using Cons.prems by linarith
    then show ?thesis using Cons False by (subst weelist_get_loop.simps) auto
  qed (subst weelist_get_loop.simps, simp)
qed


subsection \<open>The operations on the list\<close>

text \<open>A chain is the list of the items in order; the memory may hold other items.\<close>

definition weelist_chain :: "weelist \<Rightarrow> nat set \<Rightarrow> nat list \<Rightarrow> weelist_data list \<Rightarrow> bool" where
  "weelist_chain w D addrs xs \<longleftrightarrow>
     dlist (wl_heap w) (wl_items w) (wl_last_item w) addrs \<and> payloads (wl_heap w) addrs = xs \<and>
     dom (wl_heap w) = D \<and> set addrs \<subseteq> D"

lemma weelist_repr_chain:
  "weelist_repr w addrs xs \<longleftrightarrow> weelist_chain w (set addrs) addrs xs \<and> wl_size w = int (length xs)"
  by (auto simp: weelist_repr_def weelist_chain_def)

lemma weelist_chain_length: "weelist_chain w D addrs xs \<Longrightarrow> length xs = length addrs"
  by (auto simp: weelist_chain_def)

lemma dom_upd [simp]: "dom (upd_next ao n h) = dom h" "dom (upd_prev ao n h) = dom h"
  by (auto simp: dom_def)

lemma payloads_cong:
  "(\<And>a. a \<in> set xs \<Longrightarrow> payload (the (h' a)) = payload (the (h a))) \<Longrightarrow> payloads h' xs = payloads h xs"
  by (simp add: payloads_def)

lemma weelist_remove_chain:
  assumes "weelist_chain w D (as @ a # bs) xs"
  shows "\<exists>w'. weelist_remove w (Some a) = Some w' \<and>
    weelist_chain w' (D - {a}) (as @ bs) (take (length as) xs @ drop (Suc (length as)) xs) \<and>
    wl_size w' = wl_size w - 1 \<and> (\<forall>c. c \<notin> set (as @ a # bs) \<longrightarrow> wl_heap w' c = wl_heap w c)"
proof -
  let ?h = "wl_heap w"
  from assms have seg: "seg ?h None (as @ a # bs) None" and dist: "distinct (as @ a # bs)"
    and xs: "payloads ?h (as @ a # bs) = xs" and D: "dom ?h = D" "set (as @ a # bs) \<subseteq> D"
    and f: "wl_items w = first_or (as @ a # bs) None" and l: "wl_last_item w = last_or None (as @ a # bs)"
    by (auto simp: weelist_chain_def dlist_def)
  from seg obtain it where it: "?h a = Some it" "prev_item it = last_or None as" "next_item it = first_or bs None"
    by auto
  let ?h1 = "upd_next (last_or None as) (first_or bs None) ?h"
  let ?h2 = "upd_prev (first_or bs None) (last_or None as) ?h1"
  have s1: "set_next_if (last_or None as) (first_or bs None) ?h = Some ?h1"
    by (rule set_if_upd) (use D in \<open>auto dest!: last_or_mem\<close>)
  have s2: "set_prev_if (first_or bs None) (last_or None as) ?h1 = Some ?h2"
    by (rule set_if_upd) (use D in \<open>auto dest!: first_or_mem\<close>)
  have sg: "seg (?h2(a := None)) None (as @ bs) None"
    using seg_unlink [OF seg dist] dist by (subst seg_upd) auto
  have first: "(if last_or None as \<noteq> None then first_or (as @ a # bs) None else first_or bs None)
      = first_or (as @ bs) None"
    by (cases as) auto
  have lst: "(if last_or None (as @ a # bs) = Some a then last_or None as else last_or None (as @ a # bs))
      = last_or None (as @ bs)"
    using dist by (cases bs rule: rev_cases) auto
  have "payloads (?h2(a := None)) (as @ bs) = payloads ?h (as @ bs)"
    by (rule payloads_cong) (use dist D in \<open>auto simp: subset_iff dom_def\<close>)
  also have "\<dots> = take (length as) xs @ drop (Suc (length as)) xs"
    by (simp add: xs [symmetric])
  finally have "weelist_chain (w\<lparr>wl_heap := ?h2(a := None), wl_items := first_or (as @ bs) None,
      wl_last_item := last_or None (as @ bs), wl_size := wl_size w - 1\<rparr>) (D - {a}) (as @ bs)
      (take (length as) xs @ drop (Suc (length as)) xs)"
    using sg dist D by (auto simp: weelist_chain_def dlist_def)
  moreover have "weelist_remove w (Some a) = Some (w\<lparr>wl_heap := ?h2(a := None),
      wl_items := first_or (as @ bs) None, wl_last_item := last_or None (as @ bs),
      wl_size := wl_size w - 1\<rparr>)"
    by (simp only: weelist_remove_def option.case it f l first lst s1 s2 Let_def Option.bind.bind_lunit)
  moreover have "?h2 c = ?h c" if "c \<notin> set (as @ a # bs)" for c
    using that by (subst upd_other, fastforce dest: first_or_mem, subst upd_other)
      (auto dest: last_or_mem)
  ultimately show ?thesis by auto
qed

lemma weelist_link_chain:
  assumes "weelist_chain w D (as @ bs) xs" "a \<in> D" "a \<notin> set (as @ bs)" "wl_heap w a = Some it"
  shows "weelist_chain (w\<lparr>wl_heap := upd_prev (first_or bs None) (Some a) (upd_next (last_or None as) (Some a)
        ((wl_heap w)(a \<mapsto> it\<lparr>prev_item := last_or None as, next_item := first_or bs None\<rparr>))),
      wl_items := first_or as (Some a), wl_last_item := last_or (Some a) bs\<rparr>) D (as @ a # bs)
      (take (length as) xs @ payload it # drop (length as) xs)"
proof -
  let ?h = "(wl_heap w)(a \<mapsto> it\<lparr>prev_item := last_or None as, next_item := first_or bs None\<rparr>)"
  let ?g = "upd_prev (first_or bs None) (Some a) (upd_next (last_or None as) (Some a) ?h)"
  from assms(1) have seg: "seg (wl_heap w) None (as @ bs) None" and dist: "distinct (as @ bs)"
    and xs: "payloads (wl_heap w) (as @ bs) = xs" and D: "dom (wl_heap w) = D" "set (as @ bs) \<subseteq> D"
    by (auto simp: weelist_chain_def dlist_def)
  have "seg ?h None (as @ bs) None" using seg assms(3) by (subst seg_upd) auto
  then have "seg ?g None (as @ a # bs) None"
    by (rule seg_link) (use dist assms(3) in auto)
  moreover have "payloads ?g (as @ a # bs) = payloads ?h (as @ a # bs)"
    by (rule payloads_cong) (use D assms(2) in \<open>auto simp: subset_iff dom_def\<close>)
  moreover have "payloads ?h (as @ a # bs) = take (length as) xs @ payload it # drop (length as) xs"
  proof -
    have "payloads ?h as = payloads (wl_heap w) as" "payloads ?h bs = payloads (wl_heap w) bs"
      by (rule payloads_cong, use assms(3) in auto)+
    then show ?thesis by (simp add: xs [symmetric])
  qed
  ultimately show ?thesis
    using dist assms(2,3) D by (auto simp: weelist_chain_def dlist_def last_or_def)
qed

text \<open>The insertion, as it acts on the list.\<close>

definition remove_data :: "cstr \<Rightarrow> weelist_data list \<Rightarrow> weelist_data list" where
  "remove_data d xs = takeWhile (\<lambda>x. fst x \<noteq> d) xs @ tl (dropWhile (\<lambda>x. fst x \<noteq> d) xs)"

definition place_data :: "cstr \<Rightarrow> weelist_data \<Rightarrow> weelist_data list \<Rightarrow> weelist_data list" where
  "place_data where_pos x xs =
     (if string_strcasecmp (Some where_pos) (Some ''beginning'') = 0 then x # xs
      else if string_strcasecmp (Some where_pos) (Some ''end'') = 0 then xs @ [x]
      else takeWhile (\<lambda>y. 0 \<le> string_strcasecmp (Some (fst x)) (Some (fst y))) xs @
        x # dropWhile (\<lambda>y. 0 \<le> string_strcasecmp (Some (fst x)) (Some (fst y))) xs)"

lemma first_or_dropWhile:
  obtains as bs where "ys = as @ bs" "as = takeWhile P ys" "bs = dropWhile P ys"
  by simp

lemma takeWhile_payloads:
  "takeWhile P (payloads h ys) = payloads h (takeWhile (\<lambda>a. P (payload (the (h a)))) ys)"
  "dropWhile P (payloads h ys) = payloads h (dropWhile (\<lambda>a. P (payload (the (h a)))) ys)"
  by (simp_all add: payloads_def takeWhile_map dropWhile_map comp_def)

lemma weelist_search_chain:
  assumes "weelist_chain w D addrs xs"
  shows "weelist_search w (Some d) =
    Some (first_or (dropWhile (\<lambda>a. fst (payload (the (wl_heap w a))) \<noteq> d) addrs) None)"
  using assms search_loop_seg [of "wl_heap w" None addrs d]
  by (auto simp: weelist_search_def weelist_chain_def dlist_def)

lemma weelist_find_pos_chain:
  assumes "weelist_chain w D addrs xs"
  shows "weelist_find_pos w (Some d) = Some (first_or
    (dropWhile (\<lambda>a. 0 \<le> string_strcasecmp (Some d) (Some (fst (payload (the (wl_heap w a)))))) addrs) None)"
  using assms find_pos_loop_seg [of "wl_heap w" None addrs d]
  by (auto simp: weelist_find_pos_def weelist_chain_def dlist_def)

text \<open>The first step of the insertion: an item with the same data is removed.\<close>

lemma weelist_remove_data_chain:
  assumes "weelist_chain w D addrs xs"
  shows "\<exists>w' addrs'. weelist_insert_remove w d = Some w' \<and>
    weelist_chain w' (D - (set addrs - set addrs')) addrs' (remove_data d xs) \<and> set addrs' \<subseteq> set addrs \<and>
    (\<forall>a. a \<notin> set addrs \<longrightarrow> wl_heap w' a = wl_heap w a) \<and>
    wl_size w' = wl_size w - int (length xs) + int (length (remove_data d xs))"
proof -
  let ?P = "\<lambda>a. fst (payload (the (wl_heap w a))) \<noteq> d"
  have xs: "xs = payloads (wl_heap w) addrs" and items: "wl_items w = first_or addrs None"
    using assms by (auto simp: weelist_chain_def dlist_def)
  have rd: "remove_data d xs = payloads (wl_heap w) (takeWhile ?P addrs)
      @ tl (payloads (wl_heap w) (dropWhile ?P addrs))"
    by (simp add: remove_data_def xs takeWhile_payloads)
  show ?thesis
  proof (cases "dropWhile ?P addrs")
    case Nil
    then have t: "takeWhile ?P addrs = addrs" by (metis append_Nil2 takeWhile_dropWhile_id)
    have "remove_data d xs = xs" unfolding rd t Nil by (simp add: xs)
    then show ?thesis using assms weelist_search_chain [OF assms, of d] Nil
      by (intro exI [of _ w] exI [of _ addrs]) (simp add: weelist_insert_remove_def)
  next
    case (Cons a bs)
    define as where "as = takeWhile ?P addrs"
    have addrs: "addrs = as @ a # bs" using Cons by (metis as_def takeWhile_dropWhile_id)
    have s: "weelist_search w (Some d) = Some (Some a)"
      using weelist_search_chain [OF assms, of d] Cons by simp
    from weelist_remove_chain [of w D as a bs xs] assms obtain w' where
      r: "weelist_remove w (Some a) = Some w'"
        "weelist_chain w' (D - {a}) (as @ bs) (take (length as) xs @ drop (Suc (length as)) xs)"
        "wl_size w' = wl_size w - 1" "\<forall>c. c \<notin> set addrs \<longrightarrow> wl_heap w' c = wl_heap w c"
      by (auto simp: addrs)
    have rd': "remove_data d xs = take (length as) xs @ drop (Suc (length as)) xs"
      using rd Cons by (simp add: as_def [symmetric]) (simp add: xs addrs)
    have "distinct addrs" using assms by (simp add: weelist_chain_def dlist_def)
    then have D: "D - (set addrs - set (as @ bs)) = D - {a}" by (auto simp: addrs)
    show ?thesis
      by (intro exI [of _ w'] exI [of _ "as @ bs"])
        (use r s items rd' D in \<open>auto simp: addrs xs weelist_insert_remove_def\<close>)
  qed
qed

lemma takeWhile_True_False:
  "takeWhile (\<lambda>a. False) xs = []" "dropWhile (\<lambda>a. False) xs = xs"
  "takeWhile (\<lambda>a. True) xs = xs" "dropWhile (\<lambda>a. True) xs = []"
  by (induction xs) simp_all

lemma weelist_insert_chain:
  assumes "weelist_chain w D addrs xs" "a \<in> D" "a \<notin> set addrs" "wl_heap w a = Some it"
  shows "\<exists>w' addrs'. weelist_insert w a p = Some w' \<and>
    weelist_chain w' (D - (set addrs - set addrs')) addrs' (place_data p (payload it) (remove_data (data_of it) xs)) \<and>
    wl_size w' = wl_size w - int (length xs) + int (length (remove_data (data_of it) xs)) \<and>
    set addrs' \<subseteq> insert a (set addrs) \<and> a \<in> set addrs'"
proof -
  obtain v ads where r: "weelist_insert_remove w (data_of it) = Some v"
    and c: "weelist_chain v (D - (set addrs - set ads)) ads (remove_data (data_of it) xs)"
    and sub: "set ads \<subseteq> set addrs" and frame: "\<forall>a. a \<notin> set addrs \<longrightarrow> wl_heap v a = wl_heap w a"
    and size: "wl_size v = wl_size w - int (length xs) + int (length (remove_data (data_of it) xs))"
    using weelist_remove_data_chain [OF assms(1), of "data_of it"] by auto
  let ?ys = "remove_data (data_of it) xs"
  let ?P = "\<lambda>q. if string_strcasecmp (Some p) (Some ''beginning'') = 0 then False
      else if string_strcasecmp (Some p) (Some ''end'') = 0 then True
      else 0 \<le> string_strcasecmp (Some (data_of it)) (Some (fst (payload (the (wl_heap v q)))))"
  define as where "as = takeWhile ?P ads"
  define bs where "bs = dropWhile ?P ads"
  have ads: "ads = as @ bs" by (simp add: as_def bs_def)
  have ys: "?ys = payloads (wl_heap v) ads" and items: "wl_items v = first_or ads None"
    and lst: "wl_last_item v = last_or None ads" and seg: "seg (wl_heap v) None ads None"
    and D': "dom (wl_heap v) = D - (set addrs - set ads)" and dist: "distinct ads"
    using c by (auto simp: weelist_chain_def dlist_def)
  have it: "wl_heap v a = Some it" using frame assms(3,4) by simp
  have anot: "a \<notin> set (as @ bs)" using assms(3) sub ads by auto
  define w' where "w' = v\<lparr>wl_heap := upd_prev (first_or bs None) (Some a) (upd_next (last_or None as) (Some a)
        ((wl_heap v)(a \<mapsto> it\<lparr>prev_item := last_or None as, next_item := first_or bs None\<rparr>))),
      wl_items := first_or as (Some a), wl_last_item := last_or (Some a) bs\<rparr>"
  have link: "weelist_chain w' (D - (set addrs - set ads)) (as @ a # bs)
      (take (length as) ?ys @ payload it # drop (length as) ?ys)"
    unfolding w'_def by (rule weelist_link_chain) (use c it anot assms(2,3) in \<open>auto simp: ads\<close>)
  have pos: "(if string_strcasecmp (Some p) (Some ''beginning'') = 0 then Some (wl_items v)
          else if string_strcasecmp (Some p) (Some ''end'') = 0 then Some None
          else weelist_find_pos v (Some (data_of it))) = Some (first_or bs None)"
    using weelist_find_pos_chain [OF c, of "data_of it"] items
    by (auto simp: bs_def takeWhile_True_False dropWhile_eq_Nil_conv [THEN iffD2])
  have place: "take (length as) ?ys @ payload it # drop (length as) ?ys = place_data p (payload it) ?ys"
  proof -
    have "take (length as) ?ys = payloads (wl_heap v) as" "drop (length as) ?ys = payloads (wl_heap v) bs"
      by (simp_all add: ys ads)
    then show ?thesis
      by (auto simp: place_data_def takeWhile_payloads ys as_def bs_def takeWhile_True_False)
  qed
  have "weelist_insert_link v a (data_of it) p = Some w'"
  proof (cases "ads = []")
    case True
    then have "as = []" "bs = []" by (simp_all add: ads)
    then show ?thesis using True items it assms(4)
      by (simp add: weelist_insert_link_def w'_def set_prev_def set_next_def)
  next
    case False
    show ?thesis
    proof (cases bs)
      case Nil
      then have as: "as = ads" by (simp add: ads)
      with False obtain l where l: "last_or None as = Some l" "l \<in> set ads"
        by (cases as rule: rev_cases) auto
      then have lv: "wl_heap v l \<noteq> None" using seg_valid [OF seg] by blast
      have la: "l \<noteq> a" using l anot as by auto
      show ?thesis using False items pos it assms(4) Nil as l lst lv la
        by (auto simp: weelist_insert_link_def w'_def set_prev_def set_next_def upd_next_def fun_upd_twist first_or_def
            split: list.split)
    next
      case (Cons q bs')
      have q: "wl_heap v q \<noteq> None" "q \<noteq> a" using seg_valid [OF seg, of q] anot Cons ads by auto
      then obtain itq where itq: "wl_heap v q = Some itq" "prev_item itq = last_or None as"
        using seg unfolding ads Cons by auto
      let ?h = "(wl_heap v)(a \<mapsto> it\<lparr>prev_item := last_or None as, next_item := Some q\<rparr>)"
      have v1: "?h c \<noteq> None" if "last_or None as = Some c" for c
        using seg_valid [OF seg, of c] that ads by (auto dest: last_or_mem)
      have n1: "set_next_if (last_or None as) (Some a) ?h = Some (upd_next (last_or None as) (Some a) ?h)"
        by (rule set_if_upd) (use v1 in blast)
      have n2: "set_prev q (Some a) (upd_next (last_or None as) (Some a) ?h)
          = Some (upd_prev (Some q) (Some a) (upd_next (last_or None as) (Some a) ?h))"
        by (rule set_upd) (use q in simp)
      have fl: "(if last_or None as \<noteq> None then first_or ads None else Some a) = first_or as (Some a)"
        by (cases as) (auto simp: ads)
      have ll: "last_or None ads = last_or (Some a) bs" by (simp add: ads Cons)
      have f1: "set_prev a (last_or None as) (wl_heap v) = Some ((wl_heap v)(a \<mapsto> it\<lparr>prev_item := last_or None as\<rparr>))"
        by (simp add: set_prev_def it)
      have f2: "set_next a (Some q) ((wl_heap v)(a \<mapsto> it\<lparr>prev_item := last_or None as\<rparr>)) = Some ?h"
        by (simp add: set_next_def)
      have ne: "(wl_items v \<noteq> None) = True" using False items by simp
      have fin: "v\<lparr>wl_heap := upd_prev (Some q) (Some a) (upd_next (last_or None as) (Some a) ?h),
          wl_items := first_or as (Some a)\<rparr> = w'"
        by (rule weelist.equality) (simp_all add: w'_def lst ll Cons)
      have fb: "first_or bs None = Some q" by (simp add: Cons)
      show ?thesis
        by (simp only: weelist_insert_link_def ne if_True pos fb option.case itq f1 f2 n1 n2 Let_def
            fl [folded items] fin Option.bind.bind_lunit)
    qed
  qed
  then have ins: "weelist_insert w a p = Some w'"
    by (simp add: weelist_insert_def assms(4) r)
  have "D - (set addrs - set ads) = D - (set addrs - set (as @ a # bs))"
    using assms(3) by (auto simp: ads)
  then show ?thesis using ins link size place sub
    by (intro exI [of _ w'] exI [of _ "as @ a # bs"]) (auto simp: ads w'_def)
qed


lemma length_place_data [simp]: "length (place_data p x xs) = Suc (length xs)"
proof -
  have "length (takeWhile P xs) + length (dropWhile P xs) = length xs" for P
    by (metis length_append takeWhile_dropWhile_id)
  then show ?thesis by (simp add: place_data_def)
qed

lemma set_place_data [simp]: "set (place_data p x xs) = insert x (set xs)"
proof -
  have "set (takeWhile P xs) \<union> set (dropWhile P xs) = set xs" for P
    by (metis set_append takeWhile_dropWhile_id)
  then show ?thesis by (auto simp: place_data_def)
qed

lemma weelist_add_repr:
  assumes "weelist_repr w addrs xs" "n \<notin> set addrs" "d \<noteq> []" "p \<noteq> []"
  shows "\<exists>w' addrs'. weelist_add w n (Some d) (Some p) ud = Some (w', Some n) \<and>
    weelist_repr w' addrs' (place_data p (d, ud) (remove_data d xs)) \<and> n \<in> set addrs' \<and>
    set addrs' \<subseteq> insert n (set addrs)"
proof -
  let ?it = "\<lparr>payload = (d, ud), prev_item = None, next_item = None\<rparr>"
  let ?w = "w\<lparr>wl_heap := (wl_heap w)(n \<mapsto> ?it)\<rparr>"
  have c: "weelist_chain ?w (insert n (set addrs)) addrs xs"
  proof -
    have "payloads ((wl_heap w)(n \<mapsto> ?it)) addrs = payloads (wl_heap w) addrs"
      by (rule payloads_cong) (use assms(2) in auto)
    then show ?thesis using assms(1,2) by (auto simp: weelist_chain_def weelist_repr_def dlist_def)
  qed
  from weelist_insert_chain [OF c, of n ?it p] assms(2) obtain w' addrs' where
    i: "weelist_insert ?w n p = Some w'"
      "weelist_chain w' (insert n (set addrs) - (set addrs - set addrs')) addrs' (place_data p (d, ud) (remove_data d xs))"
      "wl_size w' = wl_size w - int (length xs) + int (length (remove_data d xs))"
      "set addrs' \<subseteq> insert n (set addrs)" "n \<in> set addrs'" by auto
  have D: "insert n (set addrs) - (set addrs - set addrs') = set addrs'"
    using i(4,5) assms(2) by auto
  have sz: "wl_size w' + 1 = int (length (place_data p (d, ud) (remove_data d xs)))"
    using i(3) assms(1)
    by (simp add: weelist_repr_def)
  have "weelist_repr (w'\<lparr>wl_size := wl_size w' + 1\<rparr>) addrs' (place_data p (d, ud) (remove_data d xs))"
    using i(2) sz unfolding D weelist_repr_chain by (simp add: weelist_chain_def)
  then show ?thesis using i(1,4,5) assms(3,4) by (auto simp: weelist_add_def)
qed

text \<open>
  Claim C10.  \<open>weelist_add\<close> never follows an invalid pointer and returns, and afterwards the
  pointers represent the list where the item with the same data, if any, is gone and the new one
  is at the place asked for; the size is that of the list and nothing leaks.
\<close>

theorem weelist_add_refines:
  assumes "weelist_repr w addrs xs" "n \<notin> set addrs" "d \<noteq> []" "p \<noteq> []"
  shows "\<exists>w' addrs'. weelist_add w n (Some d) (Some p) ud = Some (w', Some n) \<and>
    weelist_repr w' addrs' (place_data p (d, ud) (remove_data d xs)) \<and> n \<in> set addrs'"
  using weelist_add_repr [OF assms] by blast

text \<open>A list of two items at addresses 1 and 2.\<close>

definition weelist_example :: weelist where
  "weelist_example =
     \<lparr>wl_heap = [1 \<mapsto> \<lparr>payload = (''irc'', 0), prev_item = None, next_item = Some 2\<rparr>,
                 2 \<mapsto> \<lparr>payload = (''Relay'', 0), prev_item = Some 1, next_item = None\<rparr>],
      wl_items = Some 1, wl_last_item = Some 2, wl_size = 2\<rparr>"

lemma weelist_example_repr: "weelist_repr weelist_example [1, 2] [(''irc'', 0), (''Relay'', 0)]"
  by (auto simp: weelist_repr_def weelist_example_def dlist_def)

theorem weelist_add_refines_witness:
  "\<exists>w' addrs'. weelist_add weelist_example 3 (Some ''alias'') (Some ''sort'') 0 = Some (w', Some 3) \<and>
    weelist_repr w' addrs'
      (place_data ''sort'' (''alias'', 0) (remove_data ''alias'' [(''irc'', 0), (''Relay'', 0)])) \<and>
    3 \<in> set addrs'"
  by (rule weelist_add_refines [OF weelist_example_repr]) simp_all

text \<open>Sorted lists with distinct strings, what a client that always asks for \<open>sort\<close> has.\<close>

definition weelist_sorted :: "weelist_data list \<Rightarrow> bool" where
  "weelist_sorted xs \<longleftrightarrow>
     cmp_ordered (\<lambda>s t. string_strcasecmp (Some s) (Some t)) (map fst xs) \<and> distinct (map fst xs)"

lemma remove_data_filter:
  "distinct (map fst xs) \<Longrightarrow> remove_data d xs = filter (\<lambda>x. fst x \<noteq> d) xs"
proof (induction xs)
  case (Cons x xs)
  show ?case
  proof (cases "fst x = d")
    case True
    then have "filter (\<lambda>x. fst x \<noteq> d) xs = xs"
    proof -
      have "d \<notin> fst ` set xs" using Cons.prems True by auto
      then show ?thesis by (intro filter_True) (metis imageI)
    qed
    then show ?thesis using True by (simp add: remove_data_def)
  qed (use Cons in \<open>simp add: remove_data_def\<close>)
qed (simp add: remove_data_def)

lemma ordered_remove_data:
  "cmp_ordered cmp (map fst xs) \<Longrightarrow> cmp_ordered cmp (map fst (filter P xs))"
  by (auto simp: cmp_ordered_def sorted_wrt_map sorted_wrt_filter)

lemma place_data_sorted:
  assumes "cmp_ordered (\<lambda>s t. string_strcasecmp (Some s) (Some t)) (map fst xs)"
  shows "map fst (place_data ''sort'' x xs) =
    ins_after (\<lambda>s t. string_strcasecmp (Some s) (Some t)) (fst x) (map fst xs)"
proof -
  let ?cmp = "\<lambda>s t. string_strcasecmp (Some s) (Some t)"
  have w: "string_strcasecmp (Some ''sort'') (Some ''beginning'') \<noteq> 0"
    "string_strcasecmp (Some ''sort'') (Some ''end'') \<noteq> 0" by (simp_all add: strcasecmp_literal)
  let ?P = "\<lambda>y. 0 \<le> ?cmp (fst x) y"
  define i where "i = length (takeWhile ?P (map fst xs))"
  have le: "i \<le> length (map fst xs)" by (simp only: i_def length_takeWhile_le)
  have below: "?P (map fst xs ! j)" if "j < i" for j
    using that nth_mem [of j "takeWhile ?P (map fst xs)"]
    by (auto simp: i_def takeWhile_nth dest: set_takeWhileD)
  have above: "\<not> ?P (map fst xs ! j)" if "i \<le> j" "j < length (map fst xs)" for j
  proof -
    have "?cmp (fst x) (map fst xs ! i) < 0"
      using nth_length_takeWhile [of ?P "map fst xs"] that by (simp add: i_def)
    from strcasecmp.ordered_after [OF assms this that] show ?thesis by simp
  qed
  have 1: "filter ?P (map fst xs) = takeWhile ?P (map fst xs)"
    using strcasecmp.filter_cut [of i "map fst xs" ?P, OF le below above] by (simp add: i_def takeWhile_eq_take [symmetric])
  have 2: "filter (\<lambda>y. ?cmp (fst x) y < 0) (map fst xs) = dropWhile ?P (map fst xs)"
    using strcasecmp.filter_cut_drop [OF le, of "\<lambda>y. ?cmp (fst x) y < 0"] below above
    by (force simp: i_def dropWhile_eq_drop)
  show ?thesis
    unfolding ins_after_def 1 2
    by (simp add: place_data_def w takeWhile_map dropWhile_map comp_def)
qed

lemma weelist_example_sorted: "weelist_sorted [(''irc'', 0), (''Relay'', 0)]"
  by (simp add: weelist_sorted_def cmp_ordered_def) code_simp

lemma weelist_add_sort:
  assumes "weelist_repr w addrs xs" "weelist_sorted xs" "n \<notin> set addrs" "d \<noteq> []"
  shows "\<exists>w' addrs' ys. weelist_add w n (Some d) (Some ''sort'') ud = Some (w', Some n) \<and>
    weelist_repr w' addrs' ys \<and> weelist_sorted ys \<and>
    set ys = insert (d, ud) {x \<in> set xs. fst x \<noteq> d} \<and> set addrs' \<subseteq> insert n (set addrs)"
proof -
  let ?ys = "remove_data d xs"
  have r: "?ys = filter (\<lambda>x. fst x \<noteq> d) xs"
    using assms(2) by (simp add: weelist_sorted_def remove_data_filter)
  have o: "cmp_ordered (\<lambda>s t. string_strcasecmp (Some s) (Some t)) (map fst ?ys)"
    using assms(2) unfolding r weelist_sorted_def by (blast intro: ordered_remove_data)
  have m: "map fst (place_data ''sort'' (d, ud) ?ys) =
      ins_after (\<lambda>s t. string_strcasecmp (Some s) (Some t)) d (map fst ?ys)"
    using place_data_sorted [OF o, of "(d, ud)"] by simp
  have dist: "distinct (map fst (place_data ''sort'' (d, ud) ?ys))"
  proof (rule card_distinct)
    have "d \<notin> fst ` set ?ys" by (auto simp: r)
    moreover have "card (fst ` set ?ys) = length ?ys"
      using assms(2) distinct_card [of "map fst ?ys"] by (simp add: weelist_sorted_def r distinct_map_filter)
    ultimately show "card (set (map fst (place_data ''sort'' (d, ud) ?ys)))
        = length (map fst (place_data ''sort'' (d, ud) ?ys))"
      by simp
  qed
  have "weelist_sorted (place_data ''sort'' (d, ud) ?ys)"
    unfolding weelist_sorted_def m using strcasecmp.ordered_ins_after [OF o, of d] dist by (simp add: m)
  moreover have "set (place_data ''sort'' (d, ud) ?ys) = insert (d, ud) {x \<in> set xs. fst x \<noteq> d}"
    by (auto simp: r)
  moreover obtain w' addrs' where "weelist_add w n (Some d) (Some ''sort'') ud = Some (w', Some n)"
    "weelist_repr w' addrs' (place_data ''sort'' (d, ud) ?ys)" "set addrs' \<subseteq> insert n (set addrs)"
    using weelist_add_repr [OF assms(1,3,4), of "''sort''" ud] by auto
  ultimately show ?thesis by blast
qed


text \<open>
  Claim C12.  A list built with \<open>sort\<close> stays in order, ignoring case, and without duplicates: it
  holds exactly the old strings and the new one, with the new user data.
\<close>

theorem weelist_add_sorted:
  assumes "weelist_repr w addrs xs" "weelist_sorted xs" "n \<notin> set addrs" "d \<noteq> []"
  shows "\<exists>w' addrs' ys. weelist_add w n (Some d) (Some ''sort'') ud = Some (w', Some n) \<and>
    weelist_repr w' addrs' ys \<and> weelist_sorted ys \<and>
    set ys = insert (d, ud) {x \<in> set xs. fst x \<noteq> d}"
  using weelist_add_sort [OF assms] by blast

theorem weelist_add_sorted_witness:
  "\<exists>w' addrs' ys. weelist_add weelist_example 3 (Some ''alias'') (Some ''sort'') 7 = Some (w', Some 3) \<and>
    weelist_repr w' addrs' ys \<and> weelist_sorted ys \<and>
    set ys = insert (''alias'', 7) {x \<in> set [(''irc'', 0), (''Relay'', 0)]. fst x \<noteq> ''alias''}"
  by (rule weelist_add_sorted [OF weelist_example_repr weelist_example_sorted]) simp_all

text \<open>Removal of an item, of all items, and searches.\<close>

lemma weelist_remove_repr:
  assumes "weelist_repr w (as @ a # bs) xs"
  shows "\<exists>w'. weelist_remove w (Some a) = Some w' \<and>
    weelist_repr w' (as @ bs) (take (length as) xs @ drop (Suc (length as)) xs)"
proof -
  have d: "distinct (as @ a # bs)" and len: "length xs = length (as @ a # bs)"
    using assms by (auto simp: weelist_repr_def dlist_def)
  have D: "set (as @ a # bs) - {a} = set (as @ bs)" using d by auto
  from weelist_remove_chain [of w "set (as @ a # bs)" as a bs xs] assms obtain w' where
    "weelist_remove w (Some a) = Some w'" "wl_size w' = wl_size w - 1"
    "weelist_chain w' (set (as @ bs)) (as @ bs) (take (length as) xs @ drop (Suc (length as)) xs)"
    unfolding weelist_repr_chain D by blast
  then show ?thesis using assms len by (auto simp: weelist_repr_chain)
qed

lemma weelist_remove_all_repr:
  "weelist_repr w addrs xs \<Longrightarrow> \<exists>w'. weelist_remove_all w = Some w' \<and> weelist_repr w' [] []"
proof (induction addrs arbitrary: w xs)
  case Nil
  then show ?case
    by (subst weelist_remove_all.simps) (auto simp: weelist_repr_def dlist_def)
next
  case (Cons a addrs)
  from weelist_remove_repr [of w "[]" a addrs xs] Cons.prems obtain w' where
    w': "weelist_remove w (Some a) = Some w'" "weelist_repr w' addrs (drop 1 xs)" by auto
  have "wl_items w = Some a" using Cons.prems by (simp add: weelist_repr_def dlist_def)
  with w' Cons.IH [OF w'(2)] show ?case by (subst weelist_remove_all.simps) auto
qed

text \<open>
  Claim C11.  Removing the item at an address unlinks and frees exactly that item, and
  \<open>weelist_remove_all\<close> returns with an empty list and no item left in memory.
\<close>

theorem weelist_remove_refines:
  assumes "weelist_repr w (as @ a # bs) xs"
  shows "(\<exists>w'. weelist_remove w (Some a) = Some w' \<and>
      weelist_repr w' (as @ bs) (take (length as) xs @ drop (Suc (length as)) xs)) \<and>
    (\<exists>w'. weelist_remove_all w = Some w' \<and> weelist_repr w' [] [] \<and> dom (wl_heap w') = {})"
  using weelist_remove_repr [OF assms] weelist_remove_all_repr [OF assms]
  by (auto simp: weelist_repr_def)

theorem weelist_remove_refines_witness:
  "(\<exists>w'. weelist_remove weelist_example (Some 1) = Some w' \<and> weelist_repr w' ([] @ [2])
      (take (length ([]::nat list)) [(''irc'', 0), (''Relay'', 0)] @
        drop (Suc (length ([]::nat list))) [(''irc'', 0), (''Relay'', 0)])) \<and>
    (\<exists>w'. weelist_remove_all weelist_example = Some w' \<and> weelist_repr w' [] [] \<and> dom (wl_heap w') = {})"
  by (rule weelist_remove_refines) (simp only: append_Nil weelist_example_repr)

text \<open>The searches and the access by position, on the list.\<close>

lemma weelist_search_pos_repr:
  assumes "weelist_repr w addrs xs"
  shows "weelist_search_pos w (Some d) = Some (if d \<in> fst ` set xs
    then int (length (takeWhile (\<lambda>x. fst x \<noteq> d) xs)) else - 1)"
  using assms search_pos_loop_seg [of "wl_heap w" None addrs d 0]
  by (auto simp: weelist_search_pos_def weelist_repr_def dlist_def)

lemma weelist_get_repr:
  assumes "weelist_repr w addrs xs" "0 \<le> k"
  shows "weelist_get w k = Some (if nat k < length addrs then Some (addrs ! nat k) else None)"
  using assms get_loop_seg [of "wl_heap w" None addrs 0 k]
  by (auto simp: weelist_get_def weelist_repr_def dlist_def)

end
