(* ===== verification/Numbers.thy ===== *)
theory Numbers
  imports Prelude
begin

text \<open>
  Numbers as text: the conversions of the C library that the code uses, \<open>%d\<close>, \<open>%lld\<close> and
  \<open>%lx\<close> of \<open>snprintf\<close>, with the numbers they are read back to.
\<close>

definition digit_char :: "nat \<Rightarrow> char" where
  "digit_char d = (if d < 10 then chr (48 + d) else chr (87 + d))"

fun digits_of :: "nat \<Rightarrow> nat \<Rightarrow> cstr" where
  "digits_of b n = (if b < 2 \<or> n < b then [digit_char n] else digits_of b (n div b) @ [digit_char (n mod b)])"

declare digits_of.simps [simp del]

definition string_of_int :: "int \<Rightarrow> cstr" where
  "string_of_int i = (if i < 0 then CHR ''-'' # digits_of 10 (nat (- i)) else digits_of 10 (nat i))"

definition string_of_pointer :: "nat \<Rightarrow> cstr" where
  "string_of_pointer p = ''0x'' @ digits_of 16 p"

definition digit_value :: "char \<Rightarrow> nat" where
  "digit_value c = (if byte c < 58 then byte c - 48 else byte c - 87)"

definition number_of :: "nat \<Rightarrow> cstr \<Rightarrow> nat" where
  "number_of b s = foldl (\<lambda>n c. b * n + digit_value c) 0 s"

lemma digit_value_char [simp]: "d < 16 \<Longrightarrow> digit_value (digit_char d) = d"
  by (simp add: digit_value_def digit_char_def)

lemma digit_char_nonzero: "d < 16 \<Longrightarrow> digit_char d \<noteq> NUL"
proof
  assume "d < 16" "digit_char d = NUL"
  then have "byte (digit_char d) = 0" by simp
  then show False using \<open>d < 16\<close> by (simp add: digit_char_def del: byte_0_iff split: if_splits)
qed

lemma number_of_digits: "2 \<le> b \<Longrightarrow> b \<le> 16 \<Longrightarrow> number_of b (digits_of b n) = n"
proof (induction b n rule: digits_of.induct)
  case (1 b n)
  show ?case
  proof (cases "n < b")
    case True
    then show ?thesis using 1 by (simp add: digits_of.simps [of b n] number_of_def)
  next
    case False
    then have "number_of b (digits_of b (n div b)) = n div b" using 1 by simp
    moreover have "n mod b < 16" 
      using 1(2,3) mod_less_divisor [of b n] by linarith
    ultimately show ?thesis using False 1(2)
      by (simp add: digits_of.simps [of b n] number_of_def)
  qed
qed

lemma digits_of_inj: "2 \<le> b \<Longrightarrow> b \<le> 16 \<Longrightarrow> digits_of b m = digits_of b n \<longleftrightarrow> m = n"
  by (metis number_of_digits)

lemma digits_of_nonempty [simp]: "digits_of b n \<noteq> []"
  by (simp add: digits_of.simps [of b n])

subsection \<open>Reading numbers\<close>

text \<open>
  The C library's \<open>strtol (s, &error, 10)\<close> for a 64-bit \<open>long\<close>: blanks, a sign and digits are
  read, the value is clamped to the type, and the rest of the string is where \<open>error\<close> points;
  without any digit it points to the string itself.
\<close>

definition c_isspace :: "char \<Rightarrow> bool" where
  "c_isspace c \<longleftrightarrow> byte c = 32 \<or> (9 \<le> byte c \<and> byte c \<le> 13)"

definition c_isdigit :: "char \<Rightarrow> bool" where
  "c_isdigit c \<longleftrightarrow> 48 \<le> byte c \<and> byte c \<le> 57"

definition long_min :: int where "long_min = - (2 ^ 63)"
definition long_max :: int where "long_max = 2 ^ 63 - 1"

definition clamp_long :: "int \<Rightarrow> int" where
  "clamp_long i = max long_min (min long_max i)"

definition strtol10 :: "cstr \<Rightarrow> int \<times> cstr" where
  "strtol10 s =
     (let t = dropWhile c_isspace s;
          neg = (t \<noteq> [] \<and> hd t = CHR ''-'');
          u = (if t \<noteq> [] \<and> (hd t = CHR ''-'' \<or> hd t = CHR ''+'') then tl t else t);
          ds = takeWhile c_isdigit u;
          v = int (number_of 10 ds)
      in if ds = [] then (0, s) else (clamp_long (if neg then - v else v), dropWhile c_isdigit u))"

text \<open>The conversion of a \<open>long\<close> to a 32-bit \<open>int\<close>, as the compilers do it.\<close>

definition int_of_long :: "int \<Rightarrow> int" where
  "int_of_long n = (n + 2 ^ 31) mod 2 ^ 32 - 2 ^ 31"

lemma int_of_long_id: "- (2 ^ 31) \<le> n \<Longrightarrow> n < 2 ^ 31 \<Longrightarrow> int_of_long n = n"
  unfolding int_of_long_def by (subst mod_pos_pos_trivial) auto

lemma int_of_long_range: "- (2 ^ 31) \<le> int_of_long n" "int_of_long n < 2 ^ 31"
proof -
  have "0 \<le> (n + 2 ^ 31) mod 2 ^ 32" "(n + 2 ^ 31) mod 2 ^ 32 < 2 ^ 32" by simp_all
  then show "- (2 ^ 31) \<le> int_of_long n" "int_of_long n < 2 ^ 31" by (simp_all add: int_of_long_def)
qed

lemma byte_digit_char: "d < 10 \<Longrightarrow> byte (digit_char d) = 48 + d"
  by (simp add: digit_char_def)

lemma digits_of_isdigit: "c \<in> set (digits_of 10 n) \<Longrightarrow> c_isdigit c"
proof (induction n rule: less_induct)
  case (less n)
  have d: "c_isdigit (digit_char (n mod 10))"
    by (simp add: c_isdigit_def byte_digit_char)
  show ?case
  proof (cases "n < 10")
    case True
    then show ?thesis using less.prems by (auto simp: digits_of.simps [of 10 n] c_isdigit_def byte_digit_char)
  next
    case False
    then have "n div 10 < n" by simp
    show ?thesis using less.prems less.IH [OF \<open>n div 10 < n\<close>] d False
      by (simp add: digits_of.simps [of 10 n]) blast
  qed
qed

lemma isdigit_not_space: "c_isdigit c \<Longrightarrow> \<not> c_isspace c \<and> c \<noteq> CHR ''-'' \<and> c \<noteq> CHR ''+''"
  by (auto simp: c_isdigit_def c_isspace_def)

lemma strtol10_digits:
  assumes "\<And>c. c \<in> set ds \<Longrightarrow> c_isdigit c" "ds \<noteq> []" "r = [] \<or> \<not> c_isdigit (hd r)"
  shows "strtol10 (ds @ r) = (clamp_long (int (number_of 10 ds)), r)"
    and "strtol10 (CHR ''-'' # ds @ r) = (clamp_long (- int (number_of 10 ds)), r)"
proof -
  have t: "takeWhile c_isdigit (ds @ r) = ds" "dropWhile c_isdigit (ds @ r) = r"
    using assms by (cases r; simp add: takeWhile_append2 dropWhile_append2)+
  from assms(2) obtain c cs where ds: "ds = c # cs" by (cases ds) auto
  then have "\<not> c_isspace c \<and> c \<noteq> CHR ''-'' \<and> c \<noteq> CHR ''+''"
    using assms(1) isdigit_not_space by simp
  then show "strtol10 (ds @ r) = (clamp_long (int (number_of 10 ds)), r)"
    using t assms(2) by (simp add: strtol10_def Let_def ds)
  show "strtol10 (CHR ''-'' # ds @ r) = (clamp_long (- int (number_of 10 ds)), r)"
    using t assms(2) by (simp add: strtol10_def Let_def c_isspace_def)
qed

lemma strtol10_string_of_int:
  assumes "long_min \<le> i" "i \<le> long_max" "r = [] \<or> \<not> c_isdigit (hd r)"
  shows "strtol10 (string_of_int i @ r) = (i, r)"
  using assms strtol10_digits [of "digits_of 10 (nat i)" r] strtol10_digits [of "digits_of 10 (nat (- i))" r]
  by (auto simp: string_of_int_def number_of_digits digits_of_isdigit clamp_long_def)

end
