(* ===== verification/Hashtable.thy ===== *)
theory Hashtable
  imports Weelist Numbers "HOL-Library.Multiset"
begin

text \<open>
  The hashtables, \<open>src/core/wee-hashtable.c\<close>: an array of sorted linked lists.  A list is
  modelled by the list of its items and a pointer to an item by its bucket and its position in
  it.  Keys and values are copied according to the type of the table; what is freed, by the
  callbacks or by \<open>free\<close>, is logged.
\<close>

subsection \<open>Types and data\<close>

datatype hashtable_type =
    HASHTABLE_INTEGER | HASHTABLE_STRING | HASHTABLE_POINTER | HASHTABLE_BUFFER | HASHTABLE_TIME

definition hashtable_type_string :: "(cstr \<times> hashtable_type) list" where
  "hashtable_type_string =
     [(''integer'', HASHTABLE_INTEGER), (''string'', HASHTABLE_STRING),
      (''pointer'', HASHTABLE_POINTER), (''buffer'', HASHTABLE_BUFFER), (''time'', HASHTABLE_TIME)]"

fun hashtable_get_type_loop :: "(cstr \<times> hashtable_type) list \<Rightarrow> cstr \<Rightarrow> hashtable_type option" where
  "hashtable_get_type_loop [] type = None"
| "hashtable_get_type_loop ((s, t) # ts) type =
     (if string_strcasecmp (Some s) (Some type) = 0 then Some t else hashtable_get_type_loop ts type)"

definition hashtable_get_type :: "cstr option \<Rightarrow> hashtable_type option" where
  "hashtable_get_type type =
     (case type of None \<Rightarrow> None | Some t \<Rightarrow> hashtable_get_type_loop hashtable_type_string t)"

text \<open>
  What a pointer to a key or value points to; a pointer used as a key or value is itself the
  datum.  The projections read a datum at the type that the table says.
\<close>

datatype hdata = HInt int | HString cstr | HPointer nat | HBuffer cstr | HTime int

fun hint :: "hdata \<Rightarrow> int" where "hint (HInt i) = i" | "hint _ = 0"
fun hstring :: "hdata \<Rightarrow> cstr" where "hstring (HString s) = s" | "hstring _ = []"
fun hpointer :: "hdata \<Rightarrow> nat" where "hpointer (HPointer p) = p" | "hpointer _ = 0"
fun hbuffer :: "hdata \<Rightarrow> cstr" where "hbuffer (HBuffer b) = b" | "hbuffer _ = []"
fun htime :: "hdata \<Rightarrow> int" where "htime (HTime t) = t" | "htime _ = 0"

subsection \<open>The default callbacks\<close>

definition hashtable_hash_key_djb2 :: "cstr \<Rightarrow> 64 word" where
  "hashtable_hash_key_djb2 string =
     foldl (\<lambda>hash c. hash XOR (push_bit 5 hash + drop_bit 2 hash + word_of_int (signed_byte (byte c)))) 5381 string"

definition hashtable_hash_key_default_cb :: "hashtable_type \<Rightarrow> hdata \<Rightarrow> 64 word" where
  "hashtable_hash_key_default_cb type_keys key =
     (case type_keys of
        HASHTABLE_INTEGER \<Rightarrow> word_of_int (hint key)
      | HASHTABLE_STRING \<Rightarrow> hashtable_hash_key_djb2 (hstring key)
      | HASHTABLE_POINTER \<Rightarrow> word_of_nat (hpointer key)
      | HASHTABLE_BUFFER \<Rightarrow> 0
      | HASHTABLE_TIME \<Rightarrow> word_of_int (htime key))"

definition three_way :: "'a::linorder \<Rightarrow> 'a \<Rightarrow> int" where
  "three_way a b = (if a < b then - 1 else if a > b then 1 else 0)"

definition hashtable_keycmp_default_cb :: "hashtable_type \<Rightarrow> hdata \<Rightarrow> hdata \<Rightarrow> int" where
  "hashtable_keycmp_default_cb type_keys key1 key2 =
     (case type_keys of
        HASHTABLE_INTEGER \<Rightarrow> three_way (hint key1) (hint key2)
      | HASHTABLE_STRING \<Rightarrow> strcmp (hstring key1) (hstring key2)
      | HASHTABLE_POINTER \<Rightarrow> three_way (hpointer key1) (hpointer key2)
      | HASHTABLE_BUFFER \<Rightarrow> 0
      | HASHTABLE_TIME \<Rightarrow> three_way (htime key1) (htime key2))"

subsection \<open>The table and its operations\<close>

record hashtable_item =
  it_key :: hdata
  it_key_size :: nat
  it_value :: "hdata option"
  it_value_size :: nat

datatype hashtable_event =
    CallFreeKey hdata | CallFreeValue hdata "hdata option" | FreeData hdata

record hashtable =
  ht_size :: nat
  htable :: "hashtable_item list list"
  items_count :: int
  type_keys :: hashtable_type
  type_values :: hashtable_type
  callback_hash_key :: "hdata \<Rightarrow> 64 word"
  callback_keycmp :: "hdata \<Rightarrow> hdata \<Rightarrow> int"
  callback_free_key :: bool
  callback_free_value :: bool
  keys_values :: "cstr option"
  events :: "hashtable_event list"

definition hashtable_new ::
  "int \<Rightarrow> cstr option \<Rightarrow> cstr option \<Rightarrow> (hdata \<Rightarrow> 64 word) option \<Rightarrow> (hdata \<Rightarrow> hdata \<Rightarrow> int) option
    \<Rightarrow> hashtable option" where
  "hashtable_new sz tkeys tvalues hash_key_cb keycmp_cb =
     (if sz \<le> 0 then None
      else case hashtable_get_type tkeys of None \<Rightarrow> None | Some tk \<Rightarrow>
        (case hashtable_get_type tvalues of None \<Rightarrow> None | Some tv \<Rightarrow>
          if tk = HASHTABLE_BUFFER \<and> (hash_key_cb = None \<or> keycmp_cb = None) then None
          else Some
            \<lparr>ht_size = nat sz, htable = replicate (nat sz) [], items_count = 0,
             type_keys = tk, type_values = tv,
             callback_hash_key = (case hash_key_cb of
                 Some f \<Rightarrow> f | None \<Rightarrow> hashtable_hash_key_default_cb tk),
             callback_keycmp = (case keycmp_cb of
                 Some f \<Rightarrow> f | None \<Rightarrow> hashtable_keycmp_default_cb tk),
             callback_free_key = False, callback_free_value = False,
             keys_values = None, events = []\<rparr>))"

text \<open>The copy of a datum that is not \<open>NULL\<close>, and its size; then the function itself.\<close>

definition hashtable_copy :: "hashtable_type \<Rightarrow> hdata \<Rightarrow> int \<Rightarrow> hdata \<times> nat" where
  "hashtable_copy type val size_value =
     (case type of
        HASHTABLE_INTEGER \<Rightarrow> (HInt (hint val), 4)
      | HASHTABLE_STRING \<Rightarrow> (HString (hstring val), length (hstring val) + 1)
      | HASHTABLE_POINTER \<Rightarrow> (HPointer (hpointer val), 8)
      | HASHTABLE_BUFFER \<Rightarrow> (HBuffer (take (nat size_value) (hbuffer val)), nat size_value)
      | HASHTABLE_TIME \<Rightarrow> (HTime (htime val), 8))"

definition hashtable_alloc_type :: "hashtable_type \<Rightarrow> hdata option \<Rightarrow> int \<Rightarrow> hdata option \<times> nat" where
  "hashtable_alloc_type type val size_value =
     (case val of
        None \<Rightarrow> (None, if type = HASHTABLE_POINTER then 8 else 0)
      | Some v \<Rightarrow>
          if type = HASHTABLE_BUFFER \<and> \<not> size_value > 0 then (None, 0)
          else map_prod Some id (hashtable_copy type v size_value))"

definition hashtable_free_key :: "hashtable \<Rightarrow> hashtable_item \<Rightarrow> hashtable" where
  "hashtable_free_key h item =
     (if callback_free_key h then h\<lparr>events := events h @ [CallFreeKey (it_key item)]\<rparr>
      else if type_keys h = HASHTABLE_POINTER then h
      else h\<lparr>events := events h @ [FreeData (it_key item)]\<rparr>)"

definition hashtable_free_value :: "hashtable \<Rightarrow> hashtable_item \<Rightarrow> hashtable" where
  "hashtable_free_value h item =
     (if callback_free_value h then h\<lparr>events := events h @ [CallFreeValue (it_key item) (it_value item)]\<rparr>
      else if type_values h = HASHTABLE_POINTER then h
      else case it_value item of
        None \<Rightarrow> h
      | Some v \<Rightarrow> h\<lparr>events := events h @ [FreeData v]\<rparr>)"

text \<open>The bucket of a key, and the number of items that the search passes in it.\<close>

definition hashtable_hash :: "hashtable \<Rightarrow> hdata \<Rightarrow> nat" where
  "hashtable_hash h key = unat (callback_hash_key h key mod word_of_nat (ht_size h))"

fun hashtable_walk :: "(hdata \<Rightarrow> hdata \<Rightarrow> int) \<Rightarrow> hdata \<Rightarrow> hashtable_item list \<Rightarrow> nat" where
  "hashtable_walk cmp key [] = 0"
| "hashtable_walk cmp key (item # items) =
     (if cmp key (it_key item) > 0 then Suc (hashtable_walk cmp key items) else 0)"

text \<open>The pointer returned is the bucket and the position of the item.\<close>

definition hashtable_set_with_size ::
  "hashtable \<Rightarrow> hdata option \<Rightarrow> int \<Rightarrow> hdata option \<Rightarrow> int \<Rightarrow> hashtable \<times> (nat \<times> nat) option" where
  "hashtable_set_with_size h key key_size val value_size =
     (case key of
        None \<Rightarrow> (h, None)
      | Some k \<Rightarrow>
          if (type_keys h = HASHTABLE_BUFFER \<and> key_size \<le> 0)
             \<or> (type_values h = HASHTABLE_BUFFER \<and> value_size \<le> 0)
          then (h, None)
          else let
            hash = hashtable_hash h k;
            bucket = htable h ! hash;
            pos = hashtable_walk (callback_keycmp h) k bucket
          in
            if pos < length bucket \<and> callback_keycmp h k (it_key (bucket ! pos)) = 0 then let
              ptr_item = bucket ! pos;
              h = hashtable_free_value h ptr_item;
              (val, size) = hashtable_alloc_type (type_values h) val value_size
            in (h\<lparr>htable := (htable h)[hash := bucket[pos :=
                   ptr_item\<lparr>it_value := val, it_value_size := size\<rparr>]]\<rparr>, Some (hash, pos))
            else let
              (new_key, new_key_size) = hashtable_copy (type_keys h) k key_size;
              (new_value, new_value_size) = hashtable_alloc_type (type_values h) val value_size;
              new_item = \<lparr>it_key = new_key, it_key_size = new_key_size,
                          it_value = new_value, it_value_size = new_value_size\<rparr>
            in (h\<lparr>htable := (htable h)[hash := take pos bucket @ new_item # drop pos bucket],
                   items_count := items_count h + 1\<rparr>, Some (hash, pos)))"

definition hashtable_set ::
  "hashtable \<Rightarrow> hdata option \<Rightarrow> hdata option \<Rightarrow> hashtable \<times> (nat \<times> nat) option" where
  "hashtable_set h key val = hashtable_set_with_size h key 0 val 0"

definition hashtable_get_item :: "hashtable \<Rightarrow> hdata option \<Rightarrow> (nat \<times> nat) option" where
  "hashtable_get_item h key =
     (case key of
        None \<Rightarrow> None
      | Some k \<Rightarrow> let
          hash = hashtable_hash h k;
          bucket = htable h ! hash;
          pos = hashtable_walk (callback_keycmp h) k bucket
        in
          if pos < length bucket \<and> callback_keycmp h k (it_key (bucket ! pos)) = 0
          then Some (hash, pos) else None)"

definition hashtable_get :: "hashtable \<Rightarrow> hdata option \<Rightarrow> hdata option" where
  "hashtable_get h key =
     (case hashtable_get_item h key of
        None \<Rightarrow> None
      | Some (hash, pos) \<Rightarrow> it_value (htable h ! hash ! pos))"

definition hashtable_has_key :: "hashtable \<Rightarrow> hdata option \<Rightarrow> bool" where
  "hashtable_has_key h key = (hashtable_get_item h key \<noteq> None)"

definition hashtable_remove_item :: "hashtable \<Rightarrow> (nat \<times> nat) option \<Rightarrow> hashtable" where
  "hashtable_remove_item h item =
     (case item of
        None \<Rightarrow> h
      | Some (hash, pos) \<Rightarrow> let
          bucket = htable h ! hash;
          h = hashtable_free_key (hashtable_free_value h (bucket ! pos)) (bucket ! pos)
        in h\<lparr>htable := (htable h)[hash := take pos bucket @ drop (Suc pos) bucket],
              items_count := items_count h - 1\<rparr>)"

definition hashtable_remove :: "hashtable \<Rightarrow> hdata option \<Rightarrow> hashtable" where
  "hashtable_remove h key =
     (case key of
        None \<Rightarrow> h
      | Some k \<Rightarrow> hashtable_remove_item h (hashtable_get_item h (Some k)))"

lemma hashtable_free_htable [simp]:
  "htable (hashtable_free_key h it) = htable h" "htable (hashtable_free_value h it) = htable h"
  by (simp_all add: hashtable_free_key_def hashtable_free_value_def split: option.split)

text \<open>The inner loop of \<open>hashtable_remove_all\<close>, on one bucket.\<close>

function hashtable_remove_bucket :: "hashtable \<Rightarrow> nat \<Rightarrow> hashtable" where
  "hashtable_remove_bucket h i =
     (if i < length (htable h) \<and> htable h ! i \<noteq> []
      then hashtable_remove_bucket (hashtable_remove_item h (Some (i, 0))) i
      else h)"
  by pat_completeness auto
termination
  by (relation "measure (\<lambda>(h, i). length (htable h ! i))")
    (auto simp: hashtable_remove_item_def Let_def)

declare hashtable_remove_bucket.simps [simp del]

definition hashtable_remove_all :: "hashtable \<Rightarrow> hashtable" where
  "hashtable_remove_all h = fold (\<lambda>i h. hashtable_remove_bucket h i) [0..<ht_size h] h"

text \<open>The callback of \<open>hashtable_map\<close> works on a state of its own.\<close>

definition hashtable_map :: "hashtable \<Rightarrow> (hdata \<Rightarrow> hdata option \<Rightarrow> 's \<Rightarrow> 's) \<Rightarrow> 's \<Rightarrow> 's" where
  "hashtable_map h callback_map st =
     fold (\<lambda>i st. fold (\<lambda>item st. callback_map (it_key item) (it_value item) st) (htable h ! i) st)
       [0..<ht_size h] st"

definition hashtable_type_name :: "hashtable_type \<Rightarrow> cstr" where
  "hashtable_type_name type =
     (case type of
        HASHTABLE_INTEGER \<Rightarrow> ''integer'' | HASHTABLE_STRING \<Rightarrow> ''string''
      | HASHTABLE_POINTER \<Rightarrow> ''pointer'' | HASHTABLE_BUFFER \<Rightarrow> ''buffer'' | HASHTABLE_TIME \<Rightarrow> ''time'')"

definition hashtable_duplicate_map_cb :: "hdata \<Rightarrow> hdata option \<Rightarrow> hashtable \<Rightarrow> hashtable" where
  "hashtable_duplicate_map_cb key val hashtable2 = fst (hashtable_set hashtable2 (Some key) val)"

definition hashtable_dup :: "hashtable \<Rightarrow> hashtable option" where
  "hashtable_dup h =
     (case hashtable_new (int (ht_size h)) (Some (hashtable_type_name (type_keys h)))
             (Some (hashtable_type_name (type_values h)))
             (Some (callback_hash_key h)) (Some (callback_keycmp h)) of
        None \<Rightarrow> None
      | Some new_hashtable \<Rightarrow>
          Some (hashtable_map h hashtable_duplicate_map_cb
            (new_hashtable\<lparr>callback_free_key := callback_free_key h,
                           callback_free_value := callback_free_value h\<rparr>)))"

definition hashtable_get_integer :: "hashtable \<Rightarrow> cstr option \<Rightarrow> int" where
  "hashtable_get_integer h property =
     (case property of
        None \<Rightarrow> 0
      | Some p \<Rightarrow>
          if string_strcasecmp (Some p) (Some ''size'') = 0 then int (ht_size h)
          else if string_strcasecmp (Some p) (Some ''items_count'') = 0 then items_count h
          else 0)"

definition hashtable_set_pointer :: "hashtable \<Rightarrow> cstr option \<Rightarrow> bool \<Rightarrow> hashtable" where
  "hashtable_set_pointer h property pointer =
     (case property of
        None \<Rightarrow> h
      | Some p \<Rightarrow>
          if string_strcasecmp (Some p) (Some ''callback_free_key'') = 0
          then h\<lparr>callback_free_key := pointer\<rparr>
          else if string_strcasecmp (Some p) (Some ''callback_free_value'') = 0
          then h\<lparr>callback_free_value := pointer\<rparr>
          else h)"

subsection \<open>Buckets\<close>

text \<open>
  The contract of the callbacks of a table: the comparison is an order and equal keys have the
  same hash.
\<close>

locale hash_callbacks = cmp_order cmp for cmp :: "hdata \<Rightarrow> hdata \<Rightarrow> int" +
  fixes hashf :: "hdata \<Rightarrow> 64 word"
  assumes hash_eq: "cmp x y = 0 \<Longrightarrow> hashf x = hashf y"

sublocale hash_callbacks \<subseteq> items: cmp_order "\<lambda>x y. cmp (it_key x) (it_key y)"
  by standard (rule cmp_sym, erule (1) cmp_trans)

lemma hashtable_walk_le: "hashtable_walk cmp k b \<le> length b"
  by (induction b) auto

lemma hashtable_walk_before: "j < hashtable_walk cmp k b \<Longrightarrow> 0 < cmp k (it_key (b ! j))"
proof (induction b arbitrary: j)
  case (Cons it b)
  then show ?case by (cases j) (auto split: if_splits)
qed simp

lemma hashtable_walk_at: "hashtable_walk cmp k b < length b \<Longrightarrow> cmp k (it_key (b ! hashtable_walk cmp k b)) \<le> 0"
  by (induction b) (auto split: if_splits)

text \<open>The abstract content of a table.\<close>

definition hashtable_items :: "hashtable \<Rightarrow> hashtable_item set" where
  "hashtable_items h = set (concat (htable h))"

definition hashtable_inv :: "hashtable \<Rightarrow> bool" where
  "hashtable_inv h \<longleftrightarrow>
     0 < ht_size h \<and> ht_size h < 2 ^ 31 \<and> length (htable h) = ht_size h \<and>
     (\<forall>i < ht_size h.
        cmp_distinct (\<lambda>x y. callback_keycmp h (it_key x) (it_key y)) (htable h ! i) \<and>
        (\<forall>it \<in> set (htable h ! i). hashtable_hash h (it_key it) = i)) \<and>
     items_count h = int (length (concat (htable h)))"

lemma hashtable_hash_less:
  assumes "0 < ht_size h" "ht_size h < 2 ^ 31"
  shows "hashtable_hash h k < ht_size h"
proof -
  have "unat (word_of_nat (ht_size h) :: 64 word) = ht_size h"
    using assms(2) by (simp add: unsigned_of_nat take_bit_nat_eq_self)
  then show ?thesis using assms(1) by (simp add: hashtable_hash_def unat_mod_distrib)
qed

lemma length_concat_upd:
  "i < length xss \<Longrightarrow> length (concat (xss[i := b])) + length (xss ! i) = length (concat xss) + length b"
  by (induction xss arbitrary: i) (auto split: nat.split)

context hash_callbacks
begin

abbreviation item_cmp :: "hashtable_item \<Rightarrow> hashtable_item \<Rightarrow> int" where
  "item_cmp x y \<equiv> cmp (it_key x) (it_key y)"

lemma walk_found:
  assumes "cmp_distinct item_cmp b" "j < length b" "cmp k (it_key (b ! j)) = 0"
  shows "hashtable_walk cmp k b = j"
proof (rule ccontr)
  let ?w = "hashtable_walk cmp k b"
  assume "?w \<noteq> j"
  then consider "j < ?w" | "?w < j" by linarith
  then show False
  proof cases
    case 1
    then show ?thesis using hashtable_walk_before [of j cmp k b] assms(3) by simp
  next
    case 2
    then have "item_cmp (b ! ?w) (b ! j) < 0"
      using assms(1,2) unfolding cmp_distinct_def by (simp add: sorted_wrt_iff_nth_less)
    moreover have "cmp k (it_key (b ! ?w)) \<le> 0" using 2 assms(2) by (intro hashtable_walk_at) simp
    ultimately show ?thesis using cmp_le_less_trans assms(3) by fastforce
  qed
qed

text \<open>The key at the position of the search cuts the bucket.\<close>

lemma walk_cut:
  fixes k :: hdata
  assumes "cmp_distinct item_cmp b"
  defines "w \<equiv> hashtable_walk cmp k b"
  shows "filter (\<lambda>it. 0 < cmp k (it_key it)) b = take w b"
    and "filter (\<lambda>it. cmp k (it_key it) < 0) b =
      drop (if w < length b \<and> cmp k (it_key (b ! w)) = 0 then Suc w else w) b"
proof -
  have le: "w \<le> length b" by (simp add: w_def hashtable_walk_le)
  have before: "0 < cmp k (it_key (b ! j))" if "j < w" for j
    using that hashtable_walk_before by (simp add: w_def)
  have after: "cmp k (it_key (b ! j)) < 0" if "w < j" "j < length b" for j
  proof -
    have "item_cmp (b ! w) (b ! j) < 0"
      using assms(1) that unfolding cmp_distinct_def by (simp add: sorted_wrt_iff_nth_less)
    moreover have "cmp k (it_key (b ! w)) \<le> 0" using that unfolding w_def by (intro hashtable_walk_at) simp
    ultimately show ?thesis using cmp_le_less_trans by blast
  qed
  have at: "cmp k (it_key (b ! w)) \<le> 0" if "w < length b" using that unfolding w_def by (rule hashtable_walk_at)
  show "filter (\<lambda>it. 0 < cmp k (it_key it)) b = take w b"
  proof (rule filter_cut)
    fix j assume "w \<le> j" "j < length b"
    then show "\<not> 0 < cmp k (it_key (b ! j))" using at after [of j] by (cases "j = w") auto
  qed (use le before in auto)
  show "filter (\<lambda>it. cmp k (it_key it) < 0) b =
      drop (if w < length b \<and> cmp k (it_key (b ! w)) = 0 then Suc w else w) b"
  proof (rule filter_cut_drop)
    fix j assume "(if w < length b \<and> cmp k (it_key (b ! w)) = 0 then Suc w else w) \<le> j" "j < length b"
    then show "cmp k (it_key (b ! j)) < 0" using at after [of j] by (cases "j = w") (auto split: if_splits)
  next
    fix j assume "j < (if w < length b \<and> cmp k (it_key (b ! w)) = 0 then Suc w else w)"
    then show "\<not> cmp k (it_key (b ! j)) < 0"
      using before [of j] by (cases "j = w") (auto split: if_splits)
  qed (use le in auto)
qed

lemma cmp_same: "cmp x y = 0 \<Longrightarrow> (0 < cmp x z \<longleftrightarrow> 0 < cmp y z) \<and> (cmp x z < 0 \<longleftrightarrow> cmp y z < 0)"
  by (metis cmp_0_iff cmp_le_iff cmp_less_iff cmp_trans cmp_le_less_trans order.refl not_le)

lemma bucket_replace:
  assumes "cmp_distinct item_cmp b" "cmp k (it_key x) = 0"
    and "w = hashtable_walk cmp k b"
  shows "(if w < length b \<and> cmp k (it_key (b ! w)) = 0 then b[w := x] else take w b @ x # drop w b)
    = ins_replace item_cmp x b"
proof -
  have f: "filter (\<lambda>it. 0 < item_cmp x it) b = filter (\<lambda>it. 0 < cmp k (it_key it)) b"
    "filter (\<lambda>it. item_cmp x it < 0) b = filter (\<lambda>it. cmp k (it_key it) < 0) b"
    using cmp_same [OF assms(2)] by simp_all
  show ?thesis
    unfolding ins_replace_def f walk_cut [OF assms(1), of k] assms(3) [symmetric]
    by (simp add: upd_conv_take_nth_drop)
qed

lemma bucket_remove:
  assumes "cmp_distinct item_cmp b" "w < length b" "cmp k (it_key (b ! w)) = 0"
    and "w = hashtable_walk cmp k b"
  shows "take w b @ drop (Suc w) b = filter (\<lambda>it. cmp k (it_key it) \<noteq> 0) b"
proof -
  have "cmp k (it_key (b ! j)) \<noteq> 0" if "j < length b" "j \<noteq> w" for j
    using walk_found [OF assms(1) that(1)] that(2) assms(4) by blast
  then have "\<forall>it\<in>set (take w b). cmp k (it_key it) \<noteq> 0" "\<forall>it\<in>set (drop (Suc w) b). cmp k (it_key it) \<noteq> 0"
    by (auto simp: in_set_conv_nth)
  then have "filter (\<lambda>it. cmp k (it_key it) \<noteq> 0) (take w b @ b ! w # drop (Suc w) b)
      = take w b @ drop (Suc w) b"
    using assms(3) by simp
  then show ?thesis using assms(2) by (simp add: id_take_nth_drop [symmetric])
qed

end

subsection \<open>Operations on the content\<close>

definition same_shape :: "hashtable \<Rightarrow> hashtable \<Rightarrow> bool" where
  "same_shape h h' \<longleftrightarrow> ht_size h' = ht_size h \<and> type_keys h' = type_keys h \<and>
     type_values h' = type_values h \<and> callback_hash_key h' = callback_hash_key h \<and>
     callback_keycmp h' = callback_keycmp h"

lemma same_shape_refl [simp]: "same_shape h h"
  by (simp add: same_shape_def)

lemma same_shape_trans: "same_shape h h' \<Longrightarrow> same_shape h' h'' \<Longrightarrow> same_shape h h''"
  by (simp add: same_shape_def)

lemma same_shape_hash: "same_shape h h' \<Longrightarrow> hashtable_hash h' = hashtable_hash h"
  by (simp add: same_shape_def hashtable_hash_def fun_eq_iff)

lemma hashtable_free_fields [simp]:
  "items_count (hashtable_free_key h it) = items_count h"
  "items_count (hashtable_free_value h it) = items_count h"
  "same_shape h (hashtable_free_key h' it) = same_shape h h'"
  "same_shape h (hashtable_free_value h' it) = same_shape h h'"
  by (simp_all add: hashtable_free_key_def hashtable_free_value_def same_shape_def split: option.split)

lemma same_shape_upd [simp]:
  "same_shape h (h'\<lparr>htable := t\<rparr>) = same_shape h h'"
  "same_shape h (h'\<lparr>items_count := c\<rparr>) = same_shape h h'"
  "same_shape h (h'\<lparr>events := e\<rparr>) = same_shape h h'"
  by (simp_all add: same_shape_def)

lemma hashtable_items_bucket:
  assumes "hashtable_inv h"
  shows "it \<in> hashtable_items h \<longleftrightarrow> it \<in> set (htable h ! hashtable_hash h (it_key it))"
proof
  assume "it \<in> hashtable_items h"
  then obtain b where "b \<in> set (htable h)" "it \<in> set b" by (auto simp: hashtable_items_def)
  then obtain i where "i < length (htable h)" "it \<in> set (htable h ! i)" by (metis in_set_conv_nth)
  then show "it \<in> set (htable h ! hashtable_hash h (it_key it))"
    using assms by (auto simp: hashtable_inv_def)
next
  assume "it \<in> set (htable h ! hashtable_hash h (it_key it))"
  moreover have "htable h ! hashtable_hash h (it_key it) \<in> set (htable h)"
    using assms hashtable_hash_less [of h "it_key it"] by (simp add: hashtable_inv_def)
  ultimately show "it \<in> hashtable_items h" by (auto simp: hashtable_items_def)
qed

lemma hashtable_inv_update:
  assumes inv: "hashtable_inv h" and shape: "same_shape h h'" and i: "i < ht_size h"
    and h': "htable h' = (htable h)[i := b]" "items_count h' = items_count h + int (length b) - int (length (htable h ! i))"
    and b: "cmp_distinct (\<lambda>x y. callback_keycmp h (it_key x) (it_key y)) b"
      "\<And>it. it \<in> set b \<Longrightarrow> hashtable_hash h (it_key it) = i"
  shows "hashtable_inv h'"
    and "it \<in> hashtable_items h' \<longleftrightarrow>
      (if hashtable_hash h (it_key it) = i then it \<in> set b else it \<in> hashtable_items h)"
proof -
  note hh = same_shape_hash [OF shape]
  have len: "length (htable h) = ht_size h" using inv by (simp add: hashtable_inv_def)
  have count: "items_count h' = int (length (concat (htable h')))"
    using inv h' i length_concat_upd [of i "htable h" b] by (simp add: hashtable_inv_def)
  show inv': "hashtable_inv h'"
    unfolding hashtable_inv_def
  proof (intro conjI allI impI)
    fix j assume j: "j < ht_size h'"
    have s: "ht_size h' = ht_size h" "callback_keycmp h' = callback_keycmp h"
      using shape by (simp_all add: same_shape_def)
    show "cmp_distinct (\<lambda>x y. callback_keycmp h' (it_key x) (it_key y)) (htable h' ! j)"
      using inv b(1) j s len by (cases "j = i") (auto simp: h' hashtable_inv_def)
    show "\<forall>it\<in>set (htable h' ! j). hashtable_hash h' (it_key it) = j"
      using inv b(2) j s len unfolding hh by (cases "j = i") (auto simp: h' hashtable_inv_def)
  qed (use inv shape count len in \<open>auto simp: hashtable_inv_def same_shape_def h'\<close>)
  show "it \<in> hashtable_items h' \<longleftrightarrow>
      (if hashtable_hash h (it_key it) = i then it \<in> set b else it \<in> hashtable_items h)"
    unfolding hashtable_items_bucket [OF inv'] hashtable_items_bucket [OF inv] hh
    using i len by (simp add: h'(1))
qed

context hash_callbacks
begin

definition uses :: "hashtable \<Rightarrow> bool" where
  "uses h \<longleftrightarrow> callback_keycmp h = cmp \<and> callback_hash_key h = hashf"

lemma hash_same: "uses h \<Longrightarrow> cmp x y = 0 \<Longrightarrow> hashtable_hash h x = hashtable_hash h y"
  using hash_eq [of x y] by (simp add: uses_def hashtable_hash_def)

lemma inv_bucket:
  assumes "hashtable_inv h" "uses h"
  shows "cmp_distinct item_cmp (htable h ! hashtable_hash h k)"
    and "\<And>it. it \<in> set (htable h ! hashtable_hash h k) \<Longrightarrow> hashtable_hash h (it_key it) = hashtable_hash h k"
    and "hashtable_hash h k < ht_size h"
  using assms hashtable_hash_less [of h k] by (auto simp: hashtable_inv_def uses_def)

lemma get_item_Some:
  assumes "hashtable_inv h" "uses h" "hashtable_get_item h (Some k) = Some (i, n)"
  shows "htable h ! i ! n \<in> hashtable_items h" "cmp k (it_key (htable h ! i ! n)) = 0"
proof -
  have g: "i = hashtable_hash h k" "n < length (htable h ! i)" "cmp k (it_key (htable h ! i ! n)) = 0"
    using assms(2,3) by (auto simp: hashtable_get_item_def Let_def uses_def split: if_splits)
  then show "cmp k (it_key (htable h ! i ! n)) = 0" by blast
  then show "htable h ! i ! n \<in> hashtable_items h"
    using g inv_bucket(2) [OF assms(1,2), where k = k and it = "htable h ! i ! n"] by (simp add: hashtable_items_bucket [OF assms(1)])
qed

lemma get_item_complete:
  assumes "hashtable_inv h" "uses h" "it \<in> hashtable_items h" "cmp k (it_key it) = 0"
  shows "\<exists>i n. hashtable_get_item h (Some k) = Some (i, n) \<and> htable h ! i ! n = it"
proof -
  let ?i = "hashtable_hash h k"
  have "it \<in> set (htable h ! ?i)"
    using assms(3) hash_same [OF assms(2,4)] by (simp add: hashtable_items_bucket [OF assms(1)])
  then obtain n where n: "n < length (htable h ! ?i)" "htable h ! ?i ! n = it"
    by (auto simp: in_set_conv_nth)
  have "hashtable_walk cmp k (htable h ! ?i) = n"
    using walk_found [OF inv_bucket(1) [OF assms(1,2)] n(1)] n(2) assms(4) by simp
  then show ?thesis using n assms(2,4) by (auto simp: hashtable_get_item_def Let_def uses_def)
qed

lemma items_unique:
  assumes "hashtable_inv h" "uses h" "x \<in> hashtable_items h" "y \<in> hashtable_items h"
    "cmp k (it_key x) = 0" "cmp k (it_key y) = 0"
  shows "x = y"
  using get_item_complete [OF assms(1,2,3,5)] get_item_complete [OF assms(1,2,4,6)] by auto

lemma get_eq:
  assumes "hashtable_inv h" "uses h" "it \<in> hashtable_items h" "cmp k (it_key it) = 0"
  shows "hashtable_get h (Some k) = it_value it" "hashtable_has_key h (Some k)"
  using get_item_complete [OF assms] by (auto simp: hashtable_get_def hashtable_has_key_def)

lemma get_none:
  assumes "hashtable_inv h" "uses h" "\<And>it. it \<in> hashtable_items h \<Longrightarrow> cmp k (it_key it) \<noteq> 0"
  shows "hashtable_get_item h (Some k) = None"
proof (cases "hashtable_get_item h (Some k)")
  case (Some p)
  then show ?thesis using get_item_Some [OF assms(1,2), of k "fst p" "snd p"] assms(3) by simp
qed

lemma set_items:
  assumes inv: "hashtable_inv h" and us: "uses h"
    and ok: "type_keys h = HASHTABLE_BUFFER \<longrightarrow> 0 < ksize" "type_values h = HASHTABLE_BUFFER \<longrightarrow> 0 < vsize"
    and copy: "cmp k (fst (hashtable_copy (type_keys h) k ksize)) = 0"
    and h': "h' = fst (hashtable_set_with_size h (Some k) ksize v vsize)"
  shows "hashtable_inv h' \<and> uses h' \<and> same_shape h h' \<and>
    (\<exists>x. cmp k (it_key x) = 0 \<and> it_value x = fst (hashtable_alloc_type (type_values h) v vsize) \<and>
      (it_key x = fst (hashtable_copy (type_keys h) k ksize) \<or> it_key x \<in> it_key ` hashtable_items h) \<and>
      hashtable_items h' = insert x {it \<in> hashtable_items h. cmp k (it_key it) \<noteq> 0})"
proof -
  let ?i = "hashtable_hash h k"
  let ?b = "htable h ! ?i"
  define w where "w = hashtable_walk cmp k ?b"
  note ib = inv_bucket [OF inv us, where k = k]
  obtain val vs where al: "hashtable_alloc_type (type_values h) v vsize = (val, vs)" by (metis surj_pair)
  obtain nk ns where co: "hashtable_copy (type_keys h) k ksize = (nk, ns)" by (metis surj_pair)
  define x where "x = (if w < length ?b \<and> cmp k (it_key (?b ! w)) = 0
    then (?b ! w)\<lparr>it_value := val, it_value_size := vs\<rparr>
    else \<lparr>it_key = nk, it_key_size = ns, it_value = val, it_value_size = vs\<rparr>)"
  have x: "cmp k (it_key x) = 0" "it_value x = val" using copy co by (simp_all add: x_def)
  define b where "b = ins_replace item_cmp x ?b"
  have b: "b = (if w < length ?b \<and> cmp k (it_key (?b ! w)) = 0 then ?b[w := x] else take w ?b @ x # drop w ?b)"
    unfolding b_def by (rule bucket_replace [OF ib(1) x(1) w_def, symmetric])
  have tv: "type_values (hashtable_free_value h y) = type_values h" for y
    by (simp add: hashtable_free_value_def split: option.split)
  have shape: "same_shape h h'" and ht: "htable h' = (htable h)[?i := b]"
    and cnt: "items_count h' = items_count h + int (length b) - int (length ?b)"
    using us ok al co tv hashtable_walk_le [of cmp k ?b] unfolding h' b
    by (auto simp: hashtable_set_with_size_def Let_def uses_def w_def [symmetric] x_def split: prod.split)
  have us': "uses h'" using us shape by (simp add: uses_def same_shape_def)
  have cmpd: "cmp_distinct (\<lambda>x y. callback_keycmp h (it_key x) (it_key y)) b"
    using us items.distinct_ordered_ins_replace [OF ib(1)] by (simp add: uses_def b_def)
  have setb: "set b = insert x {it \<in> set ?b. cmp k (it_key it) \<noteq> 0}"
  proof -
    have "item_cmp x it \<noteq> 0 \<longleftrightarrow> cmp k (it_key it) \<noteq> 0" for it
      using cmp_same [OF x(1), of "it_key it"] by linarith
    then show ?thesis unfolding b_def by (simp add: items.set_ins_replace)
  qed
  have hx: "hashtable_hash h (it_key x) = ?i" using hash_same [OF us x(1)] by simp
  have hb: "hashtable_hash h (it_key it) = ?i" if "it \<in> set b" for it
    using that ib(2) hx by (auto simp: setb)
  note up = hashtable_inv_update [OF inv shape ib(3) ht cnt cmpd hb]
  have "it \<in> hashtable_items h' \<longleftrightarrow> it \<in> insert x {it \<in> hashtable_items h. cmp k (it_key it) \<noteq> 0}" for it
    using up(2) [of it] hashtable_items_bucket [OF inv, of it] hash_same [OF us, of k "it_key it"] hx
    by (auto simp: setb)
  moreover have "it_key x = fst (hashtable_copy (type_keys h) k ksize) \<or> it_key x \<in> it_key ` hashtable_items h"
  proof (cases "w < length ?b \<and> cmp k (it_key (?b ! w)) = 0")
    case True
    then have "?b ! w \<in> hashtable_items h"
      using hashtable_items_bucket [OF inv, of "?b ! w"] ib(2) [of "?b ! w"] by simp
    then show ?thesis using True by (auto simp: x_def)
  next
    case False
    then have "it_key x = nk" by (auto simp: x_def)
    then show ?thesis by (simp add: co)
  qed
  ultimately show ?thesis using up(1) us' shape x al by (auto intro!: exI [of _ x])
qed

lemma remove_items:
  assumes inv: "hashtable_inv h" and us: "uses h" and h': "h' = hashtable_remove h (Some k)"
  shows "hashtable_inv h' \<and> uses h' \<and> same_shape h h' \<and>
    hashtable_items h' = {it \<in> hashtable_items h. cmp k (it_key it) \<noteq> 0}"
proof (cases "hashtable_get_item h (Some k)")
  case None
  then have "cmp k (it_key it) \<noteq> 0" if "it \<in> hashtable_items h" for it
    using get_item_complete [OF inv us that, of k] by auto
  then show ?thesis using None inv us by (auto simp: h' hashtable_remove_def hashtable_remove_item_def)
next
  case (Some p)
  let ?i = "hashtable_hash h k"
  let ?b = "htable h ! ?i"
  define w where "w = hashtable_walk cmp k ?b"
  note ib = inv_bucket [OF inv us, where k = k]
  have w: "w < length ?b" "cmp k (it_key (?b ! w)) = 0" "p = (?i, w)"
    using Some us by (auto simp: hashtable_get_item_def Let_def uses_def w_def split: if_splits)
  define b where "b = filter (\<lambda>it. cmp k (it_key it) \<noteq> 0) ?b"
  have b: "take w ?b @ drop (Suc w) ?b = b"
    unfolding b_def by (rule bucket_remove [OF ib(1) w(1,2) w_def])
  have lb: "length b = length ?b - 1" using w(1) by (simp add: b [symmetric])
  have shape: "same_shape h h'" and ht: "htable h' = (htable h)[?i := b]"
    and cnt: "items_count h' = items_count h + int (length b) - int (length ?b)"
    using Some w(1) lb b
    by (auto simp: h' hashtable_remove_def hashtable_remove_item_def w(3) Let_def)
  have us': "uses h'" using us shape by (simp add: uses_def same_shape_def)
  have cmpd: "cmp_distinct (\<lambda>x y. callback_keycmp h (it_key x) (it_key y)) b"
    using us ib(1) by (auto simp: uses_def b_def cmp_distinct_def sorted_wrt_filter)
  have hb: "hashtable_hash h (it_key it) = ?i" if "it \<in> set b" for it
    using that ib(2) by (auto simp: b_def)
  note up = hashtable_inv_update [OF inv shape ib(3) ht cnt cmpd hb]
  have "it \<in> hashtable_items h' \<longleftrightarrow> it \<in> {it \<in> hashtable_items h. cmp k (it_key it) \<noteq> 0}" for it
    using up(2) [of it] hashtable_items_bucket [OF inv, of it] hash_same [OF us, of k "it_key it"]
    by (auto simp: b_def)
  then show ?thesis using up(1) us' shape by auto
qed

end

subsection \<open>A table as a map\<close>

definition hashtable_abs :: "hashtable \<Rightarrow> hdata \<Rightarrow> hdata option option" where
  "hashtable_abs h k = map_option (\<lambda>(i, n). it_value (htable h ! i ! n)) (hashtable_get_item h (Some k))"

lemma hashtable_get_abs: "hashtable_get h (Some k) = (case hashtable_abs h k of None \<Rightarrow> None | Some v \<Rightarrow> v)"
  by (simp add: hashtable_get_def hashtable_abs_def split: option.split prod.split)

lemma hashtable_has_key_abs: "hashtable_has_key h (Some k) \<longleftrightarrow> hashtable_abs h k \<noteq> None"
  by (simp add: hashtable_has_key_def hashtable_abs_def)

context hash_callbacks
begin

lemma abs_Some:
  assumes "hashtable_inv h" "uses h" "it \<in> hashtable_items h" "cmp k (it_key it) = 0"
  shows "hashtable_abs h k = Some (it_value it)"
  using get_item_complete [OF assms] by (auto simp: hashtable_abs_def)

lemma abs_None:
  assumes "hashtable_inv h" "uses h"
  shows "hashtable_abs h k = None \<longleftrightarrow> (\<forall>it \<in> hashtable_items h. cmp k (it_key it) \<noteq> 0)"
  using abs_Some [OF assms, of _ k] get_none [OF assms, of k] by (auto simp: hashtable_abs_def)

lemma set_abs:
  assumes inv: "hashtable_inv h" and us: "uses h"
    and ok: "type_keys h = HASHTABLE_BUFFER \<longrightarrow> 0 < ksize" "type_values h = HASHTABLE_BUFFER \<longrightarrow> 0 < vsize"
    and copy: "cmp k (fst (hashtable_copy (type_keys h) k ksize)) = 0"
    and h': "h' = fst (hashtable_set_with_size h (Some k) ksize v vsize)"
  shows "hashtable_abs h' k' = (if cmp k' k = 0 then Some (fst (hashtable_alloc_type (type_values h) v vsize))
    else hashtable_abs h k')"
proof -
  from set_items [OF assms] obtain x where inv': "hashtable_inv h'" "uses h'"
    and x: "cmp k (it_key x) = 0" "it_value x = fst (hashtable_alloc_type (type_values h) v vsize)"
    and it: "hashtable_items h' = insert x {it \<in> hashtable_items h. cmp k (it_key it) \<noteq> 0}" by blast
  show ?thesis
  proof (cases "cmp k' k = 0")
    case True
    then have "cmp k' (it_key x) = 0" using cmp_eq_trans x(1) by blast
    with abs_Some [OF inv', of x k'] show ?thesis using True x(2) it by simp
  next
    case False
    have eq: "y \<in> hashtable_items h' \<longleftrightarrow> y \<in> hashtable_items h" if "cmp k' (it_key y) = 0" for y
    proof -
      have "cmp k (it_key y) \<noteq> 0" using that False cmp_eq_trans cmp_0_iff by blast
      then show ?thesis using x(1) by (auto simp: it)
    qed
    show ?thesis
    proof (cases "hashtable_abs h k'")
      case (Some v)
      then obtain y where found: "y \<in> hashtable_items h" "cmp k' (it_key y) = 0"
        using abs_None [OF inv us, of k'] by auto
      then show ?thesis using abs_Some [OF inv', of y k'] abs_Some [OF inv us, of y k'] eq False by simp
    next
      case None
      then have "cmp k' (it_key y) \<noteq> 0" if "y \<in> hashtable_items h'" for y
        using abs_None [OF inv us, of k'] eq [of y] that by auto
      then have "hashtable_abs h' k' = None" using abs_None [OF inv', of k'] by blast
      then show ?thesis using None False by simp
    qed
  qed
qed

lemma remove_abs:
  assumes inv: "hashtable_inv h" and us: "uses h" and h': "h' = hashtable_remove h (Some k)"
  shows "hashtable_abs h' k' = (if cmp k' k = 0 then None else hashtable_abs h k')"
proof -
  from remove_items [OF assms] have inv': "hashtable_inv h'" "uses h'"
    and it: "hashtable_items h' = {it \<in> hashtable_items h. cmp k (it_key it) \<noteq> 0}" by blast+
  show ?thesis
  proof (cases "cmp k' k = 0")
    case True
    then have "cmp k' (it_key y) \<noteq> 0" if "y \<in> hashtable_items h'" for y
      using that cmp_eq_trans [of k k' "it_key y"] cmp_0_iff [of k' k] by (auto simp: it)
    with abs_None [OF inv', of k'] show ?thesis using True by auto
  next
    case False
    have eq: "y \<in> hashtable_items h' \<longleftrightarrow> y \<in> hashtable_items h" if "cmp k' (it_key y) = 0" for y
    proof -
      have "cmp k (it_key y) \<noteq> 0" using that False cmp_eq_trans cmp_0_iff by blast
      then show ?thesis by (auto simp: it)
    qed
    show ?thesis
    proof (cases "hashtable_abs h k'")
      case (Some v)
      then obtain y where found: "y \<in> hashtable_items h" "cmp k' (it_key y) = 0"
        using abs_None [OF inv us, of k'] by auto
      then show ?thesis using abs_Some [OF inv', of y k'] abs_Some [OF inv us, of y k'] eq False by simp
    next
      case None
      then have "cmp k' (it_key y) \<noteq> 0" if "y \<in> hashtable_items h'" for y
        using abs_None [OF inv us, of k'] eq [of y] that by auto
      then have "hashtable_abs h' k' = None" using abs_None [OF inv', of k'] by blast
      then show ?thesis using None False by simp
    qed
  qed
qed

end

subsection \<open>The default callbacks fulfil the contract\<close>

lemma three_way_order: "cmp_order (\<lambda>x y. three_way (f x) (f y))"
  by standard (auto simp: three_way_def split: if_splits)

lemma strcmp_order: "cmp_order (\<lambda>x y. strcmp (f x) (f y))"
  by standard (rule strcmp.cmp_sym, erule (1) strcmp.cmp_trans)

interpretation default_cb: hash_callbacks "hashtable_keycmp_default_cb ty" "hashtable_hash_key_default_cb ty" for ty
proof (rule hash_callbacks.intro)
  show "cmp_order (hashtable_keycmp_default_cb ty)"
  proof (cases ty)
    case HASHTABLE_STRING
    then show ?thesis using strcmp_order [of hstring]
      by (simp add: hashtable_keycmp_default_cb_def [abs_def])
  next
    case HASHTABLE_BUFFER
    then show ?thesis by unfold_locales (simp_all add: hashtable_keycmp_default_cb_def)
  qed (simp_all add: hashtable_keycmp_default_cb_def [abs_def] three_way_order)
  show "hash_callbacks_axioms (hashtable_keycmp_default_cb ty) (hashtable_hash_key_default_cb ty)"
    by standard
      (auto simp: hashtable_keycmp_default_cb_def hashtable_hash_key_default_cb_def three_way_def
        split: hashtable_type.splits if_splits)
qed

text \<open>Data of the type of the table; two such keys are equal exactly when they compare as equal.\<close>

fun hdata_ok :: "hashtable_type \<Rightarrow> hdata \<Rightarrow> bool" where
  "hdata_ok HASHTABLE_INTEGER (HInt i) = True"
| "hdata_ok HASHTABLE_STRING (HString s) = True"
| "hdata_ok HASHTABLE_POINTER (HPointer p) = True"
| "hdata_ok HASHTABLE_BUFFER (HBuffer b) = True"
| "hdata_ok HASHTABLE_TIME (HTime t) = True"
| "hdata_ok _ _ = False"

fun_cases hdata_okE: "hdata_ok ty d"

lemma hashtable_copy_ok:
  "hdata_ok ty d \<Longrightarrow> ty \<noteq> HASHTABLE_BUFFER \<Longrightarrow> fst (hashtable_copy ty d n) = d"
  by (cases ty; cases d) (auto simp: hashtable_copy_def)

lemma keycmp_default_eq:
  "hdata_ok ty a \<Longrightarrow> hdata_ok ty b \<Longrightarrow> ty \<noteq> HASHTABLE_BUFFER
    \<Longrightarrow> hashtable_keycmp_default_cb ty a b = 0 \<longleftrightarrow> a = b"
  by (cases ty; cases a; cases b) (auto simp: hashtable_keycmp_default_cb_def three_way_def)

lemma keycmp_default_copy: "ty \<noteq> HASHTABLE_BUFFER \<Longrightarrow> hashtable_keycmp_default_cb ty k (fst (hashtable_copy ty k n)) = 0"
  by (cases ty) (auto simp: hashtable_keycmp_default_cb_def three_way_def hashtable_copy_def)

text \<open>Removal of all items.\<close>

lemma remove_bucket:
  assumes "i < length (htable h)" "h' = hashtable_remove_bucket h i"
  shows "same_shape h h' \<and> htable h' = (htable h)[i := []] \<and>
    items_count h' = items_count h - int (length (htable h ! i))"
  using assms
proof (induction h i arbitrary: h' rule: hashtable_remove_bucket.induct)
  case (1 h i)
  let ?g = "hashtable_remove_item h (Some (i, 0))"
  show ?case
  proof (cases "htable h ! i = []")
    case True
    then have "h' = h" unfolding 1(3) by (subst hashtable_remove_bucket.simps) simp
    moreover have "(htable h)[i := []] = htable h" using True by (metis list_update_id)
    ultimately show ?thesis using True by simp
  next
    case False
    have g: "same_shape h ?g" "htable ?g = (htable h)[i := tl (htable h ! i)]" "items_count ?g = items_count h - 1"
      by (simp_all add: hashtable_remove_item_def Let_def drop_Suc)
    have "h' = hashtable_remove_bucket ?g i"
      unfolding 1(3) using 1(2) False by (subst hashtable_remove_bucket.simps) simp
    moreover have "i < length (htable h) \<and> htable h ! i \<noteq> []" using 1(2) False by simp
    ultimately have r: "same_shape ?g h'" "htable h' = (htable ?g)[i := []]"
      "items_count h' = items_count ?g - int (length (htable ?g ! i))"
      using 1(1) [of h'] 1(2) g(2) by simp_all
    have "int (length (htable ?g ! i)) = int (length (htable h ! i)) - 1"
      using 1(2) False g(2) by (cases "htable h ! i") simp_all
    then show ?thesis using r g same_shape_trans [OF g(1) r(1)] by (simp add: g(2))
  qed
qed

lemma remove_buckets:
  assumes "n \<le> length (htable h)" "h' = fold (\<lambda>i h. hashtable_remove_bucket h i) [0..<n] h"
  shows "same_shape h h' \<and> htable h' = replicate n [] @ drop n (htable h) \<and>
    items_count h' = items_count h - int (length (concat (take n (htable h))))"
  using assms
proof (induction n arbitrary: h')
  case (Suc n)
  define g where "g = fold (\<lambda>i h. hashtable_remove_bucket h i) [0..<n] h"
  have g: "same_shape h g" "htable g = replicate n [] @ drop n (htable h)"
    "items_count g = items_count h - int (length (concat (take n (htable h))))"
    using Suc.IH [OF _ g_def] Suc.prems(1) by auto
  have h': "h' = hashtable_remove_bucket g n" using Suc.prems(2) by (simp add: g_def)
  have n: "n < length (htable g)" "htable g ! n = htable h ! n" using g(2) Suc.prems(1) by (auto simp: nth_append)
  from remove_bucket [OF n(1) h'] have r: "same_shape g h'" "htable h' = (htable g)[n := []]"
    "items_count h' = items_count g - int (length (htable h ! n))" unfolding n(2) by auto
  have "(replicate n [] @ drop n (htable h))[n := []] = replicate (Suc n) [] @ drop (Suc n) (htable h)"
    using Suc.prems(1) by (simp add: list_update_append Cons_nth_drop_Suc [symmetric] replicate_append_same [symmetric])
  moreover have "concat (take (Suc n) (htable h)) = concat (take n (htable h)) @ htable h ! n"
    using Suc.prems(1) by (simp add: take_Suc_conv_app_nth)
  ultimately show ?case using r g by (auto intro: same_shape_trans)
qed simp

lemma hashtable_remove_all_empty:
  assumes "hashtable_inv h" "h' = hashtable_remove_all h"
  shows "same_shape h h' \<and> htable h' = replicate (ht_size h) [] \<and> items_count h' = 0"
  using remove_buckets [of "ht_size h" h h'] assms
  by (simp add: hashtable_remove_all_def hashtable_inv_def)

lemma hashtable_inv_empty:
  assumes "0 < ht_size h" "ht_size h < 2 ^ 31" "htable h = replicate (ht_size h) []" "items_count h = 0"
  shows "hashtable_inv h" "hashtable_items h = {}"
  using assms by (auto simp: hashtable_inv_def hashtable_items_def cmp_distinct_def)

text \<open>The values that a table of the type holds.\<close>

definition hvalue_ok :: "hashtable_type \<Rightarrow> hdata option \<Rightarrow> bool" where
  "hvalue_ok ty v = (case v of None \<Rightarrow> True | Some d \<Rightarrow> hdata_ok ty d)"

lemma hashtable_alloc_ok:
  "hvalue_ok ty v \<Longrightarrow> ty \<noteq> HASHTABLE_BUFFER \<Longrightarrow> fst (hashtable_alloc_type ty v n) = v"
  by (cases v) (simp_all add: hashtable_alloc_type_def hvalue_ok_def hashtable_copy_ok)

subsection \<open>Reachable tables\<close>

text \<open>
  A table with the default callbacks, changed by the operations with keys of its type; a table
  of the type buffer has callbacks of its own.
\<close>

inductive hashtable_reachable :: "hashtable \<Rightarrow> bool" where
  new: "hashtable_new sz tk tv None None = Some h \<Longrightarrow> sz < 2 ^ 31 \<Longrightarrow> hashtable_reachable h"
| set: "hashtable_reachable h \<Longrightarrow> hdata_ok (type_keys h) k \<Longrightarrow> hvalue_ok (type_values h) v
    \<Longrightarrow> hashtable_reachable (fst (hashtable_set_with_size h (Some k) ksize v vsize))"
| remove: "hashtable_reachable h \<Longrightarrow> hashtable_reachable (hashtable_remove h (Some k))"
| remove_all: "hashtable_reachable h \<Longrightarrow> hashtable_reachable (hashtable_remove_all h)"
| set_pointer: "hashtable_reachable h \<Longrightarrow> hashtable_reachable (hashtable_set_pointer h property pointer)"

inductive_cases hashtable_reachableE: "hashtable_reachable h"

definition default_table :: "hashtable \<Rightarrow> bool" where
  "default_table h \<longleftrightarrow> hashtable_inv h \<and> type_keys h \<noteq> HASHTABLE_BUFFER \<and>
     callback_keycmp h = hashtable_keycmp_default_cb (type_keys h) \<and>
     callback_hash_key h = hashtable_hash_key_default_cb (type_keys h)"

lemma default_table_uses: "default_table h \<Longrightarrow> hashtable_inv h \<and> default_cb.uses (type_keys h) h"
  by (simp add: default_table_def default_cb.uses_def)

lemma default_table_same:
  "default_table h \<Longrightarrow> same_shape h h' \<Longrightarrow> hashtable_inv h' \<Longrightarrow> default_table h'"
  by (simp add: default_table_def same_shape_def)

lemma default_table_new:
  assumes "hashtable_new sz tk tv None None = Some h" "sz < 2 ^ 31"
  shows "default_table h" "hashtable_items h = {}"
proof -
  have h: "0 < ht_size h" "ht_size h < 2 ^ 31" "htable h = replicate (ht_size h) []" "items_count h = 0"
    and cb: "type_keys h \<noteq> HASHTABLE_BUFFER" "callback_keycmp h = hashtable_keycmp_default_cb (type_keys h)"
      "callback_hash_key h = hashtable_hash_key_default_cb (type_keys h)"
    using assms by (auto simp: hashtable_new_def split: if_splits option.splits)
  show "default_table h" "hashtable_items h = {}"
    using hashtable_inv_empty [OF h] cb by (simp_all add: default_table_def)
qed

lemma default_table_set_fails:
  "hashtable_set_with_size h key ksize v vsize = (h, None) \<or>
   (\<exists>k. key = Some k \<and> (type_keys h = HASHTABLE_BUFFER \<longrightarrow> 0 < ksize) \<and> (type_values h = HASHTABLE_BUFFER \<longrightarrow> 0 < vsize))"
  by (cases key) (auto simp: hashtable_set_with_size_def)

lemma default_table_set:
  assumes "default_table h"
  shows "default_table (fst (hashtable_set_with_size h (Some k) ksize v vsize))
    \<and> same_shape h (fst (hashtable_set_with_size h (Some k) ksize v vsize))"
  using default_table_set_fails [of h "Some k" ksize v vsize]
proof (elim disjE exE conjE)
  fix k' assume "Some k = Some k'" "type_keys h = HASHTABLE_BUFFER \<longrightarrow> 0 < ksize"
    "type_values h = HASHTABLE_BUFFER \<longrightarrow> 0 < vsize"
  then show ?thesis
    using default_cb.set_items [of h "type_keys h" ksize vsize k _ v] default_table_uses [OF assms]
      default_table_same [OF assms] keycmp_default_copy [of "type_keys h" k ksize] assms
    by (auto simp: default_table_def)
qed (use assms in simp)

lemma default_table_remove:
  assumes "default_table h"
  shows "default_table (hashtable_remove h (Some k)) \<and> same_shape h (hashtable_remove h (Some k))"
  using default_cb.remove_items [of h "type_keys h" _ k] default_table_uses [OF assms]
    default_table_same [OF assms] by blast

lemma default_table_remove_all:
  assumes "default_table h" "h' = hashtable_remove_all h"
  shows "default_table h'" "hashtable_items h' = {}" "same_shape h h'"
proof -
  have inv: "hashtable_inv h" using assms(1) by (simp add: default_table_def)
  note r = hashtable_remove_all_empty [OF inv assms(2)]
  then have "hashtable_inv h' \<and> hashtable_items h' = {}"
    using inv hashtable_inv_empty [of h'] by (simp add: hashtable_inv_def same_shape_def)
  then show "default_table h'" "hashtable_items h' = {}" "same_shape h h'"
    using default_table_same [OF assms(1)] r by auto
qed

lemma default_table_set_pointer:
  "default_table h \<Longrightarrow> default_table (hashtable_set_pointer h property pointer)"
  by (rule default_table_same)
    (auto simp: hashtable_set_pointer_def same_shape_def default_table_def hashtable_inv_def hashtable_hash_def
      split: option.split)

lemma hashtable_reachable_default: "hashtable_reachable h \<Longrightarrow> default_table h"
  by (induction rule: hashtable_reachable.induct)
    (auto dest: default_table_new(1) default_table_set default_table_remove default_table_remove_all(1)
      default_table_set_pointer)

text \<open>
  Claim C14.  In every table that the operations can build the buckets are sorted, without
  duplicates, and hold the keys of their hash, and the count of items is the number of items.
\<close>

theorem hashtable_reachable_inv:
  assumes "hashtable_reachable h"
  shows "hashtable_inv h"
  using hashtable_reachable_default [OF assms] by (simp add: default_table_def)

definition hashtable_example :: hashtable where
  "hashtable_example = fst (hashtable_set (the (hashtable_new 8 (Some ''string'') (Some ''integer'') None None))
     (Some (HString ''weechat'')) (Some (HInt 1)))"

lemma hashtable_example_new:
  "\<exists>h. hashtable_new 8 (Some ''string'') (Some ''integer'') None None = Some h \<and>
    type_keys h = HASHTABLE_STRING \<and> type_values h = HASHTABLE_INTEGER"
proof -
  have "hashtable_get_type (Some ''string'') = Some HASHTABLE_STRING"
    "hashtable_get_type (Some ''integer'') = Some HASHTABLE_INTEGER"
    by (simp_all add: hashtable_get_type_def hashtable_type_string_def strcasecmp_literal)
  then show ?thesis by (simp add: hashtable_new_def)
qed

lemma hashtable_example_reachable:
  "hashtable_reachable hashtable_example \<and> type_keys hashtable_example = HASHTABLE_STRING \<and>
    type_values hashtable_example = HASHTABLE_INTEGER"
proof -
  obtain h where h: "hashtable_new 8 (Some ''string'') (Some ''integer'') None None = Some h"
    "type_keys h = HASHTABLE_STRING" "type_values h = HASHTABLE_INTEGER" using hashtable_example_new by auto
  have r: "hashtable_reachable h" by (rule hashtable_reachable.new [OF h(1)]) simp
  have "hashtable_reachable hashtable_example"
    using hashtable_reachable.set [OF r, of "HString ''weechat''" "Some (HInt 1)" 0 0] h
    by (simp add: hashtable_example_def hashtable_set_def hvalue_ok_def)
  moreover have "same_shape h hashtable_example"
    using default_table_set [OF hashtable_reachable_default [OF r]] h by (simp add: hashtable_example_def hashtable_set_def)
  ultimately show ?thesis using h by (simp add: same_shape_def)
qed

theorem hashtable_reachable_inv_witness: "hashtable_inv hashtable_example"
  by (rule hashtable_reachable_inv) (rule hashtable_example_reachable [THEN conjunct1])

text \<open>
  Claim C13.  A table is a map from keys to values: after \<open>hashtable_set\<close> the key has the value
  that was copied and every other key what it had, after \<open>hashtable_remove\<close> the key has none and
  every other key what it had, after \<open>hashtable_remove_all\<close> no key has one.
\<close>

theorem hashtable_refines_map:
  assumes "hashtable_reachable h" "hdata_ok (type_keys h) k" "hdata_ok (type_keys h) k'"
    and "type_values h = HASHTABLE_BUFFER \<longrightarrow> 0 < vsize"
  shows "hashtable_abs (fst (hashtable_set_with_size h (Some k) ksize v vsize)) k'
      = ((hashtable_abs h)(k \<mapsto> fst (hashtable_alloc_type (type_values h) v vsize))) k' \<and>
    hashtable_abs (hashtable_remove h (Some k)) k' = ((hashtable_abs h)(k := None)) k' \<and>
    hashtable_abs (hashtable_remove_all h) k' = None"
proof -
  have d: "default_table h" by (rule hashtable_reachable_default [OF assms(1)])
  have nb: "type_keys h \<noteq> HASHTABLE_BUFFER" using d by (simp add: default_table_def)
  note u = default_table_uses [OF d]
  have eq: "hashtable_keycmp_default_cb (type_keys h) k' k = 0 \<longleftrightarrow> k' = k"
    by (rule keycmp_default_eq [OF assms(3,2) nb])
  note s = default_cb.set_abs [OF conjunct1 [OF u] conjunct2 [OF u] _ assms(4) keycmp_default_copy [OF nb] refl,
      of ksize k v k']
  have 1: "hashtable_abs (fst (hashtable_set_with_size h (Some k) ksize v vsize)) k'
      = ((hashtable_abs h)(k \<mapsto> fst (hashtable_alloc_type (type_values h) v vsize))) k'"
    using s nb unfolding eq by simp
  have 2: "hashtable_abs (hashtable_remove h (Some k)) k' = ((hashtable_abs h)(k := None)) k'"
    using default_cb.remove_abs [OF conjunct1 [OF u] conjunct2 [OF u] refl, of k k'] unfolding eq by simp
  note r = default_table_remove_all [OF d refl]
  have "hashtable_inv (hashtable_remove_all h) \<and> default_cb.uses (type_keys h) (hashtable_remove_all h)"
    using default_table_uses [OF r(1)] r(3) by (simp add: same_shape_def)
  then have 3: "hashtable_abs (hashtable_remove_all h) k' = None"
    using default_cb.abs_None [of _ "type_keys h"] r(2) by simp
  show ?thesis using 1 2 3 by blast
qed

theorem hashtable_refines_map_witness:
  "hashtable_abs (fst (hashtable_set_with_size hashtable_example (Some (HString ''irc'')) 0 (Some (HInt 2)) 0))
      (HString ''weechat'')
      = ((hashtable_abs hashtable_example)(HString ''irc'' \<mapsto>
           fst (hashtable_alloc_type (type_values hashtable_example) (Some (HInt 2)) 0))) (HString ''weechat'') \<and>
    hashtable_abs (hashtable_remove hashtable_example (Some (HString ''irc''))) (HString ''weechat'')
      = ((hashtable_abs hashtable_example)(HString ''irc'' := None)) (HString ''weechat'') \<and>
    hashtable_abs (hashtable_remove_all hashtable_example) (HString ''weechat'') = None"
  by (rule hashtable_refines_map) (simp_all add: hashtable_example_reachable)

subsection \<open>Memory\<close>

text \<open>The data that an item owns, and the data that were freed.\<close>

definition owned_data :: "hashtable \<Rightarrow> hashtable_item \<Rightarrow> hdata multiset" where
  "owned_data h it =
     (if type_keys h = HASHTABLE_POINTER \<and> \<not> callback_free_key h then {#} else {#it_key it#}) +
     (if type_values h = HASHTABLE_POINTER \<and> \<not> callback_free_value h then {#}
      else case it_value it of None \<Rightarrow> {#} | Some v \<Rightarrow> {#v#})"

fun freed_data :: "hashtable_event \<Rightarrow> hdata multiset" where
  "freed_data (CallFreeKey k) = {#k#}"
| "freed_data (CallFreeValue k v) = (case v of None \<Rightarrow> {#} | Some d \<Rightarrow> {#d#})"
| "freed_data (FreeData d) = {#d#}"

definition hashtable_account :: "hashtable \<Rightarrow> hdata multiset" where
  "hashtable_account h =
     sum_list (map (owned_data h) (concat (htable h))) + sum_list (map freed_data (events h))"

definition same_free :: "hashtable \<Rightarrow> hashtable \<Rightarrow> bool" where
  "same_free h h' \<longleftrightarrow> type_keys h' = type_keys h \<and> type_values h' = type_values h \<and>
     callback_free_key h' = callback_free_key h \<and> callback_free_value h' = callback_free_value h"

lemma owned_data_same: "same_free h h' \<Longrightarrow> owned_data h' = owned_data h"
  by (simp add: same_free_def owned_data_def fun_eq_iff)

lemma free_events:
  "sum_list (map freed_data (events (hashtable_free_key (hashtable_free_value h it) it)))
    = sum_list (map freed_data (events h)) + owned_data h it"
  by (simp add: hashtable_free_key_def hashtable_free_value_def owned_data_def split: option.split)

lemma free_same:
  "same_free h (hashtable_free_key (hashtable_free_value h it) it)"
  "same_free h (hashtable_free_value h it)"
  by (simp_all add: hashtable_free_key_def hashtable_free_value_def same_free_def split: option.split)

lemma sum_concat_upd:
  fixes f :: "'a \<Rightarrow> 'b multiset"
  shows "i < length xss \<Longrightarrow> sum_list (map f (concat (xss[i := b]))) + sum_list (map f (xss ! i))
    = sum_list (map f (concat xss)) + sum_list (map f b)"
  by (induction xss arbitrary: i) (auto split: nat.split simp: ac_simps)

lemma sum_take_drop:
  fixes f :: "'a \<Rightarrow> 'b multiset"
  assumes "n < length b"
  shows "sum_list (map f b) = sum_list (map f (take n b @ drop (Suc n) b)) + f (b ! n)"
    and "sum_list (map f (b[n := x])) = sum_list (map f (take n b @ drop (Suc n) b)) + f x"
proof -
  have "b = take n b @ b ! n # drop (Suc n) b" using assms by (rule id_take_nth_drop)
  then have "map f b = map f (take n b) @ f (b ! n) # map f (drop (Suc n) b)"
    by (metis list.simps(9) map_append)
  then show "sum_list (map f b) = sum_list (map f (take n b @ drop (Suc n) b)) + f (b ! n)"
    by simp
  show "sum_list (map f (b[n := x])) = sum_list (map f (take n b @ drop (Suc n) b)) + f x"
    using assms by (simp add: upd_conv_take_nth_drop)
qed

lemma hashtable_account_update:
  assumes "same_free h h'" "i < length (htable h)" "htable h' = (htable h)[i := b]"
    and "sum_list (map (owned_data h) b) + sum_list (map freed_data (events h'))
      = sum_list (map (owned_data h) (htable h ! i)) + sum_list (map freed_data (events h)) + d"
  shows "hashtable_account h' = hashtable_account h + d"
proof -
  let ?f = "owned_data h"
  have "hashtable_account h' + sum_list (map ?f (htable h ! i))
      = (sum_list (map ?f (concat ((htable h)[i := b]))) + sum_list (map ?f (htable h ! i)))
        + sum_list (map freed_data (events h'))"
    by (simp add: hashtable_account_def owned_data_same [OF assms(1)] assms(3) ac_simps)
  also have "\<dots> = sum_list (map ?f (concat (htable h)))
      + (sum_list (map ?f b) + sum_list (map freed_data (events h')))"
    by (simp only: sum_concat_upd [OF assms(2)] add.assoc)
  also have "\<dots> = hashtable_account h + d + sum_list (map ?f (htable h ! i))"
    unfolding assms(4) by (simp add: hashtable_account_def ac_simps)
  finally show ?thesis by simp
qed

lemma remove_item_account:
  assumes "i < length (htable h)" "n < length (htable h ! i)"
  shows "hashtable_account (hashtable_remove_item h (Some (i, n))) = hashtable_account h
    \<and> same_free h (hashtable_remove_item h (Some (i, n)))"
proof
  let ?b = "htable h ! i"
  let ?h = "hashtable_free_key (hashtable_free_value h (?b ! n)) (?b ! n)"
  have r: "hashtable_remove_item h (Some (i, n)) =
      ?h\<lparr>htable := (htable h)[i := take n ?b @ drop (Suc n) ?b], items_count := items_count h - 1\<rparr>"
    by (simp add: hashtable_remove_item_def Let_def)
  show f: "same_free h (hashtable_remove_item h (Some (i, n)))"
    unfolding r using free_same(1) [of h "?b ! n"] by (simp add: same_free_def)
  have "hashtable_account (hashtable_remove_item h (Some (i, n))) = hashtable_account h + {#}"
  proof (rule hashtable_account_update [OF f assms(1)])
    show "htable (hashtable_remove_item h (Some (i, n))) = (htable h)[i := take n ?b @ drop (Suc n) ?b]"
      by (simp add: r)
    show "sum_list (map (owned_data h) (take n ?b @ drop (Suc n) ?b))
        + sum_list (map freed_data (events (hashtable_remove_item h (Some (i, n)))))
      = sum_list (map (owned_data h) ?b) + sum_list (map freed_data (events h)) + {#}"
      unfolding sum_take_drop(1) [OF assms(2), of "owned_data h"]
      by (simp add: r free_events ac_simps)
  qed
  then show "hashtable_account (hashtable_remove_item h (Some (i, n))) = hashtable_account h" by simp
qed

lemma remove_bucket_account:
  assumes "i < length (htable h)"
  shows "hashtable_account (hashtable_remove_bucket h i) = hashtable_account h"
  using assms
proof (induction h i rule: hashtable_remove_bucket.induct)
  case (1 h i)
  let ?g = "hashtable_remove_item h (Some (i, 0))"
  show ?case
  proof (cases "htable h ! i = []")
    case True
    then show ?thesis by (subst hashtable_remove_bucket.simps) simp
  next
    case False
    have "i < length (htable ?g)" using 1(2) by (simp add: hashtable_remove_item_def Let_def)
    then have "hashtable_account (hashtable_remove_bucket ?g i) = hashtable_account ?g"
      using 1(1,2) False by simp
    moreover have "hashtable_account ?g = hashtable_account h"
      using remove_item_account [of i h 0] 1(2) False by simp
    moreover have "hashtable_remove_bucket h i = hashtable_remove_bucket ?g i"
      using 1(2) False by (subst hashtable_remove_bucket.simps) simp
    ultimately show ?thesis by simp
  qed
qed

lemma remove_buckets_account:
  "n \<le> length (htable h) \<Longrightarrow> hashtable_account (fold (\<lambda>i h. hashtable_remove_bucket h i) [0..<n] h) = hashtable_account h"
proof (induction n)
  case (Suc n)
  let ?g = "fold (\<lambda>i h. hashtable_remove_bucket h i) [0..<n] h"
  have "n < length (htable ?g)" using remove_buckets [of n h ?g] Suc.prems by simp
  then show ?case using Suc by (simp add: remove_bucket_account)
qed simp

lemma hashtable_get_item_bounds:
  assumes "hashtable_inv h" "hashtable_get_item h (Some k) = Some (i, n)"
  shows "i < length (htable h)" "n < length (htable h ! i)"
  using assms hashtable_hash_less [of h k]
  by (auto simp: hashtable_get_item_def Let_def hashtable_inv_def split: if_splits)

text \<open>
  Claim C15.  Removing an item, or all items, frees the data that the table owns exactly once: what
  is owned and what was freed together do not change, and at the end everything was freed.
\<close>

theorem hashtable_frees_once:
  assumes "hashtable_reachable h"
  shows "hashtable_account (hashtable_remove h (Some k)) = hashtable_account h \<and>
    hashtable_account (hashtable_remove_all h) = hashtable_account h \<and>
    sum_list (map freed_data (events (hashtable_remove_all h))) = hashtable_account h"
proof -
  have inv: "hashtable_inv h"
    using hashtable_reachable_default [OF assms] by (simp add: default_table_def)
  have all: "hashtable_account (hashtable_remove_all h) = hashtable_account h"
    using remove_buckets_account [of "ht_size h" h] inv
    by (simp add: hashtable_remove_all_def hashtable_inv_def)
  have "htable (hashtable_remove_all h) = replicate (ht_size h) []"
    using hashtable_remove_all_empty [OF inv refl] by blast
  then have "sum_list (map freed_data (events (hashtable_remove_all h))) = hashtable_account (hashtable_remove_all h)"
    by (simp add: hashtable_account_def concat_replicate_trivial)
  moreover have "hashtable_account (hashtable_remove h (Some k)) = hashtable_account h"
  proof (cases "hashtable_get_item h (Some k)")
    case (Some p)
    then show ?thesis
      using remove_item_account hashtable_get_item_bounds [OF inv, of k "fst p" "snd p"]
      by (cases p) (simp add: hashtable_remove_def)
  qed (simp add: hashtable_remove_def hashtable_remove_item_def)
  ultimately show ?thesis using all by simp
qed

theorem hashtable_frees_once_witness:
  "hashtable_account (hashtable_remove hashtable_example (Some (HString ''weechat'')))
      = hashtable_account hashtable_example \<and>
    hashtable_account (hashtable_remove_all hashtable_example) = hashtable_account hashtable_example \<and>
    sum_list (map freed_data (events (hashtable_remove_all hashtable_example)))
      = hashtable_account hashtable_example"
  by (rule hashtable_frees_once) (rule hashtable_example_reachable [THEN conjunct1])

subsection \<open>Copies\<close>

lemma fold_concat: "fold f (concat xss) = fold (\<lambda>xs. fold f xs) xss"
  by (induction xss) (simp_all add: fun_eq_iff)

lemma hashtable_map_concat:
  assumes "length (htable h) = ht_size h"
  shows "hashtable_map h f st = fold (\<lambda>it. f (it_key it) (it_value it)) (concat (htable h)) st"
proof -
  have "fold (\<lambda>i. fold (\<lambda>it. f (it_key it) (it_value it)) (htable h ! i)) [0..<ht_size h]
      = fold (fold (\<lambda>it. f (it_key it) (it_value it))) (map (\<lambda>i. htable h ! i) [0..<ht_size h])"
    by (simp add: fold_map comp_def)
  also have "map (\<lambda>i. htable h ! i) [0..<ht_size h] = htable h"
    using assms by (metis map_nth)
  finally show ?thesis by (simp add: hashtable_map_def fold_concat)
qed


text \<open>Every item holds data of the types of its table.\<close>

definition hashtable_typed :: "hashtable \<Rightarrow> bool" where
  "hashtable_typed h \<longleftrightarrow>
     (\<forall>it \<in> hashtable_items h. hdata_ok (type_keys h) (it_key it) \<and> hvalue_ok (type_values h) (it_value it))"

lemma hdata_ok_copy: "hdata_ok ty (fst (hashtable_copy ty d n))"
  by (cases ty) (simp_all add: hashtable_copy_def)

lemma hvalue_ok_alloc: "hvalue_ok ty (fst (hashtable_alloc_type ty v n))"
  by (cases v) (auto simp: hashtable_alloc_type_def hvalue_ok_def hdata_ok_copy)

lemma hashtable_typed_set:
  assumes "default_table h" "hashtable_typed h"
  shows "hashtable_typed (fst (hashtable_set_with_size h (Some k) ksize v vsize))"
  using default_table_set_fails [of h "Some k" ksize v vsize]
proof (elim disjE exE conjE)
  fix k' assume ok: "Some k = Some k'" "type_keys h = HASHTABLE_BUFFER \<longrightarrow> 0 < ksize"
    "type_values h = HASHTABLE_BUFFER \<longrightarrow> 0 < vsize"
  let ?g = "fst (hashtable_set_with_size h (Some k) ksize v vsize)"
  have nb: "type_keys h \<noteq> HASHTABLE_BUFFER" using assms(1) by (simp add: default_table_def)
  note u = default_table_uses [OF assms(1)]
  obtain x where x: "it_value x = fst (hashtable_alloc_type (type_values h) v vsize)"
      "it_key x = fst (hashtable_copy (type_keys h) k ksize) \<or> it_key x \<in> it_key ` hashtable_items h"
    and sub: "hashtable_items ?g \<subseteq> insert x (hashtable_items h)"
    using default_cb.set_items [OF conjunct1 [OF u] conjunct2 [OF u] ok(2,3) keycmp_default_copy [OF nb] refl, of k v]
    by blast
  have ty: "type_keys ?g = type_keys h" "type_values ?g = type_values h"
    using default_table_set [OF assms(1)] by (auto simp: same_shape_def)
  have "hdata_ok (type_keys h) (it_key x)" "hvalue_ok (type_values h) (it_value x)"
    using x assms(2) by (auto simp: hashtable_typed_def hdata_ok_copy hvalue_ok_alloc)
  then show ?thesis using sub assms(2) unfolding hashtable_typed_def ty by blast
qed (use assms in simp)

lemma hashtable_reachable_typed: "hashtable_reachable h \<Longrightarrow> hashtable_typed h"
proof (induction rule: hashtable_reachable.induct)
  case (new sz tk tv h)
  then show ?case using default_table_new(2) by (simp add: hashtable_typed_def)
next
  case (set h k v ksize vsize)
  then show ?case by (intro hashtable_typed_set hashtable_reachable_default)
next
  case (remove h k)
  have d: "default_table h" by (rule hashtable_reachable_default [OF remove(1)])
  have "hashtable_items (hashtable_remove h (Some k)) \<subseteq> hashtable_items h"
    using default_cb.remove_items [of h "type_keys h" _ k] default_table_uses [OF d] by blast
  then show ?case using remove(2) default_table_remove [OF d, of k]
    by (auto simp: hashtable_typed_def same_shape_def)
next
  case (remove_all h)
  then show ?case using default_table_remove_all(2) [OF hashtable_reachable_default [OF remove_all(1)] refl]
    by (simp add: hashtable_typed_def)
next
  case (set_pointer h property pointer)
  then show ?case by (auto simp: hashtable_set_pointer_def hashtable_typed_def hashtable_items_def split: option.split)
qed

lemma duplicate_fold:
  assumes "default_table g" "type_values g \<noteq> HASHTABLE_BUFFER"
    and "\<forall>it \<in> set its. hdata_ok (type_keys g) (it_key it) \<and> hvalue_ok (type_values g) (it_value it)"
    and "g' = fold (\<lambda>it. hashtable_duplicate_map_cb (it_key it) (it_value it)) its g"
  shows "default_table g' \<and> same_shape g g' \<and>
    (\<forall>k. hdata_ok (type_keys g) k \<longrightarrow> hashtable_abs g' k =
      (case find (\<lambda>it. it_key it = k) (rev its) of Some it \<Rightarrow> Some (it_value it) | None \<Rightarrow> hashtable_abs g k))"
  using assms(3,4)
proof (induction its arbitrary: g' rule: rev_induct)
  case Nil
  then show ?case using assms(1) by simp
next
  case (snoc it its)
  define f where "f = fold (\<lambda>it. hashtable_duplicate_map_cb (it_key it) (it_value it)) its g"
  have g': "g' = fst (hashtable_set_with_size f (Some (it_key it)) 0 (it_value it) 0)"
    using snoc.prems(2) by (simp add: f_def hashtable_duplicate_map_cb_def [of "it_key it"] hashtable_set_def)
  from snoc.IH [OF _ f_def] snoc.prems(1) have f: "default_table f" "same_shape g f"
    and fa: "hdata_ok (type_keys g) k \<Longrightarrow> hashtable_abs f k =
      (case find (\<lambda>it. it_key it = k) (rev its) of Some it \<Rightarrow> Some (it_value it) | None \<Rightarrow> hashtable_abs g k)" for k
    by auto
  have ty: "type_keys f = type_keys g" "type_values f = type_values g" using f(2) by (simp_all add: same_shape_def)
  have nb: "type_keys f \<noteq> HASHTABLE_BUFFER" using f(1) by (simp add: default_table_def)
  have it: "hdata_ok (type_keys g) (it_key it)" "hvalue_ok (type_values g) (it_value it)" using snoc.prems(1) by auto
  have al: "fst (hashtable_alloc_type (type_values f) (it_value it) 0) = it_value it"
    using hashtable_alloc_ok it(2) assms(2) ty by simp
  have abs: "hashtable_abs g' k = (if it_key it = k then Some (it_value it) else hashtable_abs f k)"
    if k: "hdata_ok (type_keys g) k" for k
  proof -
    have "hashtable_keycmp_default_cb (type_keys f) k (it_key it) = 0 \<longleftrightarrow> k = it_key it"
      using keycmp_default_eq [OF _ _ nb] it(1) k ty by simp
    then show ?thesis
      using default_cb.set_abs [of f "type_keys f" 0 0 "it_key it" g' "it_value it" k] default_table_uses [OF f(1)]
        nb assms(2) ty keycmp_default_copy [OF nb] g' al by auto
  qed
  have st: "default_table g'" "same_shape g g'"
    using default_table_set [OF f(1), of "it_key it" 0 "it_value it" 0] same_shape_trans [OF f(2)]
    unfolding g' by blast+
  have "hashtable_abs g' k = (case find (\<lambda>it. it_key it = k) (rev (its @ [it])) of
      Some it \<Rightarrow> Some (it_value it) | None \<Rightarrow> hashtable_abs g k)" if "hdata_ok (type_keys g) k" for k
    unfolding abs [OF that] by (simp add: fa [OF that])
  with st show ?case by blast
qed

lemma hashtable_get_type_name: "hashtable_get_type (Some (hashtable_type_name ty)) = Some ty"
  by (cases ty)
    (simp_all add: hashtable_get_type_def hashtable_type_string_def hashtable_type_name_def strcasecmp_literal)

text \<open>
  \<open>hashtable_dup\<close> returns a table in which every key has the value that it has in the
  original, unless the values are buffers.
\<close>

theorem hashtable_dup_abs:
  assumes "hashtable_reachable h" "type_values h \<noteq> HASHTABLE_BUFFER" "hdata_ok (type_keys h) k"
  shows "\<exists>h'. hashtable_dup h = Some h' \<and> hashtable_inv h' \<and> hashtable_abs h' k = hashtable_abs h k"
proof -
  have d: "default_table h" by (rule hashtable_reachable_default [OF assms(1)])
  have inv: "hashtable_inv h" and nb: "type_keys h \<noteq> HASHTABLE_BUFFER" using d by (simp_all add: default_table_def)
  have size: "0 < ht_size h" "ht_size h < 2 ^ 31" "length (htable h) = ht_size h"
    using inv by (simp_all add: hashtable_inv_def)
  obtain g0 where g0: "hashtable_new (int (ht_size h)) (Some (hashtable_type_name (type_keys h)))
      (Some (hashtable_type_name (type_values h))) (Some (callback_hash_key h)) (Some (callback_keycmp h)) = Some g0"
    and e: "htable g0 = replicate (ht_size g0) []" "items_count g0 = 0" and sh: "same_shape h g0"
    using size by (auto simp: hashtable_new_def hashtable_get_type_name same_shape_def)
  define g where "g = g0\<lparr>callback_free_key := callback_free_key h, callback_free_value := callback_free_value h\<rparr>"
  have sg: "same_shape h g" using sh by (simp add: g_def same_shape_def)
  have ginv: "hashtable_inv g" and gi: "hashtable_items g = {}"
    using hashtable_inv_empty [of g] e sg size by (simp_all add: g_def same_shape_def)
  have gd: "default_table g" by (rule default_table_same [OF d sg ginv])
  have ty: "type_keys g = type_keys h" "type_values g = type_values h" using sg by (simp_all add: same_shape_def)
  define h' where "h' = fold (\<lambda>it. hashtable_duplicate_map_cb (it_key it) (it_value it)) (concat (htable h)) g"
  have dup: "hashtable_dup h = Some h'"
    by (simp add: hashtable_dup_def g0 hashtable_map_concat [OF size(3)] h'_def g_def)
  have typed: "\<forall>it \<in> set (concat (htable h)). hdata_ok (type_keys g) (it_key it) \<and> hvalue_ok (type_values g) (it_value it)"
    using hashtable_reachable_typed [OF assms(1)] unfolding ty by (simp add: hashtable_typed_def hashtable_items_def)
  from duplicate_fold [OF gd _ typed h'_def] assms(2,3) ty have h': "default_table h'"
    and ab: "hashtable_abs h' k = (case find (\<lambda>it. it_key it = k) (rev (concat (htable h))) of
      Some it \<Rightarrow> Some (it_value it) | None \<Rightarrow> hashtable_abs g k)" by auto
  note u = default_table_uses [OF d]
  have ke: "hashtable_keycmp_default_cb (type_keys h) k (it_key it) = 0 \<longleftrightarrow> it_key it = k"
    if "it \<in> hashtable_items h" for it
    using that hashtable_reachable_typed [OF assms(1)] keycmp_default_eq [OF assms(3) _ nb]
    by (auto simp: hashtable_typed_def)
  have "hashtable_abs h' k = hashtable_abs h k"
  proof (cases "find (\<lambda>it. it_key it = k) (rev (concat (htable h)))")
    case None
    then have "\<forall>it \<in> hashtable_items h. it_key it \<noteq> k"
      by (auto simp: find_None_iff hashtable_items_def)
    then have "hashtable_abs h k = None"
      using default_cb.abs_None [OF conjunct1 [OF u] conjunct2 [OF u], of k] ke by auto
    moreover have "hashtable_abs g k = None"
      using default_cb.abs_None [of g "type_keys g" k] default_table_uses [OF gd] gi by auto
    ultimately show ?thesis using None ab by simp
  next
    case (Some it)
    then have it: "it \<in> hashtable_items h" "it_key it = k"
      by (auto simp: find_Some_iff hashtable_items_def in_set_conv_nth[symmetric] dest: nth_mem)
        (metis length_rev nth_mem set_concat set_rev UN_iff)
    then show ?thesis
      using default_cb.abs_Some [OF conjunct1 [OF u] conjunct2 [OF u] it(1), of k] ke [OF it(1)] it(2) ab Some by simp
  qed
  then show ?thesis using dup h' by (auto simp: default_table_def)
qed

theorem hashtable_dup_abs_witness:
  "\<exists>h'. hashtable_dup hashtable_example = Some h' \<and> hashtable_inv h' \<and>
    hashtable_abs h' (HString ''weechat'') = hashtable_abs hashtable_example (HString ''weechat'')"
  by (rule hashtable_dup_abs) (simp_all add: hashtable_example_reachable)

text \<open>
  The copy of a table of buffers is empty: its items are added by \<open>hashtable_set\<close>, which
  refuses a buffer because it gives no size.
\<close>

lemma hashtable_duplicate_buffer:
  "type_values g = HASHTABLE_BUFFER \<or> type_keys g = HASHTABLE_BUFFER \<Longrightarrow> hashtable_duplicate_map_cb k v g = g"
  by (auto simp: hashtable_duplicate_map_cb_def hashtable_set_def hashtable_set_with_size_def)

lemma hashtable_dup_buffer:
  assumes "type_values h = HASHTABLE_BUFFER" "length (htable h) = ht_size h" "hashtable_dup h = Some h'"
  shows "concat (htable h') = []"
proof -
  have f: "fold (\<lambda>it. hashtable_duplicate_map_cb (it_key it) (it_value it)) its g = g"
    if "type_values g = HASHTABLE_BUFFER" for its g
    using that by (induction its) (simp_all add: hashtable_duplicate_buffer)
  show ?thesis using assms(3)
    by (auto simp: hashtable_dup_def hashtable_new_def hashtable_get_type_name hashtable_map_concat [OF assms(2)]
        f assms(1) split: if_splits)
qed

subsection \<open>Keys and values as strings\<close>

text \<open>
  The string of a datum; the address of a buffer is not part of the model and is given by
  \<open>addr\<close>.
\<close>

definition hashtable_to_string :: "(hdata \<Rightarrow> nat) \<Rightarrow> hashtable_type \<Rightarrow> hdata \<Rightarrow> cstr" where
  "hashtable_to_string addr type val =
     (case type of
        HASHTABLE_INTEGER \<Rightarrow> string_of_int (hint val)
      | HASHTABLE_STRING \<Rightarrow> hstring val
      | HASHTABLE_POINTER \<Rightarrow> string_of_pointer (hpointer val)
      | HASHTABLE_BUFFER \<Rightarrow> string_of_pointer (addr val)
      | HASHTABLE_TIME \<Rightarrow> string_of_int (htime val))"

text \<open>The items of the list of keys are allocated at the addresses 1, 2, ...\<close>

definition hashtable_get_list_keys_map_cb ::
  "(hdata \<Rightarrow> nat) \<Rightarrow> hashtable_type \<Rightarrow> hdata \<Rightarrow> hdata option \<Rightarrow> (weelist \<times> nat) option \<Rightarrow> (weelist \<times> nat) option" where
  "hashtable_get_list_keys_map_cb addr tkeys key val st = do {
     (w, a) \<leftarrow> st;
     (w, item) \<leftarrow> weelist_add w a (Some (hashtable_to_string addr tkeys key)) (Some ''sort'') 0;
     Some (w, a + 1) }"

definition hashtable_get_list_keys :: "(hdata \<Rightarrow> nat) \<Rightarrow> hashtable \<Rightarrow> weelist option" where
  "hashtable_get_list_keys addr h =
     map_option fst (hashtable_map h (hashtable_get_list_keys_map_cb addr (type_keys h)) (Some (weelist_new, 1)))"

definition hashtable_compute_length_keys_cb ::
  "(hdata \<Rightarrow> nat) \<Rightarrow> hashtable \<Rightarrow> hdata \<Rightarrow> hdata option \<Rightarrow> nat \<Rightarrow> nat" where
  "hashtable_compute_length_keys_cb addr h key val len =
     len + length (hashtable_to_string addr (type_keys h) key) + 1"

definition hashtable_compute_length_values_cb ::
  "(hdata \<Rightarrow> nat) \<Rightarrow> hashtable \<Rightarrow> hdata \<Rightarrow> hdata option \<Rightarrow> nat \<Rightarrow> nat" where
  "hashtable_compute_length_values_cb addr h key val len =
     (case val of
        Some v \<Rightarrow> len + length (hashtable_to_string addr (type_values h) v) + 1
      | None \<Rightarrow> len + length ''(null)'' + 1)"

definition hashtable_compute_length_keys_values_cb ::
  "(hdata \<Rightarrow> nat) \<Rightarrow> hashtable \<Rightarrow> hdata \<Rightarrow> hdata option \<Rightarrow> nat \<Rightarrow> nat" where
  "hashtable_compute_length_keys_values_cb addr h key val len =
     hashtable_compute_length_values_cb addr h key val (hashtable_compute_length_keys_cb addr h key val len)"

definition hashtable_build_string_keys_cb ::
  "(hdata \<Rightarrow> nat) \<Rightarrow> hashtable \<Rightarrow> hdata \<Rightarrow> hdata option \<Rightarrow> cstr \<Rightarrow> cstr" where
  "hashtable_build_string_keys_cb addr h key val str =
     (let str = (if bat str 0 \<noteq> 0 then str @ '','' else str) in
      str @ hashtable_to_string addr (type_keys h) key)"

definition hashtable_build_string_values_cb ::
  "(hdata \<Rightarrow> nat) \<Rightarrow> hashtable \<Rightarrow> hdata \<Rightarrow> hdata option \<Rightarrow> cstr \<Rightarrow> cstr" where
  "hashtable_build_string_values_cb addr h key val str =
     (let str = (if bat str 0 \<noteq> 0 then str @ '','' else str) in
      case val of
        Some v \<Rightarrow> str @ hashtable_to_string addr (type_values h) v
      | None \<Rightarrow> str @ ''(null)'')"

definition hashtable_build_string_keys_values_cb ::
  "(hdata \<Rightarrow> nat) \<Rightarrow> hashtable \<Rightarrow> hdata \<Rightarrow> hdata option \<Rightarrow> cstr \<Rightarrow> cstr" where
  "hashtable_build_string_keys_values_cb addr h key val str =
     (let str = (if bat str 0 \<noteq> 0 then str @ '','' else str);
          str = str @ hashtable_to_string addr (type_keys h) key;
          str = str @ '':''
      in case val of
        Some v \<Rightarrow> str @ hashtable_to_string addr (type_values h) v
      | None \<Rightarrow> str @ ''(null)'')"

text \<open>
  With sorted keys the code reads the strings of the sorted list as keys of the table: when keys
  are not strings this reads their memory at another type, which is the error of the model.
\<close>

datatype hashtable_error = ReadAtOtherType | InvalidPointer

partial_function (option) weelist_strings :: "weelist_data heap \<Rightarrow> nat option \<Rightarrow> cstr list option" where
  "weelist_strings h ptr_item =
     (case ptr_item of
        None \<Rightarrow> Some []
      | Some a \<Rightarrow> do { it \<leftarrow> h a; rest \<leftarrow> weelist_strings h (next_item it); Some (data_of it # rest) })"

definition hashtable_get_keys_values ::
  "(hdata \<Rightarrow> nat) \<Rightarrow> hashtable \<Rightarrow> bool \<Rightarrow> bool \<Rightarrow> bool \<Rightarrow> hashtable_error + hashtable" where
  "hashtable_get_keys_values addr h keys sort_keys values =
     (let len = hashtable_map h
        (if keys \<and> values then hashtable_compute_length_keys_values_cb addr h
         else if keys then hashtable_compute_length_keys_cb addr h
         else hashtable_compute_length_values_cb addr h) 0
      in
        if len = 0 then Inr (h\<lparr>keys_values := None\<rparr>)
        else if keys \<and> sort_keys then
          (if type_keys h \<noteq> HASHTABLE_STRING then Inl ReadAtOtherType
           else case do { w \<leftarrow> hashtable_get_list_keys addr h; weelist_strings (wl_heap w) (wl_items w) } of
             None \<Rightarrow> Inl InvalidPointer
           | Some datas \<Rightarrow>
               Inr (h\<lparr>keys_values := Some (fold
                 (\<lambda>d. if values
                   then hashtable_build_string_keys_values_cb addr h (HString d) (hashtable_get h (Some (HString d)))
                   else hashtable_build_string_keys_cb addr h (HString d) None)
                 datas [])\<rparr>))
        else Inr (h\<lparr>keys_values := Some (hashtable_map h
          (if keys \<and> values then hashtable_build_string_keys_values_cb addr h
           else if keys then hashtable_build_string_keys_cb addr h
           else hashtable_build_string_values_cb addr h) [])\<rparr>))"

text \<open>
  The buffer that \<open>hashtable_get_keys_values\<close> allocates is large enough for the string
  that it builds from the unsorted table: the string is not longer than the computed length.
\<close>

theorem hashtable_keys_values_fit:
  assumes "length (htable h) = ht_size h"
  shows "length (hashtable_map h (hashtable_build_string_keys_cb addr h) [])
      \<le> hashtable_map h (hashtable_compute_length_keys_cb addr h) 0 \<and>
    length (hashtable_map h (hashtable_build_string_values_cb addr h) [])
      \<le> hashtable_map h (hashtable_compute_length_values_cb addr h) 0 \<and>
    length (hashtable_map h (hashtable_build_string_keys_values_cb addr h) [])
      \<le> hashtable_map h (hashtable_compute_length_keys_values_cb addr h) 0"
proof -
  have fit: "length (fold (\<lambda>it. f (it_key it) (it_value it)) its str) \<le> fold (\<lambda>it. g (it_key it) (it_value it)) its len"
    if "length str \<le> len" "\<And>k v s n. length s \<le> n \<Longrightarrow> length (f k v s) \<le> g k v n"
    for f g and its :: "hashtable_item list" and str :: cstr and len :: nat
    using that(1) by (induction its arbitrary: str len) (simp_all add: that(2))
  have step: "length (if bat s 0 \<noteq> 0 then s @ '','' else s) \<le> length s + 1" for s :: cstr by simp
  show ?thesis
    unfolding hashtable_map_concat [OF assms]
    by (intro conjI; rule fit)
      (simp_all add: hashtable_build_string_keys_cb_def hashtable_compute_length_keys_cb_def
        hashtable_build_string_values_cb_def hashtable_compute_length_values_cb_def
        hashtable_build_string_keys_values_cb_def hashtable_compute_length_keys_values_cb_def Let_def
        split: option.split)
qed

theorem hashtable_keys_values_fit_witness:
  "length (hashtable_map hashtable_example (hashtable_build_string_keys_cb hpointer hashtable_example) [])
      \<le> hashtable_map hashtable_example (hashtable_compute_length_keys_cb hpointer hashtable_example) 0 \<and>
    length (hashtable_map hashtable_example (hashtable_build_string_values_cb hpointer hashtable_example) [])
      \<le> hashtable_map hashtable_example (hashtable_compute_length_values_cb hpointer hashtable_example) 0 \<and>
    length (hashtable_map hashtable_example (hashtable_build_string_keys_values_cb hpointer hashtable_example) [])
      \<le> hashtable_map hashtable_example (hashtable_compute_length_keys_values_cb hpointer hashtable_example) 0"
  by (rule hashtable_keys_values_fit)
    (use hashtable_reachable_default [OF hashtable_example_reachable [THEN conjunct1]]
      in \<open>simp add: default_table_def hashtable_inv_def\<close>)

lemma hashtable_keys_sorted_type:
  assumes "type_keys h \<noteq> HASHTABLE_STRING" "hashtable_map h (hashtable_compute_length_keys_cb addr h) 0 \<noteq> 0"
  shows "hashtable_get_keys_values addr h True True False = Inl ReadAtOtherType"
  using assms by (simp add: hashtable_get_keys_values_def)

text \<open>The list of keys is sorted, and holds the keys that are not empty.\<close>

lemma list_keys_fold:
  assumes "w0 = fold (\<lambda>it. hashtable_get_list_keys_map_cb addr tkeys (it_key it) (it_value it)) its (Some (weelist_new, 1))"
  shows "\<exists>w addrs xs. w0 = Some (w, length its + 1) \<and> weelist_repr w addrs xs \<and> set addrs \<subseteq> {1..length its} \<and>
    weelist_sorted xs \<and> fst ` set xs = (\<lambda>it. hashtable_to_string addr tkeys (it_key it)) ` set its - {[]}"
  using assms
proof (induction its arbitrary: w0 rule: rev_induct)
  case Nil
  then show ?case using weelist_repr_new by (auto simp: weelist_sorted_def cmp_ordered_def)
next
  case (snoc it its)
  from snoc.IH [OF refl] obtain w addrs xs where
    f: "fold (\<lambda>it. hashtable_get_list_keys_map_cb addr tkeys (it_key it) (it_value it)) its (Some (weelist_new, 1))
      = Some (w, length its + 1)"
    and r: "weelist_repr w addrs xs" "weelist_sorted xs" and ad: "set addrs \<subseteq> {1..length its}"
    and k: "fst ` set xs = (\<lambda>it. hashtable_to_string addr tkeys (it_key it)) ` set its - {[]}" by blast
  let ?d = "hashtable_to_string addr tkeys (it_key it)"
  let ?n = "length its + 1"
  have w0: "w0 = do {
     (w, item) \<leftarrow> weelist_add w ?n (Some ?d) (Some ''sort'') 0;
     Some (w, ?n + 1) }"
    unfolding snoc.prems fold_append fold_Cons fold_Nil comp_apply id_apply f
    by (simp add: hashtable_get_list_keys_map_cb_def)
  show ?case
  proof (cases "?d = []")
    case True
    then have "w0 = Some (w, ?n + 1)" using w0 by (simp add: weelist_add_def)
    moreover have "set addrs \<subseteq> {1..length (its @ [it])}" using ad by auto
    ultimately show ?thesis using r k True by (intro exI [of _ w] exI [of _ addrs] exI [of _ xs]) auto
  next
    case False
    have fresh: "?n \<notin> set addrs" using ad by auto
    from weelist_add_sort [OF r fresh False, of 0] obtain w' addrs' ys where
      w': "weelist_add w ?n (Some ?d) (Some ''sort'') 0 = Some (w', Some ?n)" "weelist_repr w' addrs' ys"
      "weelist_sorted ys" "set ys = insert (?d, 0) {x \<in> set xs. fst x \<noteq> ?d}" "set addrs' \<subseteq> insert ?n (set addrs)" by blast
    have "fst ` set ys = insert ?d (fst ` set xs)" by (auto simp: w'(4) image_iff)
    then have "fst ` set ys = (\<lambda>it. hashtable_to_string addr tkeys (it_key it)) ` set (its @ [it]) - {[]}"
      using k False by auto
    moreover have "set addrs' \<subseteq> {1..length (its @ [it])}" using w'(5) ad by (fastforce simp: subset_iff)
    moreover have "w0 = Some (w', ?n + 1)" using w0 w'(1) by simp
    ultimately show ?thesis using w'(2,3) by auto
  qed
qed

text \<open>
  The list of keys of a table of strings is sorted without duplicates, and holds exactly
  the keys of the table that are not empty.
\<close>

theorem hashtable_list_keys:
  assumes "hashtable_reachable h" "type_keys h = HASHTABLE_STRING"
  shows "\<exists>w addrs xs. hashtable_get_list_keys addr h = Some w \<and> weelist_repr w addrs xs \<and> weelist_sorted xs \<and>
    fst ` set xs = {s. s \<noteq> [] \<and> hashtable_has_key h (Some (HString s))}"
proof -
  have d: "default_table h" by (rule hashtable_reachable_default [OF assms(1)])
  note u = default_table_uses [OF d]
  have len: "length (htable h) = ht_size h" using d by (simp add: default_table_def hashtable_inv_def)
  have has: "hashtable_has_key h (Some (HString s)) \<longleftrightarrow> (\<exists>it \<in> hashtable_items h. it_key it = HString s)" for s
  proof -
    have "hashtable_keycmp_default_cb HASHTABLE_STRING (HString s) (it_key it) = 0 \<longleftrightarrow> it_key it = HString s"
      if "it \<in> hashtable_items h" for it
      using that hashtable_reachable_typed [OF assms(1)] assms(2)
        keycmp_default_eq [of HASHTABLE_STRING "HString s" "it_key it"] by (auto simp: hashtable_typed_def)
    then show ?thesis
      using default_cb.abs_None [OF conjunct1 [OF u] conjunct2 [OF u], of "HString s"] assms(2)
      by (auto simp: hashtable_has_key_abs)
  qed
  have str: "\<exists>s. it_key it = HString s" if "it \<in> hashtable_items h" for it
    using that hashtable_reachable_typed [OF assms(1)] assms(2)
    by (cases "it_key it") (auto simp: hashtable_typed_def)
  obtain w addrs xs where w: "hashtable_get_list_keys addr h = Some w" "weelist_repr w addrs xs" "weelist_sorted xs"
    and k: "fst ` set xs = (\<lambda>it. hashtable_to_string addr (type_keys h) (it_key it)) ` set (concat (htable h)) - {[]}"
    using list_keys_fold [OF refl, of addr "type_keys h" "concat (htable h)"]
    by (auto simp: hashtable_get_list_keys_def hashtable_map_concat [OF len])
  have ts: "hashtable_to_string addr (type_keys h) (HString s) = s" for s
    by (simp add: hashtable_to_string_def assms(2))
  have "(\<lambda>it. hashtable_to_string addr (type_keys h) (it_key it)) ` set (concat (htable h))
      = {s. hashtable_has_key h (Some (HString s))}"
    unfolding has hashtable_items_def [symmetric]
    using str ts by (auto simp: image_iff) (metis ts str)+
  then have "fst ` set xs = {s. s \<noteq> [] \<and> hashtable_has_key h (Some (HString s))}" unfolding k by auto
  then show ?thesis using w by blast
qed

theorem hashtable_list_keys_witness:
  "\<exists>w addrs xs. hashtable_get_list_keys hpointer hashtable_example = Some w \<and> weelist_repr w addrs xs \<and>
    weelist_sorted xs \<and> fst ` set xs = {s. s \<noteq> [] \<and> hashtable_has_key hashtable_example (Some (HString s))}"
  by (rule hashtable_list_keys) (simp_all add: hashtable_example_reachable)

end
