(* ===== verification/String_Match.thy ===== *)
theory String_Match
  imports String_Compare "HOL-Library.Sublist"
begin

text \<open>
  Masks with wildcards, \<open>string_match\<close> and \<open>string_match_list\<close> of
  \<open>src/core/wee-string.c\<close>, against the specification of the wildcard: any number of chars.
\<close>

subsection \<open>The functions\<close>

text \<open>The C library's \<open>strstr\<close> and the sign of its \<open>strncmp\<close>.\<close>

fun strstr :: "cstr \<Rightarrow> cstr \<Rightarrow> cstr option" where
  "strstr [] w = (if w = [] then Some [] else None)"
| "strstr (c # s) w = (if take (length w) (c # s) = w then Some (c # s) else strstr s w)"

definition strncmp :: "cstr \<Rightarrow> cstr \<Rightarrow> nat \<Rightarrow> int" where
  "strncmp s t n = strcmp (take n s) (take n t)"

definition string_match_find :: "bool \<Rightarrow> cstr \<Rightarrow> cstr \<Rightarrow> cstr option" where
  "string_match_find case_sensitive s word =
     (if case_sensitive then strstr s word else string_strcasestr (Some s) (Some word))"

lemma strstr_suffix: "strstr s w = Some p \<Longrightarrow> suffix p s"
  by (induction s w rule: strstr.induct) (auto split: if_splits intro: suffix_ConsI)

lemma string_strcasestr_loop_suffix: "string_strcasestr_loop s t n = Some p \<Longrightarrow> suffix p s"
proof (induction s t n rule: string_strcasestr_loop.induct)
  case (2 c s search n)
  then show ?case
    by (auto split: if_splits simp: utf8_skip_def)
      (metis suffix_drop suffix_order.trans)
qed simp

lemma string_match_find_length: "string_match_find cs s w = Some p \<Longrightarrow> length p \<le> length s"
  by (auto simp: string_match_find_def string_strcasestr_def Let_def split: if_splits option.splits
      dest!: strstr_suffix string_strcasestr_loop_suffix suffix_length_le)

text \<open>
  The inner loop, which moves to the last occurrence of the word.  The word is never empty there
  and the position holds it.
\<close>

function string_match_last :: "bool \<Rightarrow> cstr \<Rightarrow> cstr \<Rightarrow> cstr" where
  "string_match_last case_sensitive pos_word word =
     (if word = [] \<or> pos_word = [] then pos_word
      else case string_match_find case_sensitive (drop (length word) pos_word) word of
        None \<Rightarrow> pos_word
      | Some pos_word2 \<Rightarrow> string_match_last case_sensitive pos_word2 word)"
  by pat_completeness auto
termination
proof (relation "measure (\<lambda>(_, p, _). length p)")
  fix cs :: bool and p w q :: cstr
  assume "\<not> (w = [] \<or> p = [])" "string_match_find cs (drop (length w) p) w = Some q"
  then have "length q < length p"
    using string_match_find_length [of cs "drop (length w) p" w q]
    by (cases p; cases w) auto
  then show "((cs, q, w), (cs, p, w)) \<in> measure (\<lambda>(_, p, _). length p)" by simp
qed simp

declare string_match_last.simps [simp del]

lemma length_dropWhile_hd: "m \<noteq> [] \<Longrightarrow> P (hd m) \<Longrightarrow> length (dropWhile P m) < length m"
  by (cases m) (auto simp: le_imp_less_Suc length_dropWhile_le)

text \<open>The main loop; the arguments are the whole string and the positions in string and mask.\<close>

function string_match_loop :: "bool \<Rightarrow> cstr \<Rightarrow> cstr \<Rightarrow> cstr \<Rightarrow> bool" where
  "string_match_loop case_sensitive string ptr_string ptr_mask =
     (if ptr_mask = [] then ptr_string = []
      else let
        wildcard = (hd ptr_mask = CHR ''*'');
        ptr_mask = (if wildcard then dropWhile (\<lambda>c. c = CHR ''*'') ptr_mask else ptr_mask)
      in
        if wildcard \<and> ptr_mask = [] then True
        else if string = [] then False
        else let
          word = takeWhile (\<lambda>c. c \<noteq> CHR ''*'') ptr_mask;
          pos_end = dropWhile (\<lambda>c. c \<noteq> CHR ''*'') ptr_mask;
          length_word = length word
        in
          if wildcard then
            (case string_match_find case_sensitive ptr_string word of
               None \<Rightarrow> False
             | Some pos_word \<Rightarrow>
                 string_match_loop case_sensitive string
                   (drop length_word (string_match_last case_sensitive pos_word word)) pos_end)
          else if (case_sensitive \<and> strncmp ptr_string word length_word \<noteq> 0)
               \<or> (\<not> case_sensitive \<and> string_strncasecmp (Some ptr_string) (Some word)
                     (int (utf8_strlen (Some word))) \<noteq> 0)
          then False
          else string_match_loop case_sensitive string (drop length_word ptr_string) pos_end)"
  by pat_completeness auto
termination
proof (relation "measure (\<lambda>(_, _, _, m). length m)", goal_cases)
  case 1
  then show ?case by simp
next
  case (2 cs s p m w m' word e lw a)
  then show ?case
    using length_dropWhile_hd [of m "\<lambda>c. c = CHR ''*''"]
      length_dropWhile_le [of "\<lambda>c. c \<noteq> CHR ''*''" "dropWhile (\<lambda>c. c = CHR ''*'') m"]
    by simp
next
  case (3 cs s p m w m' word e lw)
  then show ?case using length_dropWhile_hd [of m "\<lambda>c. c \<noteq> CHR ''*''"] by simp
qed

declare string_match_loop.simps [simp del]

definition string_match :: "cstr option \<Rightarrow> cstr option \<Rightarrow> bool \<Rightarrow> bool" where
  "string_match string pat case_sensitive =
     (case (string, pat) of
        (Some s, Some m) \<Rightarrow> m \<noteq> [] \<and> string_match_loop case_sensitive s s m
      | _ \<Rightarrow> False)"

fun string_match_list_loop :: "cstr \<Rightarrow> cstr list \<Rightarrow> bool \<Rightarrow> bool \<Rightarrow> bool" where
  "string_match_list_loop s [] case_sensitive match = match"
| "string_match_list_loop s (pat # masks) case_sensitive match =
     (let negative = (bat pat 0 = byte (CHR ''!''));
          ptr_mask = (if negative then drop 1 pat else pat)
      in
        if string_match (Some s) (Some ptr_mask) case_sensitive then
          if negative then False
          else string_match_list_loop s masks case_sensitive True
        else string_match_list_loop s masks case_sensitive match)"

definition string_match_list :: "cstr option \<Rightarrow> cstr list option \<Rightarrow> bool \<Rightarrow> bool" where
  "string_match_list string masks case_sensitive =
     (case (string, masks) of
        (Some s, Some ms) \<Rightarrow> string_match_list_loop s ms case_sensitive False
      | _ \<Rightarrow> False)"

subsection \<open>The specification of a mask\<close>

text \<open>A wildcard stands for any number of chars, any other char for itself.\<close>

fun glob :: "cstr \<Rightarrow> cstr \<Rightarrow> bool" where
  "glob [] s = (s = [])"
| "glob (c # m) s =
     (if c = CHR ''*'' then glob m s \<or> (case s of [] \<Rightarrow> False | _ # s' \<Rightarrow> glob (c # m) s')
      else (case s of [] \<Rightarrow> False | d # s' \<Rightarrow> c = d \<and> glob m s'))"

lemma glob_star: "glob (CHR ''*'' # m) s \<longleftrightarrow> (\<exists>t u. s = t @ u \<and> glob m u)"
proof (induction s)
  case (Cons d s)
  then have "glob (CHR ''*'' # m) (d # s) \<longleftrightarrow> glob m (d # s) \<or> (\<exists>t u. s = t @ u \<and> glob m u)" by simp
  also have "\<dots> \<longleftrightarrow> (\<exists>t u. d # s = t @ u \<and> glob m u)"
    by (auto simp: Cons_eq_append_conv)
  finally show ?case .
qed simp

lemma glob_stars:
  "m \<noteq> [] \<Longrightarrow> hd m = CHR ''*'' \<Longrightarrow>
     glob m s \<longleftrightarrow> (\<exists>t u. s = t @ u \<and> glob (dropWhile (\<lambda>c. c = CHR ''*'') m) u)"
proof (induction m arbitrary: s)
  case (Cons c m)
  show ?case
  proof (cases "m \<noteq> [] \<and> hd m = CHR ''*''")
    case True
    then show ?thesis using Cons by (auto simp: glob_star simp del: glob.simps) (metis append.assoc)+
  next
    case False
    then have m: "dropWhile (\<lambda>c. c = CHR ''*'') (c # m) = m" and c: "c = CHR ''*''"
      using Cons.prems by (cases m; auto)+
    show ?thesis unfolding m unfolding c by (rule glob_star)
  qed
qed simp

lemma glob_word: "CHR ''*'' \<notin> set w \<Longrightarrow> glob (w @ m) s \<longleftrightarrow> (\<exists>t. s = w @ t \<and> glob m t)"
proof (induction w arbitrary: s)
  case (Cons c w)
  then show ?case by (cases s) auto
qed simp

lemma glob_word_take:
  "CHR ''*'' \<notin> set w \<Longrightarrow> take (length w) r = w \<Longrightarrow> glob e (drop (length w) r) \<Longrightarrow> glob (w @ e) r"
  by (metis append_take_drop_id glob_word)

lemma star_notin_word: "CHR ''*'' \<notin> set (takeWhile (\<lambda>c. c \<noteq> CHR ''*'') m)"
  by (auto dest: set_takeWhileD)

lemma glob_literal: "CHR ''*'' \<notin> set w \<Longrightarrow> glob w s \<longleftrightarrow> s = w"
  using glob_word [of w "[]" s] by auto

lemma glob_all: "m \<noteq> [] \<Longrightarrow> dropWhile (\<lambda>c. c = CHR ''*'') m = [] \<Longrightarrow> glob m s"
proof -
  assume a: "m \<noteq> []" "dropWhile (\<lambda>c. c = CHR ''*'') m = []"
  then have "hd m = CHR ''*''" by (cases m) (auto split: if_splits)
  from glob_stars [OF a(1) this, of s] show ?thesis unfolding a(2) by simp
qed

subsection \<open>Search\<close>

lemma strstr_Some: "strstr s w = Some p \<Longrightarrow> (\<exists>t. s = t @ p) \<and> take (length w) p = w"
  by (induction s w rule: strstr.induct) (auto split: if_splits intro: exI [of _ "_ # _"])

lemma strstr_None: "strstr s w = None \<longleftrightarrow> (\<forall>t u. s \<noteq> t @ w @ u)"
proof (induction s w rule: strstr.induct)
  case (2 c s w)
  show ?case
  proof (cases "take (length w) (c # s) = w")
    case True
    then have "c # s = [] @ w @ drop (length w) (c # s)" by (metis append_Nil append_take_drop_id)
    then show ?thesis using True by (auto simp del: append_Nil)
  next
    case False
    then have "\<forall>u. c # s \<noteq> w @ u" by (metis append_eq_conv_conj)
    then show ?thesis using 2 False by (auto simp: Cons_eq_append_conv)
  qed
qed auto

lemma string_match_last_word:
  assumes "take (length w) p = w"
  shows "(\<exists>t. p = t @ string_match_last True p w) \<and> take (length w) (string_match_last True p w) = w"
  using assms
proof (induction "length p" arbitrary: p rule: less_induct)
  case less
  show ?case
  proof (cases "w = [] \<or> p = [] \<or> strstr (drop (length w) p) w = None")
    case True
    then show ?thesis using less.prems
      by (auto simp: string_match_last.simps [of True p] string_match_find_def)
  next
    case False
    then obtain q where q: "strstr (drop (length w) p) w = Some q" by auto
    then obtain t where t: "drop (length w) p = t @ q" "take (length w) q = w"
      using strstr_Some by blast
    have "length q < length p" using t(1) False
      by (metis length_append length_drop length_greater_0_conv diff_less le_add2 order.strict_trans1)
    from less.hyps [OF this t(2)] obtain u where
      u: "q = u @ string_match_last True q w" "take (length w) (string_match_last True q w) = w" by auto
    have "p = (w @ t @ u) @ string_match_last True q w"
      using less.prems t(1) u(1) by (metis append.assoc append_take_drop_id)
    moreover have "string_match_last True p w = string_match_last True q w"
      using False q by (simp add: string_match_last.simps [of True p] string_match_find_def)
    ultimately show ?thesis using u(2) by metis
  qed
qed

lemma strncmp_word: "strncmp p w (length w) = 0 \<longleftrightarrow> take (length w) p = w"
  by (simp add: strncmp_def)

lemma string_match_loop_sound: "string_match_loop True s p m \<Longrightarrow> glob m p"
proof (induction "length m" arbitrary: p m rule: less_induct)
  case less
  let ?star = "\<lambda>c. c = CHR ''*''"
  show ?case
  proof (cases "m = []")
    case True
    then show ?thesis using less.prems by (simp add: string_match_loop.simps)
  next
    case ne: False
    show ?thesis
    proof (cases "hd m = CHR ''*''")
      case star: True
      define m' where "m' = dropWhile ?star m"
      define w where "w = takeWhile (\<lambda>c. c \<noteq> CHR ''*'') m'"
      define e where "e = dropWhile (\<lambda>c. c \<noteq> CHR ''*'') m'"
      show ?thesis
      proof (cases "m' = []")
        case True
        then show ?thesis using glob_all [OF ne] by (simp add: m'_def)
      next
        case False
        with less.prems ne star obtain q where q: "strstr p w = Some q"
          and rec: "string_match_loop True s (drop (length w) (string_match_last True q w)) e"
          by (subst (asm) string_match_loop.simps)
            (auto simp: Let_def string_match_find_def w_def e_def m'_def split: option.splits if_splits)
        have lt: "length e < length m"
          using length_dropWhile_hd [OF ne, of ?star] star
            length_dropWhile_le [of "\<lambda>c. c \<noteq> CHR ''*''" m'] by (simp add: e_def m'_def)
        define r where "r = string_match_last True q w"
        obtain t where t: "p = t @ q" "take (length w) q = w" using strstr_Some [OF q] by auto
        with string_match_last_word [OF t(2)] obtain u where u: "q = u @ r" "take (length w) r = w"
          by (auto simp: r_def)
        have g: "glob (w @ e) r"
          by (rule glob_word_take)
            (use less.hyps [OF lt rec] u(2) star_notin_word in \<open>simp_all add: w_def r_def\<close>)
        have "w @ e = m'" by (simp add: w_def e_def)
        with g show ?thesis using t u glob_stars [OF ne star, of p] by (auto simp: m'_def)
      qed
    next
      case False
      define w where "w = takeWhile (\<lambda>c. c \<noteq> CHR ''*'') m"
      define e where "e = dropWhile (\<lambda>c. c \<noteq> CHR ''*'') m"
      from less.prems ne False have w: "take (length w) p = w"
        and rec: "string_match_loop True s (drop (length w) p) e"
        by (subst (asm) string_match_loop.simps,
            auto simp: Let_def w_def e_def strncmp_word [symmetric] split: if_splits)+
      have lt: "length e < length m" using length_dropWhile_hd [OF ne] False by (simp add: e_def)
      have "glob (w @ e) p"
        by (rule glob_word_take)
          (use less.hyps [OF lt rec] w star_notin_word in \<open>simp_all add: w_def\<close>)
      then show ?thesis by (simp add: w_def e_def)
    qed
  qed
qed

text \<open>
  Claim C6.  A string that \<open>string_match\<close> accepts with case matches the mask.  (Without case, on ASCII strings: see
  \<open>string_match_ignore_case\<close>.)
\<close>

theorem string_match_sound:
  assumes "string_match (Some s) (Some m) True"
  shows "glob m s"
  using assms by (auto simp: string_match_def intro: string_match_loop_sound)

theorem string_match_sound_witness: "glob ''irc.*.#w*chat'' ''irc.libera.#weechat''"
  by (rule string_match_sound) code_simp

subsection \<open>Masks for which the search is exact\<close>

lemma takeWhile_word [simp]:
  "CHR ''*'' \<notin> set w \<Longrightarrow> takeWhile (\<lambda>c. c \<noteq> CHR ''*'') w = w"
  "CHR ''*'' \<notin> set w \<Longrightarrow> dropWhile (\<lambda>c. c \<noteq> CHR ''*'') w = []"
  "CHR ''*'' \<notin> set w \<Longrightarrow> takeWhile (\<lambda>c. c \<noteq> CHR ''*'') (w @ CHR ''*'' # m) = w"
  "CHR ''*'' \<notin> set w \<Longrightarrow> dropWhile (\<lambda>c. c \<noteq> CHR ''*'') (w @ CHR ''*'' # m) = CHR ''*'' # m"
  by (induction w) auto

lemma dropWhile_star [simp]:
  "CHR ''*'' \<notin> set w \<Longrightarrow> w \<noteq> [] \<Longrightarrow> dropWhile (\<lambda>c. c = CHR ''*'') (w @ m) = w @ m"
  by (cases w) auto

lemma loop_star [simp]: "string_match_loop cs s p [CHR ''*'']"
  by (simp add: string_match_loop.simps)

lemma loop_word:
  assumes "CHR ''*'' \<notin> set w" "w \<noteq> []" "m = [] \<or> hd m = CHR ''*''"
  shows "string_match_loop True s p (w @ m) \<longleftrightarrow>
    s \<noteq> [] \<and> take (length w) p = w \<and> string_match_loop True s (drop (length w) p) m"
proof -
  have "hd (w @ m) \<noteq> CHR ''*''" "takeWhile (\<lambda>c. c \<noteq> CHR ''*'') (w @ m) = w"
    "dropWhile (\<lambda>c. c \<noteq> CHR ''*'') (w @ m) = m"
    using assms by (cases w; cases m; auto)+
  then show ?thesis using assms(2)
    by (subst string_match_loop.simps) (auto simp: Let_def strncmp_word)
qed

lemma loop_floating:
  assumes "CHR ''*'' \<notin> set w" "w \<noteq> []"
  shows "string_match_loop True s p (CHR ''*'' # w @ ''*'') \<longleftrightarrow> s \<noteq> [] \<and> strstr p w \<noteq> None"
  using assms by (subst string_match_loop.simps)
    (auto simp: Let_def string_match_find_def split: option.split)

text \<open>
  Claim C7.  With case, for the masks \<open>word\<close>, \<open>word*\<close>, \<open>*word*\<close> and \<open>word*word*\<close> the function
  is exact: the string is the word, starts with it, holds it, or starts with the first and holds
  the second after it.
\<close>

theorem string_match_exact:
  assumes "CHR ''*'' \<notin> set w" "w \<noteq> []" "CHR ''*'' \<notin> set v" "v \<noteq> []"
  shows "(string_match (Some s) (Some w) True \<longleftrightarrow> s = w) \<and>
    (string_match (Some s) (Some (w @ ''*'')) True \<longleftrightarrow> (\<exists>u. s = w @ u)) \<and>
    (string_match (Some s) (Some (''*'' @ w @ ''*'')) True \<longleftrightarrow> (\<exists>t u. s = t @ w @ u)) \<and>
    (string_match (Some s) (Some (w @ ''*'' @ v @ ''*'')) True \<longleftrightarrow> (\<exists>t u. s = w @ t @ v @ u))"
proof (intro conjI)
  have pre: "take (length w) s = w \<longleftrightarrow> (\<exists>u. s = w @ u)"
    by (metis append_eq_conv_conj append_take_drop_id)
  have ne: "(\<exists>u. s = w @ u) \<Longrightarrow> s \<noteq> []" using assms(2) by auto
  have "string_match (Some s) (Some w) True \<longleftrightarrow> string_match_loop True s s (w @ [])"
    using assms(2) by (simp add: string_match_def)
  also have "\<dots> \<longleftrightarrow> s = w"
    using assms(2) by (subst loop_word [OF assms(1,2)]) (auto simp: string_match_loop.simps pre)
  finally show "string_match (Some s) (Some w) True \<longleftrightarrow> s = w" .
  show "string_match (Some s) (Some (w @ ''*'')) True \<longleftrightarrow> (\<exists>u. s = w @ u)"
    using loop_word [OF assms(1,2), of "''*''" s s] pre ne by (auto simp: string_match_def)
  show "string_match (Some s) (Some (''*'' @ w @ ''*'')) True \<longleftrightarrow> (\<exists>t u. s = t @ w @ u)"
    using loop_floating [OF assms(1,2), of s s] assms(2) strstr_None [of s w]
    by (auto simp: string_match_def)
  have "string_match (Some s) (Some (w @ ''*'' @ v @ ''*'')) True \<longleftrightarrow>
      s \<noteq> [] \<and> take (length w) s = w \<and> strstr (drop (length w) s) v \<noteq> None"
    using loop_word [OF assms(1,2), of "''*'' @ v @ ''*''" s s]
      loop_floating [OF assms(3,4), of s "drop (length w) s"] assms(2)
    by (auto simp: string_match_def)
  also have "\<dots> \<longleftrightarrow> take (length w) s = w \<and> (\<exists>t u. drop (length w) s = t @ v @ u)"
    using strstr_None [of "drop (length w) s" v] pre ne by auto
  also have "\<dots> \<longleftrightarrow> (\<exists>t u. s = w @ t @ v @ u)"
    by (metis append_eq_conv_conj)
  finally show "string_match (Some s) (Some (w @ ''*'' @ v @ ''*'')) True \<longleftrightarrow> (\<exists>t u. s = w @ t @ v @ u)" .
qed

theorem string_match_exact_witness:
  "string_match (Some ''irc.libera.#weechat'') (Some (''irc.'' @ ''*'' @ ''.#wee'' @ ''*'')) True"
  by (rule string_match_exact [THEN conjunct2, THEN conjunct2, THEN conjunct2, THEN iffD2])
    (simp, simp, simp, simp, rule exI [of _ "''libera''"], rule exI [of _ "''chat''"], simp)

subsection \<open>Lists of masks\<close>

lemma string_match_list_loop_iff:
  "string_match_list_loop s ms cs match \<longleftrightarrow>
     (\<forall>m\<in>set ms. bat m 0 = byte (CHR ''!'') \<longrightarrow> \<not> string_match (Some s) (Some (drop 1 m)) cs) \<and>
     (match \<or> (\<exists>m\<in>set ms. bat m 0 \<noteq> byte (CHR ''!'') \<and> string_match (Some s) (Some m) cs))"
  by (induction ms arbitrary: match) (auto simp: Let_def)

text \<open>
  A list of masks accepts a string exactly when one of its masks matches and no
  negative mask does, in whatever order they are.
\<close>

theorem string_match_list_iff:
  "string_match_list (Some s) (Some ms) cs \<longleftrightarrow>
     (\<exists>m \<in> set ms. bat m 0 \<noteq> byte (CHR ''!'') \<and> string_match (Some s) (Some m) cs) \<and>
     \<not> (\<exists>m \<in> set ms. bat m 0 = byte (CHR ''!'') \<and> string_match (Some s) (Some (drop 1 m)) cs)"
  by (auto simp: string_match_list_def string_match_list_loop_iff)


subsection \<open>Case-insensitive matches of ASCII strings\<close>

lemma find_ascii:
  assumes "ascii s" "ascii w" "w \<noteq> []"
  shows "string_match_find True (map lower s) (map lower w) = map_option (map lower) (string_match_find False s w)"
proof -
  have "strstr (map lower s) (map lower w) = map_option (map lower) (string_strcasestr_loop s w (length w))"
    using assms
  proof (induction s)
    case (Cons c s)
    then show ?case
      using strncasecmp_ascii [of "c # s" w] by (auto simp: utf8_skip_ascii)
  qed simp
  then show ?thesis
    using assms by (simp add: string_match_find_def string_strcasestr_def utf8_strlen_def utf8_strlen_ascii)
qed

lemma find_ascii_closed: "string_match_find cs s w = Some q \<Longrightarrow> ascii s \<Longrightarrow> ascii q"
  by (auto simp: string_match_find_def string_strcasestr_def Let_def suffix_def ascii_def
      split: if_splits option.splits dest!: strstr_suffix string_strcasestr_loop_suffix)

lemma last_ascii:
  assumes "ascii p" "ascii w"
  shows "string_match_last True (map lower p) (map lower w) = map lower (string_match_last False p w)
    \<and> ascii (string_match_last False p w)"
  using assms(1)
proof (induction "length p" arbitrary: p rule: less_induct)
  case less
  show ?case
  proof (cases "w = [] \<or> p = []")
    case True
    then show ?thesis using less.prems by (auto simp: string_match_last.simps)
  next
    case False
    let ?f = "string_match_find False (drop (length w) p) w"
    have f: "string_match_find True (drop (length w) (map lower p)) (map lower w) = map_option (map lower) ?f"
      using find_ascii [of "drop (length w) p" w] less.prems assms(2) False by (simp add: drop_map)
    show ?thesis
    proof (cases ?f)
      case None
      then show ?thesis using f less.prems False
        by (simp add: string_match_last.simps [of True "map lower p"] string_match_last.simps [of False p])
    next
      case (Some q)
      have "length q < length p"
        using string_match_find_length [OF Some] False by (cases p; cases w) auto
      from less.hyps [OF this] find_ascii_closed [OF Some] less.prems
      show ?thesis using f Some False
        by (simp add: string_match_last.simps [of True "map lower p"] string_match_last.simps [of False p])
    qed
  qed
qed

lemma lower_star: "lower c = CHR ''*'' \<longleftrightarrow> c = CHR ''*''"
proof -
  have "byte (lower c) = byte (CHR ''*'') \<longleftrightarrow> byte c = byte (CHR ''*'')" by (simp add: byte_lower)
  then show ?thesis by (simp only: of_char_eq_iff)
qed

lemma map_lower_While:
  "takeWhile (\<lambda>c. c \<noteq> CHR ''*'') (map lower m) = map lower (takeWhile (\<lambda>c. c \<noteq> CHR ''*'') m)"
  "dropWhile (\<lambda>c. c \<noteq> CHR ''*'') (map lower m) = map lower (dropWhile (\<lambda>c. c \<noteq> CHR ''*'') m)"
  "dropWhile (\<lambda>c. c = CHR ''*'') (map lower m) = map lower (dropWhile (\<lambda>c. c = CHR ''*'') m)"
  by (simp_all add: takeWhile_map dropWhile_map comp_def lower_star)

lemma ascii_While [simp]:
  "ascii m \<Longrightarrow> ascii (takeWhile P m)" "ascii m \<Longrightarrow> ascii (dropWhile P m)"
  by (auto simp: ascii_def dest: set_takeWhileD set_dropWhileD)

lemma loop_wild:
  assumes "m \<noteq> []" "hd m = CHR ''*''" "m' = dropWhile (\<lambda>c. c = CHR ''*'') m" "m' \<noteq> []" "s \<noteq> []"
    and "w = takeWhile (\<lambda>c. c \<noteq> CHR ''*'') m'" "e = dropWhile (\<lambda>c. c \<noteq> CHR ''*'') m'"
  shows "string_match_loop cs s p m = (case string_match_find cs p w of None \<Rightarrow> False
    | Some q \<Rightarrow> string_match_loop cs s (drop (length w) (string_match_last cs q w)) e)"
  using assms by (subst string_match_loop.simps) (auto simp: Let_def split: option.split)

lemma loop_nowild:
  assumes "m \<noteq> []" "hd m \<noteq> CHR ''*''" "s \<noteq> []"
    and "w = takeWhile (\<lambda>c. c \<noteq> CHR ''*'') m" "e = dropWhile (\<lambda>c. c \<noteq> CHR ''*'') m"
  shows "string_match_loop cs s p m \<longleftrightarrow>
    (if cs then strncmp p w (length w) = 0
     else string_strncasecmp (Some p) (Some w) (int (utf8_strlen (Some w))) = 0) \<and>
    string_match_loop cs s (drop (length w) p) e"
  using assms by (subst string_match_loop.simps) (auto simp: Let_def)

lemma string_match_loop_ascii:
  assumes "ascii p" "ascii m"
  shows "string_match_loop True (map lower s) (map lower p) (map lower m) = string_match_loop False s p m"
  using assms
proof (induction False s p m rule: string_match_loop.induct)
  case (1 s p m)
  let ?m = "if hd m = CHR ''*'' then dropWhile (\<lambda>c. c = CHR ''*'') m else m"
  let ?w = "takeWhile (\<lambda>c. c \<noteq> CHR ''*'') ?m" and ?e = "dropWhile (\<lambda>c. c \<noteq> CHR ''*'') ?m"
  show ?case
  proof (cases "m = [] \<or> s = [] \<or> hd m = CHR ''*'' \<and> ?m = []")
    case True
    then show ?thesis
      by (subst (1 2) string_match_loop.simps) (auto simp: Let_def hd_map lower_star map_lower_While)
  next
    case False
    have am: "ascii ?m" using 1(4) by simp
    have "?m \<noteq> [] \<and> hd ?m \<noteq> CHR ''*''"
      using False hd_dropWhile [of "\<lambda>c. c = CHR ''*''" m] by auto
    then have w: "?w \<noteq> []" by (simp add: takeWhile_eq_Nil_iff)
    show ?thesis
    proof (cases "hd m = CHR ''*''")
      case True
      let ?f = "string_match_find False p ?w"
      have f: "string_match_find True (map lower p) (map lower ?w) = map_option (map lower) ?f"
        using find_ascii 1(3) am w by simp
      have L: "string_match_loop True (map lower s) (map lower p) (map lower m) =
          (case string_match_find True (map lower p) (map lower ?w) of None \<Rightarrow> False
           | Some q \<Rightarrow> string_match_loop True (map lower s)
               (drop (length (map lower ?w)) (string_match_last True q (map lower ?w))) (map lower ?e))"
        by (rule loop_wild [of _ "map lower ?m"])
          (use False True in \<open>simp_all add: hd_map lower_star map_lower_While\<close>)
      have R: "string_match_loop False s p m = (case ?f of None \<Rightarrow> False
           | Some q \<Rightarrow> string_match_loop False s (drop (length ?w) (string_match_last False q ?w)) ?e)"
        by (rule loop_wild [of _ ?m]) (use False True in simp_all)
      show ?thesis
      proof (cases ?f)
        case None
        show ?thesis unfolding L R f None by simp
      next
        case (Some q)
        have q: "ascii q" by (rule find_ascii_closed [OF Some 1(3)])
        have l: "string_match_last True (map lower q) (map lower ?w) = map lower (string_match_last False q ?w)"
          "ascii (string_match_last False q ?w)"
          using last_ascii [OF q, of ?w] am by simp_all
        have "string_match_loop True (map lower s) (map lower (drop (length ?w) (string_match_last False q ?w))) (map lower ?e)
          = string_match_loop False s (drop (length ?w) (string_match_last False q ?w)) ?e"
          by (rule 1(1)) (use True False Some l am in simp_all)
        then show ?thesis unfolding L R f Some option.map option.case l(1) drop_map length_map .
      qed
    next
      case nostar: False
      have c: "string_strncasecmp (Some p) (Some ?w) (int (utf8_strlen (Some ?w))) = 0 \<longleftrightarrow>
          strncmp (map lower p) (map lower ?w) (length ?w) = 0"
        using strncasecmp_ascii [OF 1(3), of ?w] strncmp_word [of "map lower p" "map lower ?w"] am
        by (simp add: utf8_strlen_def utf8_strlen_ascii)
      have "string_match_loop True (map lower s) (map lower (drop (length ?w) p)) (map lower ?e)
          = string_match_loop False s (drop (length ?w) p) ?e"
        if "strncmp (map lower p) (map lower ?w) (length ?w) = 0"
        by (rule 1(2)) (use nostar False 1(3) am that c in simp_all)
      moreover have "string_match_loop True (map lower s) (map lower p) (map lower m) \<longleftrightarrow>
          (if True then strncmp (map lower p) (map lower ?w) (length (map lower ?w)) = 0
           else string_strncasecmp (Some (map lower p)) (Some (map lower ?w))
             (int (utf8_strlen (Some (map lower ?w)))) = 0) \<and>
          string_match_loop True (map lower s) (drop (length (map lower ?w)) (map lower p)) (map lower ?e)"
        by (rule loop_nowild) (use False nostar in \<open>simp_all add: hd_map lower_star map_lower_While\<close>)
      moreover have "string_match_loop False s p m \<longleftrightarrow>
          (if False then strncmp p ?w (length ?w) = 0
           else string_strncasecmp (Some p) (Some ?w) (int (utf8_strlen (Some ?w))) = 0) \<and>
          string_match_loop False s (drop (length ?w) p) ?e"
        by (rule loop_nowild) (use False nostar in simp_all)
      ultimately show ?thesis unfolding c drop_map length_map if_True if_False by blast
    qed
  qed
qed

text \<open>
  On ASCII strings the case-insensitive match is the case-sensitive match of the
  strings in lower case.
\<close>

theorem string_match_ignore_case:
  assumes "ascii s" "ascii m"
  shows "string_match (Some s) (Some m) False
    \<longleftrightarrow> string_match (Some (string_tolower s)) (Some (string_tolower m)) True"
  using assms by (simp add: string_match_def tolower_ascii string_match_loop_ascii)

theorem string_match_ignore_case_witness:
  "string_match (Some ''#WeeChat'') (Some ''*wEE*'') False
    \<longleftrightarrow> string_match (Some (string_tolower ''#WeeChat'')) (Some (string_tolower ''*wEE*'')) True"
  by (rule string_match_ignore_case) simp_all

subsection \<open>Masks for which the search is not exact\<close>

text \<open>A word of one repeated char: the occurrences that do not overlap are counted from the first.\<close>

lemma take_replicate_eq: "0 < k \<Longrightarrow> take k (replicate n c) = replicate k c \<longleftrightarrow> k \<le> n"
  by (metis length_replicate length_take min.absorb_iff2 min.cobounded1 take_replicate)

lemma strstr_replicate: "0 < k \<Longrightarrow> strstr (replicate n c) (replicate k c) = (if k \<le> n then Some (replicate n c) else None)"
proof (induction n)
  case (Suc n)
  then show ?case using take_replicate_eq [of k "Suc n" c] by auto
qed simp

lemma string_match_last_replicate:
  assumes "0 < k" "k \<le> n"
  shows "string_match_last True (replicate n c) (replicate k c) = replicate (k + n mod k) c"
  using assms(2)
proof (induction n rule: less_induct)
  case (less n)
  have ne: "replicate k c \<noteq> []" "replicate n c \<noteq> []" using assms(1) less.prems by auto
  have find: "string_match_find True (drop (length (replicate k c)) (replicate n c)) (replicate k c) =
      (if k \<le> n - k then Some (replicate (n - k) c) else None)"
    using strstr_replicate [OF assms(1)] by (simp add: string_match_find_def)
  have m: "n mod k = (n - k) mod k" using less.prems by (simp add: le_mod_geq)
  show ?case
  proof (cases "k \<le> n - k")
    case True
    then show ?thesis using ne find less.IH [of "n - k"] assms(1) less.prems m by (subst string_match_last.simps) simp
  next
    case False
    then have "n = k + n mod k" using m less.prems by simp
    then show ?thesis using ne find False by (subst string_match_last.simps) simp
  qed
qed

lemma string_match_last_char:
  "hd p = b \<Longrightarrow> p \<noteq> [] \<Longrightarrow> \<exists>t u. string_match_last True p [b] = b # u \<and> p = t @ b # u \<and> b \<notin> set u"
proof (induction "length p" arbitrary: p rule: less_induct)
  case less
  obtain q where p: "p = b # q" using less.prems by (cases p) auto
  show ?case
  proof (cases "strstr q [b]")
    case None
    then have "b \<notin> set q" using strstr_None [of q "[b]"] by (auto simp: in_set_conv_decomp)
    then show ?thesis using None by (subst string_match_last.simps) (auto simp: p string_match_find_def)
  next
    case (Some r)
    then obtain v where v: "q = v @ r" "take 1 r = [b]" using strstr_Some [OF Some] by auto
    then have r: "r \<noteq> []" "hd r = b" by (cases r; simp)+
    obtain t u where "string_match_last True r [b] = b # u" "r = t @ b # u" "b \<notin> set u"
      using less.hyps [of r] r v(1) p by auto
    then show ?thesis using Some v(1) by (subst string_match_last.simps) (auto simp: p string_match_find_def)
  qed
qed

text \<open>
  Claim C8.  \<open>string_match\<close> takes the last of the occurrences of a word that follow each other from the first and does not come
  back.  So it refuses strings that match the mask: for a mask \<open>*\<close> and \<open>k\<close> times a char it accepts \<open>n\<close> times the char only when
  \<open>k\<close> divides \<open>n\<close>, where the mask stands for \<open>n\<close> from \<open>k\<close>; for \<open>*b*c*\<close> it accepts only a \<open>c\<close> after the last \<open>b\<close>, where the
  mask stands for a \<open>c\<close> after any \<open>b\<close>.
\<close>

theorem string_match_incomplete:
  assumes "a \<noteq> CHR ''*''" "b \<noteq> CHR ''*''" "c \<noteq> CHR ''*''" "0 < k"
  shows "(string_match (Some (replicate n a)) (Some (CHR ''*'' # replicate k a)) True \<longleftrightarrow> k \<le> n \<and> k dvd n) \<and>
    (glob (CHR ''*'' # replicate k a) (replicate n a) \<longleftrightarrow> k \<le> n) \<and>
    (string_match (Some s) (Some [CHR ''*'', b, CHR ''*'', c, CHR ''*'']) True \<longleftrightarrow>
      (\<exists>t u v. s = t @ b # u @ c # v \<and> b \<notin> set (u @ c # v))) \<and>
    (glob [CHR ''*'', b, CHR ''*'', c, CHR ''*''] s \<longleftrightarrow> (\<exists>t u v. s = t @ b # u @ c # v))"
proof (intro conjI)
  have star: "CHR ''*'' \<notin> set (replicate k a)" using assms(1) by (auto simp: set_replicate_conv_if)
  have w: "replicate k a \<noteq> []" using assms(4) by simp
  have "string_match_loop True s' (replicate m a) [] \<longleftrightarrow> m = 0" for s' m
    by (subst string_match_loop.simps) simp
  then have "string_match_loop True (replicate n a) (replicate n a) (CHR ''*'' # replicate k a) \<longleftrightarrow> n \<noteq> 0 \<and> k \<le> n \<and> n mod k = 0"
    using w dropWhile_star [OF star w, of "[]"] strstr_replicate [OF assms(4)] string_match_last_replicate [OF assms(4)] star
    by (subst string_match_loop.simps) (auto simp: Let_def string_match_find_def)
  then show "string_match (Some (replicate n a)) (Some (CHR ''*'' # replicate k a)) True \<longleftrightarrow> k \<le> n \<and> k dvd n"
    using assms(4) by (auto simp: string_match_def dvd_eq_mod_eq_0)
  have "glob (CHR ''*'' # replicate k a) (replicate n a) \<longleftrightarrow> (\<exists>t. replicate n a = t @ replicate k a)"
    by (simp only: glob_star glob_literal [OF star]) auto
  also have "\<dots> \<longleftrightarrow> k \<le> n"
    by (metis le_add2 le_add_diff_inverse2 length_append length_replicate replicate_add)
  finally show "glob (CHR ''*'' # replicate k a) (replicate n a) \<longleftrightarrow> k \<le> n" .
  have one: "strstr p [d] = None \<longleftrightarrow> d \<notin> set p" for p d
    using strstr_None [of p "[d]"] by (auto simp: in_set_conv_decomp)
  have "string_match_loop True s s [CHR ''*'', b, CHR ''*'', c, CHR ''*''] \<longleftrightarrow>
      (case strstr s [b] of None \<Rightarrow> False
       | Some p \<Rightarrow> s \<noteq> [] \<and> strstr (drop 1 (string_match_last True p [b])) [c] \<noteq> None)"
    using assms(2,3) loop_floating [of "[c]" s]
    by (subst string_match_loop.simps) (auto simp: Let_def string_match_find_def split: option.split)
  also have "\<dots> \<longleftrightarrow> (\<exists>t u v. s = t @ b # u @ c # v \<and> b \<notin> set (u @ c # v))"
  proof (cases "strstr s [b]")
    case None
    then have "b \<notin> set s" by (simp add: one)
    then show ?thesis using None by auto
  next
    case (Some p)
    then obtain t where t: "s = t @ p" "take 1 p = [b]" using strstr_Some [OF Some] by auto
    then have "p \<noteq> []" "hd p = b" by (cases p; simp)+
    then obtain t' u where u: "string_match_last True p [b] = b # u" "p = t' @ b # u" "b \<notin> set u"
      using string_match_last_char by blast
    have s: "s = (t @ t') @ b # u" using t(1) u(2) by simp
    have tw: "b \<notin> set ys \<Longrightarrow> takeWhile (\<lambda>d. d \<noteq> b) (ys @ b # zs) = ys" for ys zs by (induction ys) auto
    have "takeWhile (\<lambda>d. d \<noteq> b) (rev (x @ b # y)) = rev y" if "b \<notin> set y" for x y
      using tw [of "rev y" "rev x"] that by simp
    then have "y = u" if "s = x @ b # y" "b \<notin> set y" for x y
      using that u(3) s by (metis rev_is_rev_conv)
    then have "(\<exists>t u v. s = t @ b # u @ c # v \<and> b \<notin> set (u @ c # v)) \<longleftrightarrow> c \<in> set u"
      using s u(3) by (metis in_set_conv_decomp)
    moreover have "s \<noteq> []" using s by simp
    ultimately show ?thesis using Some u(1) one [of u c] by simp
  qed
  finally show "string_match (Some s) (Some [CHR ''*'', b, CHR ''*'', c, CHR ''*'']) True \<longleftrightarrow>
      (\<exists>t u v. s = t @ b # u @ c # v \<and> b \<notin> set (u @ c # v))" by (simp add: string_match_def)
  show "glob [CHR ''*'', b, CHR ''*'', c, CHR ''*''] s \<longleftrightarrow> (\<exists>t u v. s = t @ b # u @ c # v)"
  proof -
    have all: "glob [CHR ''*''] x" for x by (rule glob_all) simp_all
    have gb: "glob (b # m) x \<longleftrightarrow> (\<exists>y. x = b # y \<and> glob m y)" and gc: "glob (c # m) x \<longleftrightarrow> (\<exists>y. x = c # y \<and> glob m y)" for m x
      using assms(2,3) by (cases x; auto)+
    show ?thesis
      by (simp only: glob_star [of "[b, CHR ''*'', c, CHR ''*'']"] glob_star [of "[c, CHR ''*'']"] gb gc all) blast
  qed
qed

theorem string_match_incomplete_witness:
  "glob ''*aa'' ''aaa'' \<and> \<not> string_match (Some ''aaa'') (Some ''*aa'') True \<and>
   glob ''*b*c*'' ''abcb'' \<and> \<not> string_match (Some ''abcb'') (Some ''*b*c*'') True"
proof -
  have r: "replicate 3 (CHR ''a'') = ''aaa''" "CHR ''*'' # replicate 2 (CHR ''a'') = ''*aa''" by (simp_all add: numeral_eq_Suc)
  have no: "\<not> (\<exists>t u v. ''abcb'' = t @ CHR ''b'' # u @ CHR ''c'' # v \<and> CHR ''b'' \<notin> set (u @ CHR ''c'' # v))"
  proof
    assume "\<exists>t u v. ''abcb'' = t @ CHR ''b'' # u @ CHR ''c'' # v \<and> CHR ''b'' \<notin> set (u @ CHR ''c'' # v)"
    then obtain t y where "''abcb'' = t @ CHR ''b'' # y" "CHR ''b'' \<notin> set y" "y \<noteq> []" by auto
    then have "last y = CHR ''b''" by (metis last.simps last_appendR list.distinct(1))
    then show False using \<open>CHR ''b'' \<notin> set y\<close> \<open>y \<noteq> []\<close> by (metis last_in_set)
  qed
  have yes: "\<exists>t u v. ''abcb'' = t @ CHR ''b'' # u @ CHR ''c'' # v"
    by (intro exI [of _ "''a''"] exI [of _ "[]"] exI [of _ "''b''"]) simp
  have "\<not> (2 :: nat) dvd 3" by presburger
  then show ?thesis
    using string_match_incomplete [of "CHR ''a''" "CHR ''b''" "CHR ''c''" 2 3 "''abcb''", unfolded r] no yes by (simp only: refl) simp
qed

end
