(* ===== verification/Util.thy ===== *)
theory Util
  imports Numbers "HOL-Library.Signed_Division"
begin

text \<open>
  The times of \<open>src/core/wee-util.c\<close>: a \<open>struct timeval\<close> is seconds and microseconds.  The
  numbers are unbounded here; 64-bit seconds do not wrap in the lifetime of the program.
\<close>

record timeval =
  tv_sec :: int
  tv_usec :: int

definition util_timeval_cmp :: "timeval option \<Rightarrow> timeval option \<Rightarrow> int" where
  "util_timeval_cmp tv1 tv2 =
     (case (tv1, tv2) of
        (Some a, Some b) \<Rightarrow>
          if tv_sec a < tv_sec b then - 1
          else if tv_sec b < tv_sec a then 1
          else if tv_usec a < tv_usec b then - 1
          else if tv_usec b < tv_usec a then 1
          else 0
      | (Some _, None) \<Rightarrow> 1
      | (None, Some _) \<Rightarrow> - 1
      | (None, None) \<Rightarrow> 0)"

definition util_timeval_diff :: "timeval option \<Rightarrow> timeval option \<Rightarrow> int" where
  "util_timeval_diff tv1 tv2 =
     (case (tv1, tv2) of
        (Some a, Some b) \<Rightarrow>
          let diff_sec = tv_sec b - tv_sec a;
              diff_usec = tv_usec b - tv_usec a
          in if diff_usec < 0 then (diff_sec - 1) * 1000000 + (diff_usec + 1000000)
             else diff_sec * 1000000 + diff_usec
      | _ \<Rightarrow> 0)"

text \<open>The divisions of C truncate towards zero.\<close>

definition util_timeval_add :: "timeval \<Rightarrow> int \<Rightarrow> timeval" where
  "util_timeval_add tv interval =
     (let sec = tv_sec tv + interval sdiv 1000000;
          usec = tv_usec tv + interval smod 1000000
      in if usec > 1000000 then \<lparr>tv_sec = sec + 1, tv_usec = usec smod 1000000\<rparr>
         else \<lparr>tv_sec = sec, tv_usec = usec\<rparr>)"

text \<open>The time as one number of microseconds, and the times the system returns.\<close>

definition timeval_usecs :: "timeval \<Rightarrow> int" where
  "timeval_usecs tv = tv_sec tv * 1000000 + tv_usec tv"

definition timeval_ok :: "timeval \<Rightarrow> bool" where
  "timeval_ok tv \<longleftrightarrow> 0 \<le> tv_usec tv \<and> tv_usec tv < 1000000"

lemma sdiv_smod_nonneg: "0 \<le> (i::int) \<Longrightarrow> i sdiv 1000000 = i div 1000000 \<and> i smod 1000000 = i mod 1000000"
  by (simp add: signed_divide_int_def signed_modulo_int_def sgn_if)

lemma timeval_usecs_add:
  assumes "0 \<le> interval" "0 \<le> tv_usec tv" "tv_usec tv \<le> 1000000"
  shows "timeval_usecs (util_timeval_add tv interval) = timeval_usecs tv + interval"
proof -
  define q r where "q = interval div 1000000" and "r = interval mod 1000000"
  have i: "interval = q * 1000000 + r" and r: "0 \<le> r" "r < 1000000"
    by (simp_all add: q_def r_def)
  have qr: "interval sdiv 1000000 = q" "interval smod 1000000 = r"
    using sdiv_smod_nonneg [OF assms(1)] by (simp_all add: q_def r_def)
  show ?thesis
  proof (cases "tv_usec tv + r > 1000000")
    case True
    have "(tv_usec tv + r) mod 1000000 = (tv_usec tv + r - 1000000) mod 1000000"
      by (metis add_diff_cancel_right' diff_add_cancel mod_add_self2)
    also have "\<dots> = tv_usec tv + r - 1000000"
      using True r assms by (intro mod_pos_pos_trivial) auto
    finally show ?thesis
      using True assms sdiv_smod_nonneg [of "tv_usec tv + r"] r
      by (simp add: util_timeval_add_def timeval_usecs_def Let_def qr, simp add: i)
  qed (simp add: util_timeval_add_def timeval_usecs_def Let_def qr, simp add: i)
qed

text \<open>The microseconds of the sum may be \<open>1000000\<close>: the test is \<open>>\<close> where it should be \<open>\<ge>\<close>.\<close>

lemma util_timeval_add_not_normal:
  "timeval_ok \<lparr>tv_sec = 0, tv_usec = 999999\<rparr> \<and>
   \<not> timeval_ok (util_timeval_add \<lparr>tv_sec = 0, tv_usec = 999999\<rparr> 1)"
  by (simp add: timeval_ok_def util_timeval_add_def Let_def signed_divide_int_def signed_modulo_int_def)

lemma util_timeval_cmp_usecs:
  assumes "timeval_ok a" "timeval_ok b"
  shows "util_timeval_cmp (Some a) (Some b) = sgn (timeval_usecs a - timeval_usecs b)"
  using assms unfolding util_timeval_cmp_def timeval_ok_def timeval_usecs_def
  by (auto simp: sgn_if timeval.splits)

lemma util_timeval_diff_usecs:
  "util_timeval_diff (Some a) (Some b) = timeval_usecs b - timeval_usecs a"
  by (simp add: util_timeval_diff_def timeval_usecs_def Let_def algebra_simps)

end
