(* ===== verification/Hook_List.thy ===== *)
theory Hook_List
  imports Linked_List String_Match Util
begin

text \<open>
  The hooks, \<open>src/core/wee-hook.c\<close>: for each type of hook a doubly linked list sorted by
  priority, from which a hook is removed at once, or later when a callback is being executed.
  All hooks live in one memory; an operation that reads or writes a hook that is not there
  returns \<open>None\<close>.  \<open>malloc\<close> returns fresh addresses (\<open>hooks_break\<close>), never one that was freed,
  so that no use of a freed hook can go unnoticed.
\<close>

subsection \<open>The data\<close>

datatype hook_type =
  HOOK_TYPE_COMMAND | HOOK_TYPE_COMMAND_RUN | HOOK_TYPE_TIMER | HOOK_TYPE_FD | HOOK_TYPE_PROCESS
| HOOK_TYPE_CONNECT | HOOK_TYPE_LINE | HOOK_TYPE_PRINT | HOOK_TYPE_SIGNAL | HOOK_TYPE_HSIGNAL
| HOOK_TYPE_CONFIG | HOOK_TYPE_COMPLETION | HOOK_TYPE_MODIFIER | HOOK_TYPE_INFO
| HOOK_TYPE_INFO_HASHTABLE | HOOK_TYPE_INFOLIST | HOOK_TYPE_HDATA | HOOK_TYPE_FOCUS

text \<open>The types in the order of their numbers, the order of the loops over the types.\<close>

definition hook_types :: "hook_type list" where
  "hook_types =
     [HOOK_TYPE_COMMAND, HOOK_TYPE_COMMAND_RUN, HOOK_TYPE_TIMER, HOOK_TYPE_FD, HOOK_TYPE_PROCESS,
      HOOK_TYPE_CONNECT, HOOK_TYPE_LINE, HOOK_TYPE_PRINT, HOOK_TYPE_SIGNAL, HOOK_TYPE_HSIGNAL,
      HOOK_TYPE_CONFIG, HOOK_TYPE_COMPLETION, HOOK_TYPE_MODIFIER, HOOK_TYPE_INFO,
      HOOK_TYPE_INFO_HASHTABLE, HOOK_TYPE_INFOLIST, HOOK_TYPE_HDATA, HOOK_TYPE_FOCUS]"

definition hook_type_string :: "hook_type \<Rightarrow> cstr" where
  "hook_type_string t =
     (case t of
        HOOK_TYPE_COMMAND \<Rightarrow> ''command'' | HOOK_TYPE_COMMAND_RUN \<Rightarrow> ''command_run''
      | HOOK_TYPE_TIMER \<Rightarrow> ''timer'' | HOOK_TYPE_FD \<Rightarrow> ''fd'' | HOOK_TYPE_PROCESS \<Rightarrow> ''process''
      | HOOK_TYPE_CONNECT \<Rightarrow> ''connect'' | HOOK_TYPE_LINE \<Rightarrow> ''line'' | HOOK_TYPE_PRINT \<Rightarrow> ''print''
      | HOOK_TYPE_SIGNAL \<Rightarrow> ''signal'' | HOOK_TYPE_HSIGNAL \<Rightarrow> ''hsignal''
      | HOOK_TYPE_CONFIG \<Rightarrow> ''config'' | HOOK_TYPE_COMPLETION \<Rightarrow> ''completion''
      | HOOK_TYPE_MODIFIER \<Rightarrow> ''modifier'' | HOOK_TYPE_INFO \<Rightarrow> ''info''
      | HOOK_TYPE_INFO_HASHTABLE \<Rightarrow> ''info_hashtable'' | HOOK_TYPE_INFOLIST \<Rightarrow> ''infolist''
      | HOOK_TYPE_HDATA \<Rightarrow> ''hdata'' | HOOK_TYPE_FOCUS \<Rightarrow> ''focus'')"

text \<open>
  What a hook holds beyond the fields common to all: the structures \<open>t_hook_command\<close>,
  \<open>t_hook_timer\<close> and so on, without their descriptions.  \<open>Data_other\<close> stands for the types whose
  callbacks are called by code that is not modelled here.
\<close>

record hook_timer_data =
  interval :: int
  align_second :: int
  remaining_calls :: int
  last_exec :: timeval
  next_exec :: timeval

datatype hook_data =
  Data_command cstr
| Data_command_run cstr
| Data_timer hook_timer_data
| Data_fd int nat int
| Data_signal cstr
| Data_hsignal cstr
| Data_config "cstr option"
| Data_completion cstr
| Data_modifier cstr
| Data_info cstr
| Data_info_hashtable cstr
| Data_infolist cstr
| Data_hdata cstr
| Data_other

text \<open>
  The callback with the data sent to it is a number.  A hook that is marked as deleted has lost
  its data.
\<close>

record hook =
  hk_plugin :: "nat option"
  hk_subplugin :: "cstr option"
  hk_type :: hook_type
  hk_deleted :: bool
  hk_running :: int
  hk_priority :: int
  hk_callback :: nat
  hk_data :: "hook_data option"

record hooks =
  hooks_heap :: "hook heap"
  hooks_break :: nat
  weechat_hooks :: "hook_type \<Rightarrow> nat option"
  last_weechat_hook :: "hook_type \<Rightarrow> nat option"
  hooks_count :: "hook_type \<Rightarrow> int"
  hooks_count_total :: int
  hook_exec_recursion :: int
  real_delete_pending :: bool
  hook_fd_pollfd_count :: int
  hook_last_system_time :: int

text \<open>The argument is the current time.\<close>

definition hook_init :: "int \<Rightarrow> hooks" where
  "hook_init now =
     \<lparr>hooks_heap = (\<lambda>_. None), hooks_break = 0, weechat_hooks = (\<lambda>_. None),
      last_weechat_hook = (\<lambda>_. None), hooks_count = (\<lambda>_. 0), hooks_count_total = 0,
      hook_exec_recursion = 0, real_delete_pending = False, hook_fd_pollfd_count = 0,
      hook_last_system_time = now\<rparr>"

fun hook_search_type_loop :: "hook_type list \<Rightarrow> int \<Rightarrow> cstr \<Rightarrow> int" where
  "hook_search_type_loop [] i type = - 1"
| "hook_search_type_loop (t # ts) i type =
     (if strcmp (hook_type_string t) type = 0 then i else hook_search_type_loop ts (i + 1) type)"

definition hook_search_type :: "cstr option \<Rightarrow> int" where
  "hook_search_type type = (case type of None \<Rightarrow> - 1 | Some t \<Rightarrow> hook_search_type_loop hook_types 0 t)"

text \<open>The access \<open>HOOK_COMMAND(hook, command)\<close>; it fails on a hook without data.\<close>

definition HOOK_COMMAND :: "hook \<Rightarrow> cstr option" where
  "HOOK_COMMAND hk = (case hk_data hk of Some (Data_command c) \<Rightarrow> Some c | _ \<Rightarrow> None)"


subsection \<open>The lists\<close>

text \<open>The test of the loops of \<open>hook_find_pos\<close> on a hook that is not deleted.\<close>

definition hook_goes_before :: "hook \<Rightarrow> hook \<Rightarrow> bool option" where
  "hook_goes_before hook ptr_hook =
     (if hk_type hook = HOOK_TYPE_COMMAND then do {
        c \<leftarrow> HOOK_COMMAND hook;
        d \<leftarrow> HOOK_COMMAND ptr_hook;
        let rc_cmp = string_strcasecmp (Some c) (Some d);
        Some (rc_cmp < 0 \<or> (rc_cmp = 0 \<and> hk_priority hook > hk_priority ptr_hook)) }
      else Some (hk_priority hook > hk_priority ptr_hook))"

partial_function (option) hook_find_pos_loop ::
  "hook heap \<Rightarrow> hook \<Rightarrow> nat option \<Rightarrow> nat option option" where
  "hook_find_pos_loop h hook ptr_hook =
     (case ptr_hook of
        None \<Rightarrow> Some None
      | Some a \<Rightarrow> do {
          it \<leftarrow> h a;
          if hk_deleted (payload it) then hook_find_pos_loop h hook (next_item it)
          else do {
            b \<leftarrow> hook_goes_before hook (payload it);
            if b then Some (Some a) else hook_find_pos_loop h hook (next_item it) } })"

declare hook_find_pos_loop.simps [code]

definition hook_find_pos :: "hooks \<Rightarrow> hook \<Rightarrow> nat option option" where
  "hook_find_pos s hook = hook_find_pos_loop (hooks_heap s) hook (weechat_hooks s (hk_type hook))"

text \<open>The callbacks \<open>hook_fd_add_cb\<close> and \<open>hook_fd_remove_cb\<close>: the size of the array for \<open>poll\<close>.\<close>

definition hook_fd_realloc_pollfd :: "hooks \<Rightarrow> hooks" where
  "hook_fd_realloc_pollfd s =
     (if hooks_count s HOOK_TYPE_FD = hook_fd_pollfd_count s then s
      else s\<lparr>hook_fd_pollfd_count := hooks_count s HOOK_TYPE_FD\<rparr>)"

definition hook_callback_add :: "hook_type \<Rightarrow> hooks \<Rightarrow> hooks" where
  "hook_callback_add t s = (if t = HOOK_TYPE_FD then hook_fd_realloc_pollfd s else s)"

definition hook_callback_remove :: "hook_type \<Rightarrow> hooks \<Rightarrow> hooks" where
  "hook_callback_remove t s = (if t = HOOK_TYPE_FD then hook_fd_realloc_pollfd s else s)"

definition hook_add_to_list :: "hooks \<Rightarrow> nat \<Rightarrow> hooks option" where
  "hook_add_to_list s new_hook = do {
     it \<leftarrow> hooks_heap s new_hook;
     let t = hk_type (payload it);
     s \<leftarrow>
       (if weechat_hooks s t \<noteq> None then do {
          pos_hook \<leftarrow> hook_find_pos s (payload it);
          case pos_hook of
            Some q \<Rightarrow> do {
              pos \<leftarrow> hooks_heap s q;
              h \<leftarrow> set_prev new_hook (prev_item pos) (hooks_heap s);
              h \<leftarrow> set_next new_hook (Some q) h;
              h \<leftarrow> set_next_if (prev_item pos) (Some new_hook) h;
              let first_hook = (if prev_item pos \<noteq> None then weechat_hooks s t else Some new_hook);
              h \<leftarrow> set_prev q (Some new_hook) h;
              Some (s\<lparr>hooks_heap := h, weechat_hooks := (weechat_hooks s)(t := first_hook)\<rparr>) }
          | None \<Rightarrow> do {
              h \<leftarrow> set_prev new_hook (last_weechat_hook s t) (hooks_heap s);
              h \<leftarrow> set_next new_hook None h;
              last_hook \<leftarrow> last_weechat_hook s t;
              h \<leftarrow> set_next last_hook (Some new_hook) h;
              Some (s\<lparr>hooks_heap := h,
                      last_weechat_hook := (last_weechat_hook s)(t := Some new_hook)\<rparr>) } }
        else do {
          h \<leftarrow> set_prev new_hook None (hooks_heap s);
          h \<leftarrow> set_next new_hook None h;
          Some (s\<lparr>hooks_heap := h, weechat_hooks := (weechat_hooks s)(t := Some new_hook),
                  last_weechat_hook := (last_weechat_hook s)(t := Some new_hook)\<rparr>) });
     Some (hook_callback_add t
       (s\<lparr>hooks_count := (hooks_count s)(t := hooks_count s t + 1),
          hooks_count_total := hooks_count_total s + 1\<rparr>)) }"

text \<open>
  Every function that creates a hook allocates it, initializes it with \<open>hook_init_data\<close> and its
  data, and adds it to the list.
\<close>

definition hook_create :: "hooks \<Rightarrow> hook \<Rightarrow> (hooks \<times> nat) option" where
  "hook_create s hk = do {
     let new_hook = hooks_break s;
     s \<leftarrow> hook_add_to_list
       (s\<lparr>hooks_heap := (hooks_heap s)(new_hook \<mapsto> \<lparr>payload = hk, prev_item = None, next_item = None\<rparr>),
          hooks_break := Suc new_hook\<rparr>) new_hook;
     Some (s, new_hook) }"

text \<open>The hook is freed after the callback of its type.\<close>

definition hook_remove_from_list :: "hooks \<Rightarrow> nat \<Rightarrow> hooks option" where
  "hook_remove_from_list s hook = do {
     it \<leftarrow> hooks_heap s hook;
     let t = hk_type (payload it);
     let last_hook = (if last_weechat_hook s t = Some hook then prev_item it else last_weechat_hook s t);
     let new_hooks = (if prev_item it \<noteq> None then weechat_hooks s t else next_item it);
     h \<leftarrow> set_next_if (prev_item it) (next_item it) (hooks_heap s);
     h \<leftarrow> set_prev_if (next_item it) (prev_item it) h;
     let s = hook_callback_remove t
       (s\<lparr>hooks_heap := h, weechat_hooks := (weechat_hooks s)(t := new_hooks),
          last_weechat_hook := (last_weechat_hook s)(t := last_hook),
          hooks_count := (hooks_count s)(t := hooks_count s t - 1),
          hooks_count_total := hooks_count_total s - 1\<rparr>);
     Some (s\<lparr>hooks_heap := (hooks_heap s)(hook := None)\<rparr>) }"

partial_function (option) hook_remove_deleted_loop :: "hooks \<Rightarrow> nat option \<Rightarrow> hooks option" where
  "hook_remove_deleted_loop s ptr_hook =
     (case ptr_hook of
        None \<Rightarrow> Some s
      | Some a \<Rightarrow> do {
          it \<leftarrow> hooks_heap s a;
          s \<leftarrow> (if hk_deleted (payload it) then hook_remove_from_list s a else Some s);
          hook_remove_deleted_loop s (next_item it) })"

declare hook_remove_deleted_loop.simps [code]

text \<open>A loop over the types, from the first to the last.\<close>

fun for_types :: "(hook_type \<Rightarrow> hooks \<Rightarrow> hooks option) \<Rightarrow> hook_type list \<Rightarrow> hooks \<Rightarrow> hooks option" where
  "for_types f [] s = Some s"
| "for_types f (t # ts) s = do { s \<leftarrow> f t s; for_types f ts s }"

definition hook_remove_deleted :: "hooks \<Rightarrow> hooks option" where
  "hook_remove_deleted s =
     (if real_delete_pending s then do {
        s \<leftarrow> for_types (\<lambda>t s. hook_remove_deleted_loop s (weechat_hooks s t)) hook_types s;
        Some (s\<lparr>real_delete_pending := False\<rparr>) }
      else Some s)"

text \<open>
  \<open>"500|test"\<close> is the priority 500 and the name \<open>"test"\<close>; the priority is a \<open>long\<close> stored in an
  \<open>int\<close>.  \<open>strchr\<close> on a \<open>NULL\<close> string is an invalid read.
\<close>

definition HOOK_PRIORITY_DEFAULT :: int where
  "HOOK_PRIORITY_DEFAULT = 1000"

definition hook_get_priority_and_name :: "cstr option \<Rightarrow> (int \<times> cstr) option" where
  "hook_get_priority_and_name string_ptr = do {
     string \<leftarrow> string_ptr;
     Some (if CHR ''|'' \<in> set string
       then let str_priority = takeWhile (\<lambda>c. c \<noteq> CHR ''|'') string;
                pos = dropWhile (\<lambda>c. c \<noteq> CHR ''|'') string;
                (number, error) = strtol10 str_priority
            in if error = [] then (int_of_long number, tl pos) else (HOOK_PRIORITY_DEFAULT, string)
       else (HOOK_PRIORITY_DEFAULT, string)) }"

definition hook_init_data ::
  "nat option \<Rightarrow> hook_type \<Rightarrow> int \<Rightarrow> nat \<Rightarrow> hook_data \<Rightarrow> hook" where
  "hook_init_data plugin type priority callback data =
     \<lparr>hk_plugin = plugin, hk_subplugin = None, hk_type = type, hk_deleted = False, hk_running = 0,
      hk_priority = priority, hk_callback = callback, hk_data = Some data\<rparr>"

partial_function (option) hook_valid_loop :: "hook heap \<Rightarrow> nat option \<Rightarrow> nat \<Rightarrow> bool option" where
  "hook_valid_loop h ptr_hook hook =
     (case ptr_hook of
        None \<Rightarrow> Some False
      | Some a \<Rightarrow> do {
          it \<leftarrow> h a;
          if \<not> hk_deleted (payload it) \<and> a = hook then Some True
          else hook_valid_loop h (next_item it) hook })"

declare hook_valid_loop.simps [code]

fun hook_valid_types :: "hooks \<Rightarrow> hook_type list \<Rightarrow> nat \<Rightarrow> bool option" where
  "hook_valid_types s [] hook = Some False"
| "hook_valid_types s (t # ts) hook = do {
     b \<leftarrow> hook_valid_loop (hooks_heap s) (weechat_hooks s t) hook;
     if b then Some True else hook_valid_types s ts hook }"

definition hook_valid :: "hooks \<Rightarrow> nat option \<Rightarrow> bool option" where
  "hook_valid s hook = (case hook of None \<Rightarrow> Some False | Some a \<Rightarrow> hook_valid_types s hook_types a)"

definition hook_exec_start :: "hooks \<Rightarrow> hooks" where
  "hook_exec_start s = s\<lparr>hook_exec_recursion := hook_exec_recursion s + 1\<rparr>"

definition hook_exec_end :: "hooks \<Rightarrow> hooks option" where
  "hook_exec_end s =
     (let s = (if hook_exec_recursion s > 0 then s\<lparr>hook_exec_recursion := hook_exec_recursion s - 1\<rparr> else s)
      in if hook_exec_recursion s = 0 then hook_remove_deleted s else Some s)"

text \<open>Assignments to the fields of a hook.\<close>

definition hook_update :: "hooks \<Rightarrow> nat \<Rightarrow> (hook \<Rightarrow> hook) \<Rightarrow> hooks option" where
  "hook_update s a f = do {
     it \<leftarrow> hooks_heap s a;
     Some (s\<lparr>hooks_heap := (hooks_heap s)(a \<mapsto> it\<lparr>payload := f (payload it)\<rparr>)\<rparr>) }"

text \<open>The property \<open>"subplugin"\<close>; the other ones act on processes.\<close>

definition hook_set_subplugin :: "hooks \<Rightarrow> nat option \<Rightarrow> cstr \<Rightarrow> hooks option" where
  "hook_set_subplugin s hook val = do {
     valid \<leftarrow> hook_valid s hook;
     case hook of
       Some a \<Rightarrow> if valid then hook_update s a (\<lambda>hk. hk\<lparr>hk_subplugin := Some val\<rparr>) else Some s
     | None \<Rightarrow> Some s }"

definition unhook :: "hooks \<Rightarrow> nat option \<Rightarrow> hooks option" where
  "unhook s hook = do {
     valid \<leftarrow> hook_valid s hook;
     case hook of
       None \<Rightarrow> Some s
     | Some a \<Rightarrow>
         if \<not> valid then Some s
         else do {
           it \<leftarrow> hooks_heap s a;
           if hk_deleted (payload it) then Some s
           else do {
             s \<leftarrow> hook_update s a (\<lambda>hk. hk\<lparr>hk_data := None, hk_subplugin := None\<rparr>);
             if hook_exec_recursion s = 0 then hook_remove_from_list s a
             else do {
               s \<leftarrow> hook_update s a (\<lambda>hk. hk\<lparr>hk_deleted := True\<rparr>);
               Some (s\<lparr>real_delete_pending := True\<rparr>) } } } }"

partial_function (option) unhook_loop ::
  "(hook \<Rightarrow> bool) \<Rightarrow> hooks \<Rightarrow> nat option \<Rightarrow> hooks option" where
  "unhook_loop P s ptr_hook =
     (case ptr_hook of
        None \<Rightarrow> Some s
      | Some a \<Rightarrow> do {
          it \<leftarrow> hooks_heap s a;
          s \<leftarrow> (if P (payload it) then unhook s (Some a) else Some s);
          unhook_loop P s (next_item it) })"

declare unhook_loop.simps [code]

definition unhook_all_plugin :: "hooks \<Rightarrow> nat option \<Rightarrow> cstr option \<Rightarrow> hooks option" where
  "unhook_all_plugin s plugin subplugin =
     for_types (\<lambda>t s. unhook_loop (\<lambda>hk. hk_plugin hk = plugin \<and>
         (case subplugin of
            None \<Rightarrow> True
          | Some p \<Rightarrow> (case hk_subplugin hk of None \<Rightarrow> False | Some q \<Rightarrow> strcmp q p = 0)))
       s (weechat_hooks s t)) hook_types s"

definition unhook_all :: "hooks \<Rightarrow> hooks option" where
  "unhook_all s = for_types (\<lambda>t s. unhook_loop (\<lambda>_. True) s (weechat_hooks s t)) hook_types s"

end
