(* ===== verification/Hook_Inv.thy ===== *)
theory Hook_Inv
  imports Hook_List
begin

text \<open>
  The invariant of the lists of hooks and its preservation by every operation on the lists: the
  pointers and counters are consistent, the hooks are in order and a marked hook stays in its list
  until the outermost execution of callbacks ends.
\<close>

subsection \<open>The order of the hooks\<close>

definition hook_name :: "hook \<Rightarrow> cstr" where
  "hook_name hk = (case hk_data hk of Some (Data_command c) \<Rightarrow> c | _ \<Rightarrow> [])"

text \<open>Hooks in the order of the lists: by name for the commands, then the highest priority first.\<close>

definition hook_cmp :: "hook \<Rightarrow> hook \<Rightarrow> int" where
  "hook_cmp a b =
     (let c = string_strcasecmp (Some (hook_name a)) (Some (hook_name b))
      in if c \<noteq> 0 then c else hk_priority b - hk_priority a)"

interpretation hook_cmp: cmp_order hook_cmp
proof
  fix x y z
  show "sgn (hook_cmp x y) = - sgn (hook_cmp y x)"
    using strcasecmp.cmp_less_iff [of "hook_name x" "hook_name y"] strcasecmp.cmp_less_iff [of "hook_name y" "hook_name x"]
      strcasecmp.cmp_0_iff [of "hook_name x" "hook_name y"]
    by (auto simp: hook_cmp_def Let_def sgn_if)
  show "hook_cmp x y \<le> 0 \<Longrightarrow> hook_cmp y z \<le> 0 \<Longrightarrow> hook_cmp x z \<le> 0"
    using strcasecmp.cmp_transs [of "hook_name x" "hook_name y" "hook_name z"]
    by (auto simp: hook_cmp_def Let_def split: if_splits)
qed

text \<open>The data of a hook is that of its type, unless it is marked as deleted.\<close>

fun hook_data_ok :: "hook_type \<Rightarrow> hook_data \<Rightarrow> bool" where
  "hook_data_ok t (Data_command _) = (t = HOOK_TYPE_COMMAND)"
| "hook_data_ok t (Data_command_run _) = (t = HOOK_TYPE_COMMAND_RUN)"
| "hook_data_ok t (Data_timer _) = (t = HOOK_TYPE_TIMER)"
| "hook_data_ok t (Data_fd _ _ _) = (t = HOOK_TYPE_FD)"
| "hook_data_ok t (Data_signal _) = (t = HOOK_TYPE_SIGNAL)"
| "hook_data_ok t (Data_hsignal _) = (t = HOOK_TYPE_HSIGNAL)"
| "hook_data_ok t (Data_config _) = (t = HOOK_TYPE_CONFIG)"
| "hook_data_ok t (Data_completion _) = (t = HOOK_TYPE_COMPLETION)"
| "hook_data_ok t (Data_modifier _) = (t = HOOK_TYPE_MODIFIER)"
| "hook_data_ok t (Data_info _) = (t = HOOK_TYPE_INFO)"
| "hook_data_ok t (Data_info_hashtable _) = (t = HOOK_TYPE_INFO_HASHTABLE)"
| "hook_data_ok t (Data_infolist _) = (t = HOOK_TYPE_INFOLIST)"
| "hook_data_ok t (Data_hdata _) = (t = HOOK_TYPE_HDATA)"
| "hook_data_ok t Data_other =
     (t \<in> {HOOK_TYPE_PROCESS, HOOK_TYPE_CONNECT, HOOK_TYPE_LINE, HOOK_TYPE_PRINT, HOOK_TYPE_FOCUS})"

definition hook_ok :: "hook \<Rightarrow> bool" where
  "hook_ok hk \<longleftrightarrow> (case hk_data hk of None \<Rightarrow> hk_deleted hk \<and> hk_subplugin hk = None | Some d \<Rightarrow> \<not> hk_deleted hk \<and> hook_data_ok (hk_type hk) d)"

lemma hook_goes_before_cmp:
  assumes "hook_ok hk" "hook_ok q" "\<not> hk_deleted hk" "\<not> hk_deleted q" "hk_type q = hk_type hk"
  shows "hook_goes_before hk q = Some (hook_cmp hk q < 0)"
proof -
  obtain d e where d: "hk_data hk = Some d" "hk_data q = Some e"
    and ok: "hook_data_ok (hk_type hk) d" "hook_data_ok (hk_type hk) e"
    using assms by (auto simp: hook_ok_def split: option.splits)
  have z: "string_strcasecmp (Some []) (Some []) = 0" by (rule strcasecmp.cmp_refl)
  show ?thesis
  proof (cases "hk_type hk = HOOK_TYPE_COMMAND")
    case True
    then obtain c c' where "d = Data_command c" "e = Data_command c'" using ok by (cases d; cases e; auto)
    then show ?thesis using True d
      by (auto simp: hook_goes_before_def HOOK_COMMAND_def hook_cmp_def hook_name_def Let_def)
  next
    case False
    then have "hook_name hk = []" "hook_name q = []"
      using ok d by (auto simp: hook_name_def split: hook_data.split)
    then show ?thesis using False z by (simp add: hook_goes_before_def hook_cmp_def)
  qed
qed

subsection \<open>The invariant\<close>

abbreviation hook_map :: "hooks \<Rightarrow> nat \<Rightarrow> hook option" where
  "hook_map s \<equiv> payload_map (hooks_heap s)"

text \<open>
  The pointers represent, for each type, a list of addresses of hooks of that type; the counters
  hold the lengths.
\<close>

definition hooks_links :: "hooks \<Rightarrow> (hook_type \<Rightarrow> nat list) \<Rightarrow> bool" where
  "hooks_links s ch \<longleftrightarrow>
     (\<forall>t. dlist (hooks_heap s) (weechat_hooks s t) (last_weechat_hook s t) (ch t)) \<and>
     (\<forall>t. \<forall>a\<in>set (ch t). \<exists>hk. hook_map s a = Some hk \<and> hk_type hk = t) \<and>
     (\<forall>t. hooks_count s t = int (length (ch t))) \<and>
     hooks_count_total s = (\<Sum>t\<leftarrow>hook_types. int (length (ch t))) \<and>
     hook_fd_pollfd_count s = int (length (ch HOOK_TYPE_FD))"

definition alive :: "(nat \<Rightarrow> hook option) \<Rightarrow> nat list \<Rightarrow> hook list" where
  "alive m xs = filter (\<lambda>hk. \<not> hk_deleted hk) (map (the \<circ> m) xs)"

text \<open>
  Every hook of the memory is in the list of its type; marked hooks exist only while a removal is
  pending, which needs a callback being executed; the hooks that are not marked are in order.
\<close>

definition hooks_content ::
  "(nat \<Rightarrow> hook option) \<Rightarrow> (hook_type \<Rightarrow> nat list) \<Rightarrow> int \<Rightarrow> bool \<Rightarrow> nat \<Rightarrow> bool" where
  "hooks_content m ch recursion pending brk \<longleftrightarrow>
     (\<forall>a hk. m a = Some hk \<longrightarrow> a \<in> set (ch (hk_type hk)) \<and> a < brk \<and> hook_ok hk \<and> (hk_deleted hk \<longrightarrow> pending)) \<and>
     0 \<le> recursion \<and> (pending \<longrightarrow> 0 < recursion) \<and> (\<forall>t. cmp_ordered hook_cmp (alive m (ch t)))"

definition hooks_ok :: "hooks \<Rightarrow> (hook_type \<Rightarrow> nat list) \<Rightarrow> bool" where
  "hooks_ok s ch \<longleftrightarrow>
     hooks_links s ch \<and>
     hooks_content (hook_map s) ch (hook_exec_recursion s) (real_delete_pending s) (hooks_break s)"

lemma hook_types_all: "t \<in> set hook_types" "distinct hook_types"
  by (cases t; simp add: hook_types_def) (simp add: hook_types_def)

lemma sum_types_lengths:
  "(\<Sum>t\<leftarrow>hook_types. int (length (if t = u then xs else ch t))) =
    (\<Sum>t\<leftarrow>hook_types. int (length (ch t))) - int (length (ch u)) + int (length xs)"
  by (cases u) (simp_all add: hook_types_def)

lemma links_disjoint:
  "hooks_links s ch \<Longrightarrow> a \<in> set (ch t) \<Longrightarrow> a \<in> set (ch u) \<Longrightarrow> t = u"
  unfolding hooks_links_def by (metis option.inject)

lemma hooks_okD:
  assumes "hooks_ok s ch"
  shows "hooks_links s ch" "hook_map s a = Some hk \<Longrightarrow> a \<in> set (ch (hk_type hk))"
    "hook_map s a = Some hk \<Longrightarrow> a < hooks_break s" "hook_map s a = Some hk \<Longrightarrow> hook_ok hk"
    "hook_map s a = Some hk \<Longrightarrow> hk_deleted hk \<Longrightarrow> real_delete_pending s"
    "0 \<le> hook_exec_recursion s" "real_delete_pending s \<Longrightarrow> 0 < hook_exec_recursion s"
    "cmp_ordered hook_cmp (alive (hook_map s) (ch t))"
  using assms by (auto simp: hooks_ok_def hooks_content_def)

lemma linksD:
  assumes "hooks_links s ch"
  shows "dlist (hooks_heap s) (weechat_hooks s t) (last_weechat_hook s t) (ch t)"
    "a \<in> set (ch t) \<Longrightarrow> \<exists>hk. hook_map s a = Some hk \<and> hk_type hk = t"
    "hooks_count s t = int (length (ch t))"
  using assms by (auto simp: hooks_links_def)

lemma hooks_ok_init: "hooks_ok (hook_init now) (\<lambda>_. [])"
  by (simp add: hooks_ok_def hooks_content_def hooks_links_def hook_init_def dlist_def alive_def cmp_ordered_def
    payload_map_def hook_types_def)

subsection \<open>Adding and removing\<close>

lemma links_update_list:
  assumes l: "hooks_links s ch" and d: "dlist h f l xs" and t: "\<forall>a\<in>set xs. \<exists>hk. m a = Some hk \<and> hk_type hk = t"
    and other: "\<And>b. b \<notin> set xs \<Longrightarrow> b \<notin> set (ch t) \<Longrightarrow> h b = hooks_heap s b"
    and m: "payload_map h = m" and mo: "\<And>b. b \<notin> set xs \<Longrightarrow> b \<notin> set (ch t) \<Longrightarrow> m b = hook_map s b"
    and new: "\<And>a u. a \<in> set xs \<Longrightarrow> a \<in> set (ch u) \<Longrightarrow> u = t"
  shows "hooks_links ((if t = HOOK_TYPE_FD then hook_fd_realloc_pollfd else id)
      (s\<lparr>hooks_heap := h, weechat_hooks := (weechat_hooks s)(t := f),
         last_weechat_hook := (last_weechat_hook s)(t := l),
         hooks_count := (hooks_count s)(t := int (length xs)),
         hooks_count_total := hooks_count_total s - int (length (ch t)) + int (length xs)\<rparr>)) (ch(t := xs))"
proof -
  have "dlist h (weechat_hooks s u) (last_weechat_hook s u) (ch u)" if "u \<noteq> t" for u
  proof (rule dlist_frame [OF linksD(1) [OF l]])
    show "h b = hooks_heap s b" if "b \<in> set (ch u)" for b
      using that \<open>u \<noteq> t\<close> new links_disjoint [OF l] by (intro other) blast+
  qed
  moreover have "\<exists>hk. m a = Some hk \<and> hk_type hk = u" if "u \<noteq> t" "a \<in> set (ch u)" for a u
  proof -
    have "m a = hook_map s a" using that new links_disjoint [OF l] by (intro mo) blast+
    then show ?thesis using linksD(2) [OF l that(2)] by simp
  qed
  ultimately show ?thesis
    using l d t m by (auto simp: hooks_links_def hook_fd_realloc_pollfd_def sum_types_lengths)
qed

lemma hook_callback_fields [simp]:
  "hooks_heap (hook_callback_remove t s) = hooks_heap s" "hooks_heap (hook_callback_add t s) = hooks_heap s"
  "hook_exec_recursion (hook_callback_remove t s) = hook_exec_recursion s"
  "hook_exec_recursion (hook_callback_add t s) = hook_exec_recursion s"
  "real_delete_pending (hook_callback_remove t s) = real_delete_pending s"
  "real_delete_pending (hook_callback_add t s) = real_delete_pending s"
  "hooks_break (hook_callback_remove t s) = hooks_break s" "hooks_break (hook_callback_add t s) = hooks_break s"
  by (simp_all add: hook_callback_remove_def hook_callback_add_def hook_fd_realloc_pollfd_def)

lemma hook_remove_from_list_links:
  assumes l: "hooks_links s ch" and c: "ch t = xs @ a # ys"
  obtains s' where "hook_remove_from_list s a = Some s'" "hooks_links s' (ch(t := xs @ ys))"
    "hook_map s' = (hook_map s)(a := None)" "hook_exec_recursion s' = hook_exec_recursion s"
    "real_delete_pending s' = real_delete_pending s" "hooks_break s' = hooks_break s"
    "\<And>b. b \<notin> set (ch t) \<Longrightarrow> hooks_heap s' b = hooks_heap s b"
proof -
  from linksD(1) [OF l, of t] have d: "dlist (hooks_heap s) (weechat_hooks s t) (last_weechat_hook s t) (xs @ a # ys)"
    by (simp add: c)
  obtain it where it: "hooks_heap s a = Some it" using d by (rule dlist_item)
  have ty: "hk_type (payload it) = t"
    using linksD(2) [OF l, of a t] it by (auto simp: c payload_map_def)
  have dist: "distinct (xs @ a # ys)" using d by (rule dlist_distinct)
  obtain h1 h2 where h: "set_next_if (prev_item it) (next_item it) (hooks_heap s) = Some h1"
    "set_prev_if (next_item it) (prev_item it) h1 = Some h2"
    and dl: "dlist h2 (if prev_item it \<noteq> None then weechat_hooks s t else next_item it)
      (if last_weechat_hook s t = Some a then prev_item it else last_weechat_hook s t) (xs @ ys)"
    and fr: "\<And>b. b \<notin> set (xs @ ys) \<Longrightarrow> h2 b = hooks_heap s b" and pm: "payload_map h2 = hook_map s"
    using dlist_unlink [OF d it] by metis
  let ?s1 = "s\<lparr>hooks_heap := h2,
      weechat_hooks := (weechat_hooks s)(t := (if prev_item it \<noteq> None then weechat_hooks s t else next_item it)),
      last_weechat_hook := (last_weechat_hook s)(t := (if last_weechat_hook s t = Some a then prev_item it else last_weechat_hook s t)),
      hooks_count := (hooks_count s)(t := hooks_count s t - 1),
      hooks_count_total := hooks_count_total s - 1\<rparr>"
  let ?s2 = "hook_callback_remove t ?s1"
  let ?s' = "?s2\<lparr>hooks_heap := h2(a := None)\<rparr>"
  have rm: "hook_remove_from_list s a = Some ?s'"
    by (simp add: hook_remove_from_list_def it ty h Let_def)
  have dl': "dlist (h2(a := None)) (if prev_item it \<noteq> None then weechat_hooks s t else next_item it)
      (if last_weechat_hook s t = Some a then prev_item it else last_weechat_hook s t) (xs @ ys)"
    by (rule dlist_frame [OF dl]) (use dist in auto)
  have types: "\<forall>b\<in>set (xs @ ys). \<exists>hk. ((hook_map s)(a := None)) b = Some hk \<and> hk_type hk = t"
  proof
    fix b assume "b \<in> set (xs @ ys)"
    then have "b \<in> set (ch t)" "b \<noteq> a" using dist c by auto
    then show "\<exists>hk. ((hook_map s)(a := None)) b = Some hk \<and> hk_type hk = t"
      using linksD(2) [OF l, of b t] by simp
  qed
  have cnt: "hooks_count s t = int (length xs) + int (length ys) + 1" using linksD(3) [OF l, of t] c by simp
  have eq: "?s' = (if t = HOOK_TYPE_FD then hook_fd_realloc_pollfd else id)
      (s\<lparr>hooks_heap := h2(a := None),
         weechat_hooks := (weechat_hooks s)(t := (if prev_item it \<noteq> None then weechat_hooks s t else next_item it)),
         last_weechat_hook := (last_weechat_hook s)(t := (if last_weechat_hook s t = Some a then prev_item it else last_weechat_hook s t)),
         hooks_count := (hooks_count s)(t := int (length (xs @ ys))),
         hooks_count_total := hooks_count_total s - int (length (ch t)) + int (length (xs @ ys))\<rparr>)"
    using cnt c by (simp add: hook_callback_remove_def hook_fd_realloc_pollfd_def)
  have links: "hooks_links ?s' (ch(t := xs @ ys))"
    unfolding eq
  proof (rule links_update_list [OF l dl' types])
    show "payload_map (h2(a := None)) = (hook_map s)(a := None)" by (simp add: pm)
    show "(h2(a := None)) b = hooks_heap s b" if "b \<notin> set (xs @ ys)" "b \<notin> set (ch t)" for b
      using that fr c by auto
    show "((hook_map s)(a := None)) b = hook_map s b" if "b \<notin> set (xs @ ys)" "b \<notin> set (ch t)" for b
      using that c by auto
    show "u = t" if "b \<in> set (xs @ ys)" "b \<in> set (ch u)" for b u
      using that links_disjoint [OF l, of b u t] c by auto
  qed
  have o: "hook_exec_recursion ?s' = hook_exec_recursion s" "real_delete_pending ?s' = real_delete_pending s"
    "hooks_break ?s' = hooks_break s"
    by (simp_all add: hook_callback_remove_def hook_fd_realloc_pollfd_def)
  have fr': "hooks_heap ?s' b = hooks_heap s b" if "b \<notin> set (ch t)" for b
    using that fr [of b] c by auto
  show ?thesis by (rule that [OF rm links _ o fr']) (simp_all add: pm)
qed

lemma hook_find_pos_loop_seg:
  assumes "seg h p ys None" "\<And>a. a \<in> set ys \<Longrightarrow> \<exists>q. payload_map h a = Some q \<and> hook_ok q \<and> hk_type q = hk_type hk"
    and "hook_ok hk" "\<not> hk_deleted hk"
  shows "hook_find_pos_loop h hk (first_or ys None) = Some (first_or
    (dropWhile (\<lambda>a. hk_deleted (the (payload_map h a)) \<or> 0 \<le> hook_cmp hk (the (payload_map h a))) ys) None)"
  using assms(1,2)
proof (induction ys arbitrary: p)
  case Nil
  then show ?case by (subst hook_find_pos_loop.simps) simp
next
  case (Cons a ys)
  from Cons.prems(1) obtain it where it: "h a = Some it" "next_item it = first_or ys None"
    and s: "seg h (Some a) ys None" by auto
  from Cons.prems(2) [of a] it have q: "hook_ok (payload it)" "hk_type (payload it) = hk_type hk"
    by (auto simp: payload_map_def)
  have IH: "hook_find_pos_loop h hk (first_or ys None) = Some (first_or
    (dropWhile (\<lambda>a. hk_deleted (the (payload_map h a)) \<or> 0 \<le> hook_cmp hk (the (payload_map h a))) ys) None)"
    by (rule Cons.IH [OF s]) (use Cons.prems(2) in simp)
  show ?case
    using hook_goes_before_cmp [OF assms(3) q(1) assms(4) _ q(2)] IH
    by (subst hook_find_pos_loop.simps) (auto simp: it payload_map_def)
qed

lemma alive_simps [simp]:
  "alive m [] = []" "alive m (xs @ ys) = alive m xs @ alive m ys"
  "alive m (a # xs) = (if hk_deleted (the (m a)) then alive m xs else the (m a) # alive m xs)"
  by (simp_all add: alive_def)

lemma alive_cong: "(\<And>a. a \<in> set xs \<Longrightarrow> m' a = m a) \<Longrightarrow> alive m' xs = alive m xs"
  by (simp add: alive_def cong: map_cong)

lemma set_alive: "hk \<in> set (alive m xs) \<longleftrightarrow> \<not> hk_deleted hk \<and> (\<exists>a\<in>set xs. hk = the (m a))"
  by (auto simp: alive_def)

lemma alive_insert:
  fixes m hk
  defines "P \<equiv> \<lambda>a. hk_deleted (the (m a)) \<or> 0 \<le> hook_cmp hk (the (m a))"
  assumes "cmp_ordered hook_cmp (alive m zs)"
  shows "alive m (takeWhile P zs) @ hk # alive m (dropWhile P zs) = ins_after hook_cmp hk (alive m zs)"
proof -
  have t: "\<forall>x\<in>set (alive m (takeWhile P zs)). 0 \<le> hook_cmp hk x"
    by (auto simp: set_alive P_def dest: set_takeWhileD)
  have d: "\<forall>x\<in>set (alive m (dropWhile P zs)). hook_cmp hk x < 0"
  proof (cases "dropWhile P zs")
    case (Cons q ys)
    then have q: "\<not> P q" by (metis dropWhile_eq_Cons_conv)
    have "alive m zs = alive m (takeWhile P zs) @ alive m (dropWhile P zs)"
      by (simp flip: alive_simps(2))
    then have "cmp_ordered hook_cmp (alive m (q # ys))"
      using assms(2) Cons by (simp add: cmp_ordered_def sorted_wrt_append)
    then have o: "\<forall>x\<in>set (alive m ys). hook_cmp (the (m q)) x \<le> 0"
      using q by (simp add: cmp_ordered_def P_def)
    show ?thesis
      using Cons q o hook_cmp.cmp_less_le_trans [of hk "the (m q)"] by (auto simp: P_def)
  next
    case Nil
    then show ?thesis by (simp del: dropWhile_eq_Nil_conv)
  qed
  have f: "filter (\<lambda>x. 0 \<le> hook_cmp hk x) (alive m (takeWhile P zs)) = alive m (takeWhile P zs)"
    "filter (\<lambda>x. hook_cmp hk x < 0) (alive m (dropWhile P zs)) = alive m (dropWhile P zs)"
    using t d by (auto simp: filter_id_conv)
  have g: "filter (\<lambda>x. 0 \<le> hook_cmp hk x) (alive m (dropWhile P zs)) = []"
    "filter (\<lambda>x. hook_cmp hk x < 0) (alive m (takeWhile P zs)) = []"
    using t d by (auto simp: filter_empty_conv)
  have "alive m zs = alive m (takeWhile P zs) @ alive m (dropWhile P zs)"
    by (simp flip: alive_simps(2))
  then show ?thesis
    by (simp add: ins_after_def f g)
qed

lemma hook_add_to_list_links:
  assumes l: "hooks_links s ch" and a: "hook_map s a = Some hk" "\<And>t. a \<notin> set (ch t)"
    and ok: "hook_ok hk" "\<not> hk_deleted hk" "\<And>b q t. b \<in> set (ch t) \<Longrightarrow> hook_map s b = Some q \<Longrightarrow> hook_ok q"
  defines "P \<equiv> \<lambda>a. hk_deleted (the (hook_map s a)) \<or> 0 \<le> hook_cmp hk (the (hook_map s a))"
  obtains s' where "hook_add_to_list s a = Some s'"
    "hooks_links s' (ch(hk_type hk := takeWhile P (ch (hk_type hk)) @ a # dropWhile P (ch (hk_type hk))))"
    "hook_map s' = hook_map s" "hook_exec_recursion s' = hook_exec_recursion s"
    "real_delete_pending s' = real_delete_pending s" "hooks_break s' = hooks_break s"
proof -
  note result = that
  let ?t = "hk_type hk"
  let ?xs = "takeWhile P (ch ?t)" and ?ys = "dropWhile P (ch ?t)"
  from a(1) obtain it where it: "hooks_heap s a = Some it" "payload it = hk" by (auto simp: payload_map_def)
  have d: "dlist (hooks_heap s) (weechat_hooks s ?t) (last_weechat_hook s ?t) (ch ?t)"
    by (rule linksD(1) [OF l])
  have find: "hook_find_pos s hk = Some (first_or ?ys None)"
  proof -
    have q: "\<exists>q. hook_map s b = Some q \<and> hook_ok q \<and> hk_type q = ?t" if "b \<in> set (ch ?t)" for b
      using linksD(2) [OF l that] ok(3) [OF that] by blast
    have "hook_find_pos_loop (hooks_heap s) hk (first_or (ch ?t) None) = Some (first_or ?ys None)"
      unfolding P_def
      by (rule hook_find_pos_loop_seg [of _ None, OF _ q ok(1,2)]) (use d in \<open>auto simp: dlist_def\<close>)
    then show ?thesis using d by (simp add: hook_find_pos_def dlist_def)
  qed
  have done_links: "hook_add_to_list s a = Some s' \<Longrightarrow> thesis"
    if s': "s' = hook_callback_add ?t (s\<lparr>hooks_heap := h, weechat_hooks := (weechat_hooks s)(?t := f),
        last_weechat_hook := (last_weechat_hook s)(?t := lst),
        hooks_count := (hooks_count s)(?t := hooks_count s ?t + 1),
        hooks_count_total := hooks_count_total s + 1\<rparr>)"
      and dl: "dlist h f lst (?xs @ a # ?ys)" and fr: "\<And>b. b \<notin> set (?xs @ a # ?ys) \<Longrightarrow> h b = hooks_heap s b"
      and pm: "payload_map h = hook_map s" for h f lst s'
  proof -
    assume add: "hook_add_to_list s a = Some s'"
    have ch: "ch ?t = ?xs @ ?ys" by simp
    have len: "length (ch ?t) = length ?xs + length ?ys"
      by (metis length_append takeWhile_dropWhile_id)
    have cnt: "hooks_count s ?t = int (length (ch ?t))" by (rule linksD(3) [OF l])
    have eq: "s' = (if ?t = HOOK_TYPE_FD then hook_fd_realloc_pollfd else id)
      (s\<lparr>hooks_heap := h, weechat_hooks := (weechat_hooks s)(?t := f),
        last_weechat_hook := (last_weechat_hook s)(?t := lst),
        hooks_count := (hooks_count s)(?t := int (length (?xs @ a # ?ys))),
        hooks_count_total := hooks_count_total s - int (length (ch ?t)) + int (length (?xs @ a # ?ys))\<rparr>)"
      using cnt len by (simp add: s' hook_callback_add_def ac_simps)
    have links: "hooks_links s' (ch(?t := ?xs @ a # ?ys))"
      unfolding eq
    proof (rule links_update_list [OF l dl])
      show "\<forall>b\<in>set (?xs @ a # ?ys). \<exists>hk'. hook_map s b = Some hk' \<and> hk_type hk' = ?t"
      proof
        fix b assume "b \<in> set (?xs @ a # ?ys)"
        then have "b = a \<or> b \<in> set (ch ?t)" by (auto dest: set_takeWhileD set_dropWhileD)
        then show "\<exists>hk'. hook_map s b = Some hk' \<and> hk_type hk' = ?t"
          using a linksD(2) [OF l, of b ?t] by auto
      qed
      show "u = ?t" if "b \<in> set (?xs @ a # ?ys)" "b \<in> set (ch u)" for b u
        using that links_disjoint [OF l, of b u ?t] a(2)
        by (auto dest: set_takeWhileD set_dropWhileD)
    qed (use fr pm in auto)
    show thesis
      by (rule result [OF add links]) (simp_all add: s' pm)
  qed
  show thesis
  proof (cases "ch ?t = []")
    case True
    then have w: "weechat_hooks s ?t = None" using d by (simp add: dlist_def)
    obtain h1 h2 where h: "set_prev a None (hooks_heap s) = Some h1" "set_next a None h1 = Some h2"
      and dl: "dlist h2 (Some a) (Some a) [a]" "\<And>b. b \<noteq> a \<Longrightarrow> h2 b = hooks_heap s b"
      and pm: "payload_map h2 = hook_map s"
      using dlist_link_empty [of "hooks_heap s" a it, OF it(1)] by metis
    show thesis
      by (rule done_links [OF refl, where h = h2 and f = "Some a" and lst = "Some a"])
         (use True dl pm in \<open>simp_all add: hook_add_to_list_def it w h Let_def\<close>)
  next
    case ne: False
    then have w: "weechat_hooks s ?t \<noteq> None" using d by (simp add: dlist_def)
    show thesis
    proof (cases ?ys)
      case Nil
      then have xs: "?xs = ch ?t" by (metis append_Nil2 takeWhile_dropWhile_id)
      from d ne obtain z where z: "last_weechat_hook s ?t = Some z" by (auto simp: dlist_def last_or_def)
      obtain h1 h2 h3 where h: "set_prev a (Some z) (hooks_heap s) = Some h1" "set_next a None h1 = Some h2"
        "set_next z (Some a) h2 = Some h3" and dl: "dlist h3 (weechat_hooks s ?t) (Some a) (ch ?t @ [a])"
        "\<And>b. b \<notin> set (ch ?t @ [a]) \<Longrightarrow> h3 b = hooks_heap s b" and pm: "payload_map h3 = hook_map s"
        using dlist_link_end [OF d [unfolded z] it(1) a(2)] by metis
      show thesis
        by (rule done_links [OF refl, where h = h3 and f = "weechat_hooks s ?t" and lst = "Some a"])
           (use dl pm in \<open>simp_all add: xs Nil hook_add_to_list_def it w h Let_def find z\<close>)
    next
      case (Cons q ys)
      then have c: "ch ?t = ?xs @ q # ys" by (metis takeWhile_dropWhile_id)
      have d': "dlist (hooks_heap s) (weechat_hooks s ?t) (last_weechat_hook s ?t) (?xs @ q # ys)"
        using d c by simp
      obtain pos where pos: "hooks_heap s q = Some pos" using d' by (rule dlist_item)
      have nin: "a \<notin> set (?xs @ q # ys)" using a(2) [of ?t] c by metis
      obtain h1 h2 h3 h4 where h: "set_prev a (prev_item pos) (hooks_heap s) = Some h1" "set_next a (Some q) h1 = Some h2"
        "set_next_if (prev_item pos) (Some a) h2 = Some h3" "set_prev q (Some a) h3 = Some h4"
        and dl: "dlist h4 (if prev_item pos \<noteq> None then weechat_hooks s ?t else Some a) (last_weechat_hook s ?t) (?xs @ a # q # ys)"
        "\<And>b. b \<notin> set (?xs @ a # q # ys) \<Longrightarrow> h4 b = hooks_heap s b" and pm: "payload_map h4 = hook_map s"
        using dlist_link_before [OF d' it(1) nin pos] by metis
      show thesis
        by (rule done_links [OF refl, where h = h4 and f = "if prev_item pos \<noteq> None then weechat_hooks s ?t else Some a"
              and lst = "last_weechat_hook s ?t"])
           (use dl pm Cons in \<open>simp_all add: hook_add_to_list_def it w h Let_def find pos\<close>)
    qed
  qed
qed

subsection \<open>Updating a hook\<close>

lemma links_update:
  assumes "hooks_links s ch" "hooks_heap s a = Some it" "hk_type (f (payload it)) = hk_type (payload it)"
  shows "hook_update s a f = Some (s\<lparr>hooks_heap := (hooks_heap s)(a \<mapsto> it\<lparr>payload := f (payload it)\<rparr>)\<rparr>)"
    and "hooks_links (s\<lparr>hooks_heap := (hooks_heap s)(a \<mapsto> it\<lparr>payload := f (payload it)\<rparr>)\<rparr>) ch"
proof -
  have seg: "seg ((hooks_heap s)(a \<mapsto> it\<lparr>payload := x\<rparr>)) p xs n = seg (hooks_heap s) p xs n" for p xs n x
    using assms(2) by (induction xs arbitrary: p) auto
  have d: "dlist ((hooks_heap s)(a \<mapsto> it\<lparr>payload := x\<rparr>)) f l xs = dlist (hooks_heap s) f l xs" for f l xs x
    by (simp add: dlist_def seg)
  show "hook_update s a f = Some (s\<lparr>hooks_heap := (hooks_heap s)(a \<mapsto> it\<lparr>payload := f (payload it)\<rparr>)\<rparr>)"
    by (simp add: hook_update_def assms(2))
  have t: "\<exists>hk. ((hook_map s)(a \<mapsto> f (payload it))) b = Some hk \<and> hk_type hk = t" if "b \<in> set (ch t)" for b t
    using linksD(2) [OF assms(1) that] assms(2,3) by (auto simp: payload_map_def)
  show "hooks_links (s\<lparr>hooks_heap := (hooks_heap s)(a \<mapsto> it\<lparr>payload := f (payload it)\<rparr>)\<rparr>) ch"
    using assms(1) t by (simp add: hooks_links_def d)
qed

lemma content_update:
  assumes "hooks_content m ch r p b" "m a = Some hk" "hk_type hk' = hk_type hk" "hook_ok hk'"
    and "hk_deleted hk' = hk_deleted hk" "hk_priority hk' = hk_priority hk" "hook_name hk' = hook_name hk"
  shows "hooks_content (m(a \<mapsto> hk')) ch r p b"
proof -
  have alive: "sorted_wrt (\<lambda>x y. hook_cmp x y \<le> 0) (alive (m(a \<mapsto> hk')) xs)
      = sorted_wrt (\<lambda>x y. hook_cmp x y \<le> 0) (alive m xs)" for xs
  proof -
    have "hook_name (the ((m(a \<mapsto> hk')) x)) = hook_name (the (m x))"
      "hk_priority (the ((m(a \<mapsto> hk')) x)) = hk_priority (the (m x))" for x
      using assms(2,6,7) by simp_all
    then have c: "hook_cmp (the ((m(a \<mapsto> hk')) x)) (the ((m(a \<mapsto> hk')) y)) = hook_cmp (the (m x)) (the (m y))" for x y
      by (simp add: hook_cmp_def Let_def del: fun_upd_apply)
    have "filter (\<lambda>x. \<not> hk_deleted (the ((m(a \<mapsto> hk')) x))) xs = filter (\<lambda>x. \<not> hk_deleted (the (m x))) xs"
      using assms(2,5) by (intro filter_cong) auto
    then show ?thesis
      by (simp add: alive_def filter_map comp_def sorted_wrt_map c del: fun_upd_apply)
  qed
  show ?thesis
    using assms alive by (auto simp: hooks_content_def cmp_ordered_def)
qed

lemma hooks_ok_update:
  assumes ok: "hooks_ok s ch" and a: "hook_map s a = Some hk"
    and f: "hk_type (f hk) = hk_type hk" "hook_ok (f hk)" "hk_deleted (f hk) = hk_deleted hk"
      "hk_priority (f hk) = hk_priority hk" "hook_name (f hk) = hook_name hk"
  obtains s' where "hook_update s a f = Some s'" "hooks_ok s' ch" "hook_map s' = (hook_map s)(a \<mapsto> f hk)"
    "hook_exec_recursion s' = hook_exec_recursion s" "real_delete_pending s' = real_delete_pending s"
    "hooks_break s' = hooks_break s"
proof -
  from a obtain it where it: "hooks_heap s a = Some it" "payload it = hk" by (auto dest: payload_map_SomeD)
  have l: "hooks_links s ch" using ok by (rule hooks_okD)
  have up: "hook_update s a f = Some (s\<lparr>hooks_heap := (hooks_heap s)(a \<mapsto> it\<lparr>payload := f (payload it)\<rparr>)\<rparr>)"
    and ln: "hooks_links (s\<lparr>hooks_heap := (hooks_heap s)(a \<mapsto> it\<lparr>payload := f (payload it)\<rparr>)\<rparr>) ch"
    using links_update [OF l it(1), of f] f(1) it(2) by simp_all
  have "hooks_content (hook_map s) ch (hook_exec_recursion s) (real_delete_pending s) (hooks_break s)"
    using ok by (simp add: hooks_ok_def)
  note content_update [OF this a f]
  then have ok': "hooks_ok (s\<lparr>hooks_heap := (hooks_heap s)(a \<mapsto> it\<lparr>payload := f (payload it)\<rparr>)\<rparr>) ch"
    using ln by (simp add: hooks_ok_def it)
  show ?thesis by (rule that [OF up ok']) (simp_all add: it)
qed

subsection \<open>Validity\<close>

lemma hook_valid_loop_seg:
  "seg h p xs None \<Longrightarrow> hook_valid_loop h (first_or xs None) a =
    Some (a \<in> set xs \<and> \<not> hk_deleted (the (payload_map h a)))"
proof (induction xs arbitrary: p)
  case (Cons b xs)
  then obtain it where it: "h b = Some it" "next_item it = first_or xs None" and s: "seg h (Some b) xs None"
    by auto
  show ?case
    using Cons.IH [OF s] it by (subst hook_valid_loop.simps) (auto simp: payload_map_def)
qed (subst hook_valid_loop.simps, simp)

lemma hook_valid_links:
  assumes "hooks_links s ch"
  shows "hook_valid s (Some a) = Some ((\<exists>t. a \<in> set (ch t)) \<and> \<not> hk_deleted (the (hook_map s a)))"
proof -
  have l: "hook_valid_loop (hooks_heap s) (weechat_hooks s t) a =
      Some (a \<in> set (ch t) \<and> \<not> hk_deleted (the (hook_map s a)))" for t
    using hook_valid_loop_seg [of "hooks_heap s" None "ch t" a] linksD(1) [OF assms, of t]
    by (simp add: dlist_def)
  have "hook_valid_types s ts a = Some ((\<exists>t\<in>set ts. a \<in> set (ch t)) \<and> \<not> hk_deleted (the (hook_map s a)))" for ts
    by (induction ts) (auto simp: l)
  then show ?thesis using hook_types_all(1) by (auto simp: hook_valid_def)
qed

lemma hook_valid_ok:
  assumes "hooks_ok s ch"
  shows "hook_valid s (Some a) = Some (\<exists>hk. hook_map s a = Some hk \<and> \<not> hk_deleted hk)"
proof -
  have "(\<exists>t. a \<in> set (ch t)) \<longleftrightarrow> (\<exists>hk. hook_map s a = Some hk)"
    using hooks_okD(2) [OF assms, of a] linksD(2) [OF hooks_okD(1) [OF assms], of a] by metis
  then show ?thesis
    by (simp add: hook_valid_links [OF hooks_okD(1) [OF assms]]) force
qed

subsection \<open>Unhooking\<close>

definition dead_hook :: "hook \<Rightarrow> hook" where
  "dead_hook hk = hk\<lparr>hk_data := None, hk_subplugin := None, hk_deleted := True\<rparr>"

lemma dead_hook_simps [simp]:
  "hk_type (dead_hook hk) = hk_type hk" "hk_deleted (dead_hook hk)" "hook_ok (dead_hook hk)"
  "hk_priority (dead_hook hk) = hk_priority hk" "hk_callback (dead_hook hk) = hk_callback hk"
  "hk_plugin (dead_hook hk) = hk_plugin hk" "hk_running (dead_hook hk) = hk_running hk"
  by (simp_all add: dead_hook_def hook_ok_def)

lemma alive_map: "alive m xs = map (the \<circ> m) (filter (\<lambda>x. \<not> hk_deleted (the (m x))) xs)"
  by (simp add: alive_def filter_map comp_def)

lemma ordered_alive_filter:
  "cmp_ordered hook_cmp (alive m xs) \<Longrightarrow> cmp_ordered hook_cmp (map (the \<circ> m) (filter (\<lambda>x. \<not> hk_deleted (the (m x)) \<and> P x) xs))"
  using sorted_wrt_filter [of "\<lambda>x y. hook_cmp (the (m x)) (the (m y)) \<le> 0" "filter (\<lambda>x. \<not> hk_deleted (the (m x))) xs" P]
  by (simp add: cmp_ordered_def alive_map sorted_wrt_map conj_commute)

lemma content_mark:
  assumes "hooks_content m ch r p b" "m a = Some hk" "0 < r"
  shows "hooks_content (m(a \<mapsto> dead_hook hk)) ch r True b"
proof -
  have "alive (m(a \<mapsto> dead_hook hk)) xs = map (the \<circ> m) (filter (\<lambda>x. \<not> hk_deleted (the (m x)) \<and> x \<noteq> a) xs)" for xs
    unfolding alive_map by (rule map_cong, rule filter_cong) auto
  then have "cmp_ordered hook_cmp (alive m xs) \<Longrightarrow> cmp_ordered hook_cmp (alive (m(a \<mapsto> dead_hook hk)) xs)" for xs
    by (simp only: ordered_alive_filter)
  then show ?thesis
    using assms by (auto simp: hooks_content_def)
qed

lemma content_remove:
  assumes c: "hooks_content m ch r p b" and t: "ch t = xs @ a # ys" "distinct (ch t)"
    and u: "\<And>u. u \<noteq> t \<Longrightarrow> a \<notin> set (ch u)"
  shows "hooks_content (m(a := None)) (ch(t := xs @ ys)) r p b"
proof -
  have "alive (m(a := None)) (xs @ ys) = alive m (xs @ ys)"
    by (rule alive_cong) (use t in auto)
  moreover have "cmp_ordered hook_cmp (alive m (xs @ a # ys))"
    using c t(1) unfolding hooks_content_def by metis
  ultimately have "cmp_ordered hook_cmp (alive (m(a := None)) (xs @ ys))"
    by (auto simp: cmp_ordered_def sorted_wrt_append split: if_splits)
  moreover have "cmp_ordered hook_cmp (alive (m(a := None)) (ch v))" if "v \<noteq> t" for v
    using c u [OF that] alive_cong [of "ch v" "m(a := None)" m] by (simp add: hooks_content_def) metis
  moreover have "b \<in> set ((ch(t := xs @ ys)) (hk_type hk))" if "m b = Some hk" "b \<noteq> a" for b hk
  proof -
    have "b \<in> set (ch (hk_type hk))" using c that(1) by (simp add: hooks_content_def)
    then show ?thesis using that(2) t(1) by auto
  qed
  ultimately show ?thesis
    using c by (simp add: hooks_content_def)
qed

lemma chain_remove_eq:
  assumes c: "ch t = xs @ a # ys" and dist: "distinct (ch t)" and other: "\<And>u. u \<noteq> t \<Longrightarrow> a \<notin> set (ch u)"
  shows "ch(t := xs @ ys) = (\<lambda>u. filter (\<lambda>b. b \<noteq> a) (ch u))"
proof
  fix u
  have "filter (\<lambda>b. b \<noteq> a) xs = xs" "filter (\<lambda>b. b \<noteq> a) ys = ys"
    using dist c by (auto simp: filter_id_conv)
  moreover have "u \<noteq> t \<Longrightarrow> filter (\<lambda>b. b \<noteq> a) (ch u) = ch u"
    using other [of u] by (auto simp: filter_id_conv)
  ultimately show "(ch(t := xs @ ys)) u = filter (\<lambda>b. b \<noteq> a) (ch u)"
    using c by (cases "u = t") simp_all
qed

lemma hooks_remove:
  assumes l: "hooks_links s ch" and ct: "hooks_content (hook_map s) ch r p b" and a: "hook_map s a = Some hk"
  obtains s' where "hook_remove_from_list s a = Some s'" "hooks_links s' (\<lambda>t. filter (\<lambda>b. b \<noteq> a) (ch t))"
    "hooks_content (hook_map s') (\<lambda>t. filter (\<lambda>b. b \<noteq> a) (ch t)) r p b"
    "hook_map s' = (hook_map s)(a := None)" "hook_exec_recursion s' = hook_exec_recursion s"
    "real_delete_pending s' = real_delete_pending s" "hooks_break s' = hooks_break s"
proof -
  have "a \<in> set (ch (hk_type hk))" using ct a by (simp add: hooks_content_def)
  then obtain xs ys where c: "ch (hk_type hk) = xs @ a # ys"
    by (auto simp: in_set_conv_decomp)
  have dist: "distinct (ch (hk_type hk))" using dlist_distinct [OF linksD(1) [OF l]] .
  have other: "a \<notin> set (ch u)" if "u \<noteq> hk_type hk" for u
    using links_disjoint [OF l, of a u "hk_type hk"] that c by auto
  have eq: "ch(hk_type hk := xs @ ys) = (\<lambda>t. filter (\<lambda>b. b \<noteq> a) (ch t))"
    using chain_remove_eq [of ch "hk_type hk" xs a ys] c dist other by blast
  obtain s' where s': "hook_remove_from_list s a = Some s'" "hooks_links s' (ch(hk_type hk := xs @ ys))"
    "hook_map s' = (hook_map s)(a := None)" "hook_exec_recursion s' = hook_exec_recursion s"
    "real_delete_pending s' = real_delete_pending s" "hooks_break s' = hooks_break s"
    using hook_remove_from_list_links [of s ch "hk_type hk" xs a ys, OF l c] by metis
  from content_remove [OF ct c dist other]
  have "hooks_content (hook_map s') (ch(hk_type hk := xs @ ys)) r p b"
    using s' by simp
  then show ?thesis using s' that by (simp add: eq)
qed

text \<open>\<open>unhook\<close>: the hook goes at once, or it is marked when a callback is being executed.\<close>

lemma hook_valid_None: "hook_valid s None = Some False"
  by (simp add: hook_valid_def)

lemma unhook_ok:
  assumes ok: "hooks_ok s ch"
  obtains s' where "unhook s p = Some s'"
    "hooks_ok s' (if hook_exec_recursion s = 0 then (\<lambda>t. filter (\<lambda>b. Some b \<noteq> p) (ch t)) else ch)"
    "hook_exec_recursion s' = hook_exec_recursion s" "hooks_break s' = hooks_break s"
    "hook_exec_recursion s = 0 \<Longrightarrow> hook_map s' = (\<lambda>b. if Some b = p then None else hook_map s b)"
    "hook_exec_recursion s \<noteq> 0 \<Longrightarrow>
      hook_map s' = (\<lambda>b. if Some b = p then map_option dead_hook (hook_map s b) else hook_map s b)"
proof -
  note result = that
  note l = hooks_okD(1) [OF ok]
  have keep: thesis if p: "\<And>a. p = Some a \<Longrightarrow> \<not> (\<exists>hk. hook_map s a = Some hk \<and> \<not> hk_deleted hk)"
    and un: "unhook s p = Some s"
  proof (cases "hook_exec_recursion s = 0")
    case True
    have none: "hook_map s a = None" if "p = Some a" for a
    proof (cases "hook_map s a")
      case (Some hk)
      then have "hk_deleted hk" using p that by blast
      then show ?thesis using hooks_okD(5,7) [OF ok] Some True by auto
    qed
    have "Some b \<noteq> p" if "b \<in> set (ch t)" for b t
      using linksD(2) [OF l that] none by (metis option.distinct(1))
    then have "filter (\<lambda>b. Some b \<noteq> p) (ch t) = ch t" for t by (auto simp: filter_id_conv)
    then show ?thesis using True none ok by (intro result [OF un]) auto
  next
    case False
    have "map_option dead_hook (hook_map s a) = hook_map s a" if "p = Some a" for a
    proof (cases "hook_map s a")
      case (Some hk)
      then have "hk_deleted hk" "hook_ok hk" using p that hooks_okD(4) [OF ok] by blast+
      then have "dead_hook hk = hk" by (auto simp: hook_ok_def dead_hook_def split: option.splits)
      then show ?thesis using Some by simp
    qed (simp add: payload_map_def)
    then show ?thesis using False ok by (intro result [OF un]) (auto simp: fun_eq_iff)
  qed
  show thesis
  proof (cases p)
    case None
    then show thesis using keep by (simp add: unhook_def hook_valid_None)
  next
    case p: (Some a)
    have v: "hook_valid s p = Some (\<exists>hk. hook_map s a = Some hk \<and> \<not> hk_deleted hk)"
      unfolding p by (rule hook_valid_ok [OF ok])
    show thesis
    proof (cases "\<exists>hk. hook_map s a = Some hk \<and> \<not> hk_deleted hk")
      case False
      then show thesis using p v keep by (simp add: unhook_def)
    next
      case True
      then obtain hk where hk: "hook_map s a = Some hk" "\<not> hk_deleted hk" by blast
      then obtain it where it: "hooks_heap s a = Some it" "payload it = hk" by (auto dest: payload_map_SomeD)
      let ?f = "\<lambda>hk. hk\<lparr>hk_data := None, hk_subplugin := None\<rparr>"
      let ?s1 = "s\<lparr>hooks_heap := (hooks_heap s)(a \<mapsto> it\<lparr>payload := ?f hk\<rparr>)\<rparr>"
      have up: "hook_update s a ?f = Some ?s1" and l1: "hooks_links ?s1 ch"
        using links_update [OF l it(1), of ?f] it(2) by simp_all
      have m1: "hook_map ?s1 = (hook_map s)(a \<mapsto> ?f hk)" by simp
      have un: "unhook s p = (if hook_exec_recursion s = 0 then hook_remove_from_list ?s1 a
          else do { s \<leftarrow> hook_update ?s1 a (\<lambda>hk. hk\<lparr>hk_deleted := True\<rparr>); Some (s\<lparr>real_delete_pending := True\<rparr>) })"
        using hk it up v p by (simp add: unhook_def del: fun_upd_apply)
      have c: "hooks_content (hook_map s) ch (hook_exec_recursion s) (real_delete_pending s) (hooks_break s)"
        using ok by (simp add: hooks_ok_def)
      show thesis
      proof (cases "hook_exec_recursion s = 0")
        case rec: True
        from hooks_okD(2) [OF ok hk(1)] obtain xs ys where ch: "ch (hk_type hk) = xs @ a # ys"
          by (auto simp: in_set_conv_decomp)
        have dist: "distinct (ch (hk_type hk))" using dlist_distinct [OF linksD(1) [OF l]] .
        have other: "a \<notin> set (ch u)" if "u \<noteq> hk_type hk" for u
          using links_disjoint [OF l, of a u "hk_type hk"] that ch by auto
        obtain s' where s': "hook_remove_from_list ?s1 a = Some s'" "hooks_links s' (ch(hk_type hk := xs @ ys))"
          "hook_map s' = (hook_map ?s1)(a := None)" "hook_exec_recursion s' = hook_exec_recursion s"
          "real_delete_pending s' = real_delete_pending s" "hooks_break s' = hooks_break s"
          using hook_remove_from_list_links [of ?s1 ch "hk_type hk" xs a ys, OF l1 ch] by auto
        have m: "hook_map s' = (hook_map s)(a := None)" using s'(3) m1 by simp
        have eq: "ch(hk_type hk := xs @ ys) = (\<lambda>t. filter (\<lambda>b. b \<noteq> a) (ch t))"
          using chain_remove_eq [of ch "hk_type hk" xs a ys] ch dist other by blast
        have "hooks_ok s' (\<lambda>t. filter (\<lambda>b. b \<noteq> a) (ch t))"
          unfolding eq [symmetric] using content_remove [OF c ch dist other] s' m by (simp add: hooks_ok_def)
        then show thesis using rec p s' un m
          by (intro result [of s']) (auto simp: fun_eq_iff)
      next
        case rec: False
        have pos: "0 < hook_exec_recursion s" using rec hooks_okD(6) [OF ok] by simp
        let ?it = "it\<lparr>payload := ?f hk\<rparr>"
        have at: "hooks_heap ?s1 a = Some ?it" by simp
        let ?g = "\<lambda>hk. hk\<lparr>hk_deleted := True\<rparr>"
        let ?s2 = "?s1\<lparr>hooks_heap := (hooks_heap ?s1)(a \<mapsto> ?it\<lparr>payload := ?g (payload ?it)\<rparr>)\<rparr>"
        have up2: "hook_update ?s1 a ?g = Some ?s2" and l2: "hooks_links ?s2 ch"
          using links_update [OF l1 at, of ?g] by simp_all
        have m2: "hook_map ?s2 = (hook_map s)(a \<mapsto> dead_hook hk)" by (simp add: dead_hook_def)
        have "hooks_links (?s2\<lparr>real_delete_pending := True\<rparr>) ch" using l2 by (simp add: hooks_links_def)
        then have "hooks_ok (?s2\<lparr>real_delete_pending := True\<rparr>) ch"
          using content_mark [OF c hk(1) pos] m2 by (simp add: hooks_ok_def del: fun_upd_apply)
        moreover have "hook_map (?s2\<lparr>real_delete_pending := True\<rparr>) =
            (\<lambda>b. if Some b = p then map_option dead_hook (hook_map s b) else hook_map s b)"
          by (simp add: fun_eq_iff p hk(1) dead_hook_def)
        moreover have "unhook s p = Some (?s2\<lparr>real_delete_pending := True\<rparr>)"
          using rec un up2 by simp
        ultimately show thesis using rec
          by (intro result [of "?s2\<lparr>real_delete_pending := True\<rparr>"]) simp_all
      qed
    qed
  qed
qed

subsection \<open>Creating a hook\<close>

lemma links_alloc:
  assumes "hooks_links s ch" "hook_map s a = None"
  shows "hooks_links (s\<lparr>hooks_heap := (hooks_heap s)(a \<mapsto> it), hooks_break := n\<rparr>) ch"
proof -
  have nin: "a \<notin> set (ch t)" for t
    using linksD(2) [OF assms(1), of a t] assms(2) by auto
  have "dlist ((hooks_heap s)(a \<mapsto> it)) (weechat_hooks s t) (last_weechat_hook s t) (ch t)" for t
    by (rule dlist_frame [OF linksD(1) [OF assms(1)]]) (use nin in auto)
  moreover have "\<exists>hk. ((hook_map s)(a \<mapsto> payload it)) b = Some hk \<and> hk_type hk = t" if "b \<in> set (ch t)" for b t
    using linksD(2) [OF assms(1) that] nin that by (metis fun_upd_apply)
  ultimately show ?thesis using assms(1) by (simp add: hooks_links_def)
qed

definition hook_insert_pos :: "(nat \<Rightarrow> hook option) \<Rightarrow> hook \<Rightarrow> nat \<Rightarrow> bool" where
  "hook_insert_pos m hk a \<longleftrightarrow> hk_deleted (the (m a)) \<or> 0 \<le> hook_cmp hk (the (m a))"

definition chain_insert :: "(nat \<Rightarrow> hook option) \<Rightarrow> hook \<Rightarrow> nat \<Rightarrow> nat list \<Rightarrow> nat list" where
  "chain_insert m hk a xs = takeWhile (hook_insert_pos m hk) xs @ a # dropWhile (hook_insert_pos m hk) xs"

lemma set_chain_insert [simp]: "set (chain_insert m hk a xs) = insert a (set xs)"
proof -
  have "set xs = set (takeWhile (hook_insert_pos m hk) xs) \<union> set (dropWhile (hook_insert_pos m hk) xs)"
    by (metis set_append takeWhile_dropWhile_id)
  then show ?thesis by (simp add: chain_insert_def)
qed

lemma filter_chain_insert:
  "a \<notin> set xs \<Longrightarrow> filter (\<lambda>b. b \<in> set xs) (chain_insert m hk a xs) = xs"
proof -
  assume a: "a \<notin> set xs"
  have "filter (\<lambda>b. b \<in> set xs) (takeWhile P xs) = takeWhile P xs" for P
    by (auto simp: filter_id_conv dest: set_takeWhileD)
  moreover have "filter (\<lambda>b. b \<in> set xs) (dropWhile P xs) = dropWhile P xs" for P
    by (auto simp: filter_id_conv dest: set_dropWhileD)
  ultimately show ?thesis using a by (simp add: chain_insert_def)
qed

lemma hook_create_ok:
  assumes ok: "hooks_ok s ch" and hk: "hook_ok hk" "\<not> hk_deleted hk"
  obtains s' where "hook_create s hk = Some (s', hooks_break s)"
    "hooks_ok s' (ch(hk_type hk := chain_insert (hook_map s) hk (hooks_break s) (ch (hk_type hk))))"
    "hook_map s' = (hook_map s)(hooks_break s \<mapsto> hk)" "hook_exec_recursion s' = hook_exec_recursion s"
    "hooks_break s' = Suc (hooks_break s)" "real_delete_pending s' = real_delete_pending s"
    "alive (hook_map s') (chain_insert (hook_map s) hk (hooks_break s) (ch (hk_type hk))) =
      ins_after hook_cmp hk (alive (hook_map s) (ch (hk_type hk)))"
proof -
  note l = hooks_okD(1) [OF ok]
  let ?a = "hooks_break s" and ?t = "hk_type hk"
  have fresh: "hook_map s ?a = None"
  proof (cases "hook_map s ?a")
    case (Some q)
    then show ?thesis using hooks_okD(3) [OF ok Some] by simp
  qed simp
  have nin: "?a \<notin> set (ch t)" for t
    using linksD(2) [OF l, of ?a t] fresh by auto
  let ?s1 = "s\<lparr>hooks_heap := (hooks_heap s)(?a \<mapsto> \<lparr>payload = hk, prev_item = None, next_item = None\<rparr>), hooks_break := Suc ?a\<rparr>"
  have l1: "hooks_links ?s1 ch" by (rule links_alloc [OF l fresh])
  have m1: "hook_map ?s1 = (hook_map s)(?a \<mapsto> hk)" by simp
  have m1': "hook_map ?s1 ?a = Some hk" by simp
  have ok1: "hook_ok q" if "b \<in> set (ch t)" "hook_map ?s1 b = Some q" for b q t
    using that nin hooks_okD(4) [OF ok, of b q] by (auto split: if_splits)
  have pos: "takeWhile (\<lambda>b. hk_deleted (the (hook_map ?s1 b)) \<or> 0 \<le> hook_cmp hk (the (hook_map ?s1 b))) (ch ?t)
      = takeWhile (hook_insert_pos (hook_map s) hk) (ch ?t)"
    "dropWhile (\<lambda>b. hk_deleted (the (hook_map ?s1 b)) \<or> 0 \<le> hook_cmp hk (the (hook_map ?s1 b))) (ch ?t)
      = dropWhile (hook_insert_pos (hook_map s) hk) (ch ?t)"
    using nin [of ?t] by (intro takeWhile_cong dropWhile_cong refl; auto simp: hook_insert_pos_def)+
  obtain s' where s': "hook_add_to_list ?s1 ?a = Some s'" "hooks_links s' (ch(?t := chain_insert (hook_map s) hk ?a (ch ?t)))"
    "hook_map s' = hook_map ?s1" "hook_exec_recursion s' = hook_exec_recursion ?s1"
    "real_delete_pending s' = real_delete_pending ?s1" "hooks_break s' = hooks_break ?s1"
    unfolding chain_insert_def
    by (rule hook_add_to_list_links [of ?s1 ch ?a hk, OF l1 m1' nin hk ok1, unfolded pos])
  have create: "hook_create s hk = Some (s', ?a)" using s'(1) by (simp add: hook_create_def Let_def)
  have same: "alive (hook_map s') xs = alive (hook_map s) xs" if "?a \<notin> set xs" for xs
    by (rule alive_cong) (use that s'(3) in auto)
  have ord: "cmp_ordered hook_cmp (alive (hook_map s) (ch t))" for t by (rule hooks_okD(8) [OF ok])
  have ins: "alive (hook_map s') (chain_insert (hook_map s) hk ?a (ch ?t)) = ins_after hook_cmp hk (alive (hook_map s) (ch ?t))"
  proof -
    have "?a \<notin> set (takeWhile (hook_insert_pos (hook_map s) hk) (ch ?t))"
      "?a \<notin> set (dropWhile (hook_insert_pos (hook_map s) hk) (ch ?t))"
      using nin [of ?t] by (auto dest: set_takeWhileD set_dropWhileD)
    moreover have "the (hook_map s' ?a) = hk" by (simp add: s'(3))
    moreover have "alive (hook_map s) (takeWhile (hook_insert_pos (hook_map s) hk) (ch ?t)) @ hk #
        alive (hook_map s) (dropWhile (hook_insert_pos (hook_map s) hk) (ch ?t)) =
        ins_after hook_cmp hk (alive (hook_map s) (ch ?t))"
      using alive_insert [OF ord [of ?t], of hk] by (simp add: hook_insert_pos_def [abs_def])
    ultimately show ?thesis
      using hk(2) by (simp add: chain_insert_def same)
  qed
  have "hooks_content (hook_map s') (ch(?t := chain_insert (hook_map s) hk ?a (ch ?t)))
    (hook_exec_recursion s') (real_delete_pending s') (hooks_break s')"
    unfolding hooks_content_def
  proof (intro conjI allI impI)
    fix b q assume "hook_map s' b = Some q"
    then consider "b = ?a" "q = hk" | "b \<noteq> ?a" "hook_map s b = Some q" using s'(3) by (auto split: if_splits)
    then show "b \<in> set ((ch(?t := chain_insert (hook_map s) hk ?a (ch ?t))) (hk_type q))" "b < hooks_break s'" "hook_ok q"
      using hk hooks_okD(2-4) [OF ok, of b q] s'(6) by (cases; auto)+
    show "hk_deleted q \<Longrightarrow> real_delete_pending s'"
      using \<open>hook_map s' b = Some q\<close> hk(2) hooks_okD(5) [OF ok, of b q] s'(3,5) by (auto split: if_splits)
  next
    fix t
    show "cmp_ordered hook_cmp (alive (hook_map s') ((ch(?t := chain_insert (hook_map s) hk ?a (ch ?t))) t))"
      using ins hook_cmp.ordered_ins_after [OF ord [of ?t], of hk] same [OF nin [of t]] ord [of t] by simp
  qed (use s' hooks_okD(6,7) [OF ok] in simp_all)
  then have ok': "hooks_ok s' (ch(?t := chain_insert (hook_map s) hk ?a (ch ?t)))"
    using s'(2) by (simp add: hooks_ok_def)
  show ?thesis by (rule that [OF create ok' _ _ _ _ ins]) (use s' in simp_all)
qed

subsection \<open>The end of an execution\<close>

abbreviation dead_in :: "(nat \<Rightarrow> hook option) \<Rightarrow> nat \<Rightarrow> bool" where
  "dead_in m a \<equiv> m a \<noteq> None \<and> hk_deleted (the (m a))"

lemma hook_remove_deleted_loop_ok:
  assumes "hooks_links s ch" "hooks_content (hook_map s) ch r p b" "ch t = xs @ ys"
  shows "\<exists>s'. hook_remove_deleted_loop s (first_or ys None) = Some s' \<and>
    hooks_links s' (\<lambda>u. filter (\<lambda>a. \<not> (a \<in> set ys \<and> dead_in (hook_map s) a)) (ch u)) \<and>
    hooks_content (hook_map s') (\<lambda>u. filter (\<lambda>a. \<not> (a \<in> set ys \<and> dead_in (hook_map s) a)) (ch u)) r p b \<and>
    hook_map s' = (\<lambda>a. if a \<in> set ys \<and> dead_in (hook_map s) a then None else hook_map s a) \<and>
    hook_exec_recursion s' = hook_exec_recursion s \<and> real_delete_pending s' = real_delete_pending s \<and>
    hooks_break s' = hooks_break s"
  using assms
proof (induction ys arbitrary: s ch xs)
  case Nil
  then show ?case by (subst hook_remove_deleted_loop.simps) simp
next
  case (Cons a ys)
  have d: "dlist (hooks_heap s) (weechat_hooks s t) (last_weechat_hook s t) (xs @ a # ys)"
    using linksD(1) [OF Cons.prems(1), of t] Cons.prems(3) by simp
  then obtain it where it: "hooks_heap s a = Some it" "next_item it = first_or ys None" by (rule dlist_item)
  have dist: "distinct (xs @ a # ys)" using d by (rule dlist_distinct)
  show ?case
  proof (cases "hk_deleted (payload it)")
    case False
    have "hook_map s a = Some (payload it)" using it by (simp add: payload_map_def)
    then have eq: "(b \<in> set (a # ys) \<and> dead_in (hook_map s) b) = (b \<in> set ys \<and> dead_in (hook_map s) b)" for b
      using False by auto
    have loop: "hook_remove_deleted_loop s (first_or (a # ys) None) = hook_remove_deleted_loop s (first_or ys None)"
      by (subst hook_remove_deleted_loop.simps) (simp add: it False)
    show ?thesis unfolding eq loop
      by (rule Cons.IH [of s ch "xs @ [a]"]) (use Cons.prems in simp_all)
  next
    case True
    have m: "hook_map s a = Some (payload it)" using it by (simp add: payload_map_def)
    obtain s1 where s1: "hook_remove_from_list s a = Some s1" "hooks_links s1 (\<lambda>t. filter (\<lambda>b. b \<noteq> a) (ch t))"
      "hooks_content (hook_map s1) (\<lambda>t. filter (\<lambda>b. b \<noteq> a) (ch t)) r p b"
      "hook_map s1 = (hook_map s)(a := None)" "hook_exec_recursion s1 = hook_exec_recursion s"
      "real_delete_pending s1 = real_delete_pending s" "hooks_break s1 = hooks_break s"
      by (rule hooks_remove [OF Cons.prems(1,2) m])
    have ys: "filter (\<lambda>b. b \<noteq> a) (ch t) = xs @ ys"
    proof -
      have "filter (\<lambda>b. b \<noteq> a) xs = xs" "filter (\<lambda>b. b \<noteq> a) ys = ys"
        using dist by (auto simp: filter_id_conv)
      then show ?thesis by (simp add: Cons.prems(3))
    qed
    have loop: "hook_remove_deleted_loop s (first_or (a # ys) None) = hook_remove_deleted_loop s1 (first_or ys None)"
      by (subst hook_remove_deleted_loop.simps) (simp add: it True s1(1))
    have pr: "(b \<noteq> a \<and> \<not> (b \<in> set ys \<and> dead_in (hook_map s1) b)) = (\<not> (b \<in> set (a # ys) \<and> dead_in (hook_map s) b))" for b
      using m True by (auto simp: s1(4))
    have mp: "(if b \<in> set ys \<and> dead_in (hook_map s1) b then None else hook_map s1 b) =
        (if b \<in> set (a # ys) \<and> dead_in (hook_map s) b then None else hook_map s b)" for b
      using m True dist by (auto simp: s1(4))
    show ?thesis
      using Cons.IH [OF s1(2,3) ys] by (simp only: filter_filter pr mp loop s1(5-7))
  qed
qed

lemma for_types_deleted:
  assumes "hooks_links s ch" "hooks_content (hook_map s) ch r p b"
  defines "D \<equiv> \<lambda>ts a. (\<exists>t\<in>set ts. a \<in> set (ch t)) \<and> dead_in (hook_map s) a"
  shows "distinct ts \<Longrightarrow> \<exists>s'. for_types (\<lambda>t s. hook_remove_deleted_loop s (weechat_hooks s t)) ts s = Some s' \<and>
    hooks_links s' (\<lambda>u. filter (\<lambda>a. \<not> D ts a) (ch u)) \<and>
    hooks_content (hook_map s') (\<lambda>u. filter (\<lambda>a. \<not> D ts a) (ch u)) r p b \<and>
    hook_map s' = (\<lambda>a. if D ts a then None else hook_map s a) \<and>
    hook_exec_recursion s' = hook_exec_recursion s \<and> real_delete_pending s' = real_delete_pending s \<and>
    hooks_break s' = hooks_break s"
  unfolding D_def using assms(1,2)
proof (induction ts arbitrary: s ch)
  case (Cons t ts)
  let ?P = "\<lambda>a. a \<in> set (ch t) \<and> dead_in (hook_map s) a"
  have w: "weechat_hooks s t = first_or (ch t) None"
    using linksD(1) [OF Cons.prems(2), of t] by (rule dlist_first)
  obtain s1 where s1: "hook_remove_deleted_loop s (weechat_hooks s t) = Some s1"
    "hooks_links s1 (\<lambda>u. filter (\<lambda>a. \<not> ?P a) (ch u))"
    "hooks_content (hook_map s1) (\<lambda>u. filter (\<lambda>a. \<not> ?P a) (ch u)) r p b"
    "hook_map s1 = (\<lambda>a. if ?P a then None else hook_map s a)"
    "hook_exec_recursion s1 = hook_exec_recursion s" "real_delete_pending s1 = real_delete_pending s"
    "hooks_break s1 = hooks_break s"
    using hook_remove_deleted_loop_ok [OF Cons.prems(2,3), of t "[]" "ch t"] w by auto
  have "distinct ts" using Cons.prems(1) by simp
  from Cons.IH [OF this s1(2,3)] obtain s2 where s2:
    "for_types (\<lambda>t s. hook_remove_deleted_loop s (weechat_hooks s t)) ts s1 = Some s2"
    "hooks_links s2 (\<lambda>u. filter (\<lambda>a. \<not> ((\<exists>t'\<in>set ts. a \<in> set (filter (\<lambda>a. \<not> ?P a) (ch t'))) \<and> dead_in (hook_map s1) a))
      (filter (\<lambda>a. \<not> ?P a) (ch u)))"
    "hooks_content (hook_map s2) (\<lambda>u. filter (\<lambda>a. \<not> ((\<exists>t'\<in>set ts. a \<in> set (filter (\<lambda>a. \<not> ?P a) (ch t'))) \<and> dead_in (hook_map s1) a))
      (filter (\<lambda>a. \<not> ?P a) (ch u))) r p b"
    "hook_map s2 = (\<lambda>a. if (\<exists>t'\<in>set ts. a \<in> set (filter (\<lambda>a. \<not> ?P a) (ch t'))) \<and> dead_in (hook_map s1) a
      then None else hook_map s1 a)"
    "hook_exec_recursion s2 = hook_exec_recursion s1" "real_delete_pending s2 = real_delete_pending s1"
    "hooks_break s2 = hooks_break s1"
    by blast
  have pr: "(\<not> ?P a \<and> \<not> ((\<exists>t'\<in>set ts. a \<in> set (filter (\<lambda>a. \<not> ?P a) (ch t'))) \<and> dead_in (hook_map s1) a)) =
      (\<not> ((\<exists>t'\<in>set (t # ts). a \<in> set (ch t')) \<and> dead_in (hook_map s) a))" for a
    by (auto simp: s1(4))
  have mp: "(if (\<exists>t'\<in>set ts. a \<in> set (filter (\<lambda>a. \<not> ?P a) (ch t'))) \<and> dead_in (hook_map s1) a then None else hook_map s1 a) =
      (if (\<exists>t'\<in>set (t # ts). a \<in> set (ch t')) \<and> dead_in (hook_map s) a then None else hook_map s a)" for a
    by (auto simp: s1(4))
  have ft: "for_types (\<lambda>t s. hook_remove_deleted_loop s (weechat_hooks s t)) (t # ts) s = Some s2"
    by (simp add: s1(1) s2(1))
  show ?case
    using s2(2-7) by (simp only: ft filter_filter pr mp s1(5-7) simp_thms option.inject)
qed simp

definition without_dead :: "(nat \<Rightarrow> hook option) \<Rightarrow> nat \<Rightarrow> hook option" where
  "without_dead m a = (case m a of Some hk \<Rightarrow> if hk_deleted hk then None else Some hk | None \<Rightarrow> None)"

lemma hook_remove_deleted_ok:
  assumes l: "hooks_links s ch" and c: "hooks_content (hook_map s) ch r (real_delete_pending s) b"
  obtains s' where "hook_remove_deleted s = Some s'"
    "hooks_links s' (\<lambda>u. filter (\<lambda>a. \<not> dead_in (hook_map s) a) (ch u))"
    "hooks_content (hook_map s') (\<lambda>u. filter (\<lambda>a. \<not> dead_in (hook_map s) a) (ch u)) r False b"
    "hook_map s' = without_dead (hook_map s)"
    "hook_exec_recursion s' = hook_exec_recursion s" "\<not> real_delete_pending s'" "hooks_break s' = hooks_break s"
proof (cases "real_delete_pending s")
  case False
  then have nd: "\<not> dead_in (hook_map s) a" for a
    using c by (auto simp: hooks_content_def)
  then have "without_dead (hook_map s) a = hook_map s a" for a
    by (cases "hook_map s a") (auto simp: without_dead_def, metis option.distinct(1) option.sel)
  then have "without_dead (hook_map s) = hook_map s" by (simp add: fun_eq_iff)
  moreover have "filter (\<lambda>a. \<not> dead_in (hook_map s) a) (ch u) = ch u" for u
    by (rule filter_True) (use nd in blast)
  ultimately show ?thesis using False l c by (intro that [of s]) (simp_all add: hook_remove_deleted_def)
next
  case True
  have D: "((\<exists>t\<in>set hook_types. a \<in> set (ch t)) \<and> dead_in (hook_map s) a) = dead_in (hook_map s) a" for a
    using c hook_types_all(1) by (auto simp: hooks_content_def)
  obtain s' where s': "for_types (\<lambda>t s. hook_remove_deleted_loop s (weechat_hooks s t)) hook_types s = Some s'"
    "hooks_links s' (\<lambda>u. filter (\<lambda>a. \<not> dead_in (hook_map s) a) (ch u))"
    "hooks_content (hook_map s') (\<lambda>u. filter (\<lambda>a. \<not> dead_in (hook_map s) a) (ch u)) r (real_delete_pending s) b"
    "hook_map s' = (\<lambda>a. if dead_in (hook_map s) a then None else hook_map s a)"
    "hook_exec_recursion s' = hook_exec_recursion s" "hooks_break s' = hooks_break s"
    using for_types_deleted [OF l c hook_types_all(2), unfolded D]
    by (elim exE conjE) (rule that; assumption)
  have m: "hook_map s' = without_dead (hook_map s)"
    by (auto simp: s'(4) without_dead_def fun_eq_iff split: option.splits)
  have nd: "\<not> hk_deleted hk" if "hook_map s' a = Some hk" for a hk
    using that by (auto simp: m without_dead_def split: option.splits if_splits)
  have c': "hooks_content (hook_map s') (\<lambda>u. filter (\<lambda>a. \<not> dead_in (hook_map s) a) (ch u)) r False b"
    using s'(3) nd by (simp add: hooks_content_def)
  have l': "hooks_links (s'\<lparr>real_delete_pending := False\<rparr>) (\<lambda>u. filter (\<lambda>a. \<not> dead_in (hook_map s) a) (ch u))"
    using s'(2) by (simp add: hooks_links_def)
  show ?thesis
    by (rule that [of "s'\<lparr>real_delete_pending := False\<rparr>"])
       (use s' True m c' l' in \<open>simp_all add: hook_remove_deleted_def\<close>)
qed

lemma hook_exec_start_ok:
  "hooks_ok s ch \<Longrightarrow> hooks_ok (hook_exec_start s) ch"
  by (auto simp: hooks_ok_def hooks_links_def hooks_content_def hook_exec_start_def)

lemma hook_exec_end_ok:
  assumes ok: "hooks_ok s ch" and r: "0 < hook_exec_recursion s"
  obtains s' where "hook_exec_end s = Some s'" "hook_exec_recursion s' = hook_exec_recursion s - 1"
    "hooks_break s' = hooks_break s"
    "hooks_ok s' (if hook_exec_recursion s = 1 then \<lambda>u. filter (\<lambda>a. \<not> dead_in (hook_map s) a) (ch u) else ch)"
    "hook_map s' = (if hook_exec_recursion s = 1 then without_dead (hook_map s) else hook_map s)"
proof -
  let ?s1 = "s\<lparr>hook_exec_recursion := hook_exec_recursion s - 1\<rparr>"
  have l: "hooks_links ?s1 ch" using ok by (simp add: hooks_ok_def hooks_links_def)
  show ?thesis
  proof (cases "hook_exec_recursion s = 1")
    case True
    have c: "hooks_content (hook_map ?s1) ch 1 (real_delete_pending ?s1) (hooks_break s)"
      using ok True by (simp add: hooks_ok_def)
    obtain s' where s': "hook_remove_deleted ?s1 = Some s'"
      "hooks_links s' (\<lambda>u. filter (\<lambda>a. \<not> dead_in (hook_map ?s1) a) (ch u))"
      "hooks_content (hook_map s') (\<lambda>u. filter (\<lambda>a. \<not> dead_in (hook_map ?s1) a) (ch u)) 1 False (hooks_break s)"
      "hook_map s' = without_dead (hook_map ?s1)"
      "hook_exec_recursion s' = hook_exec_recursion ?s1" "\<not> real_delete_pending s'" "hooks_break s' = hooks_break ?s1"
      by (rule hook_remove_deleted_ok [OF l c])
    have "hooks_ok s' (\<lambda>u. filter (\<lambda>a. \<not> dead_in (hook_map s) a) (ch u))"
      using s' True by (simp add: hooks_ok_def hooks_content_def)
    then show ?thesis using s' True
      by (intro that [of s']) (simp_all add: hook_exec_end_def Let_def)
  next
    case False
    have "hooks_ok ?s1 ch" using ok l r False by (auto simp: hooks_ok_def hooks_content_def)
    then show ?thesis using r False
      by (intro that [of ?s1]) (simp_all add: hook_exec_end_def Let_def)
  qed
qed

subsection \<open>Unhooking many hooks\<close>

text \<open>What a removal makes of the hooks that satisfy a predicate, and of the lists.\<close>

definition removed_map :: "bool \<Rightarrow> (nat \<Rightarrow> bool) \<Rightarrow> (nat \<Rightarrow> hook option) \<Rightarrow> nat \<Rightarrow> hook option" where
  "removed_map now Q m a = (if Q a then if now then None else map_option dead_hook (m a) else m a)"

definition removed_chain :: "bool \<Rightarrow> (nat \<Rightarrow> bool) \<Rightarrow> (hook_type \<Rightarrow> nat list) \<Rightarrow> hook_type \<Rightarrow> nat list" where
  "removed_chain now Q ch t = (if now then filter (\<lambda>a. \<not> Q a) (ch t) else ch t)"

lemma unhook_removed:
  assumes "hooks_ok s ch"
  obtains s' where "unhook s p = Some s'" "hooks_ok s' (removed_chain (hook_exec_recursion s = 0) (\<lambda>a. Some a = p) ch)"
    "hook_map s' = removed_map (hook_exec_recursion s = 0) (\<lambda>a. Some a = p) (hook_map s)"
    "hook_exec_recursion s' = hook_exec_recursion s" "hooks_break s' = hooks_break s"
proof -
  obtain s' where s': "unhook s p = Some s'"
    "hooks_ok s' (if hook_exec_recursion s = 0 then (\<lambda>t. filter (\<lambda>b. Some b \<noteq> p) (ch t)) else ch)"
    "hook_exec_recursion s' = hook_exec_recursion s" "hooks_break s' = hooks_break s"
    "hook_exec_recursion s = 0 \<Longrightarrow> hook_map s' = (\<lambda>b. if Some b = p then None else hook_map s b)"
    "hook_exec_recursion s \<noteq> 0 \<Longrightarrow>
      hook_map s' = (\<lambda>b. if Some b = p then map_option dead_hook (hook_map s b) else hook_map s b)"
    using unhook_ok [OF assms, of p] by blast
  have "removed_chain (hook_exec_recursion s = 0) (\<lambda>a. Some a = p) ch =
      (if hook_exec_recursion s = 0 then (\<lambda>t. filter (\<lambda>b. Some b \<noteq> p) (ch t)) else ch)"
    by (simp add: removed_chain_def fun_eq_iff)
  moreover have "hook_map s' = removed_map (hook_exec_recursion s = 0) (\<lambda>a. Some a = p) (hook_map s)"
    using s'(5,6) by (cases "hook_exec_recursion s = 0") (simp_all add: removed_map_def fun_eq_iff)
  ultimately show ?thesis using s' by (intro that [of s']) simp_all
qed

lemma dead_hook_idem [simp]: "dead_hook (dead_hook hk) = dead_hook hk"
  by (simp add: dead_hook_def)

lemma removed_comp:
  "removed_map now Q (removed_map now R m) = removed_map now (\<lambda>a. Q a \<or> R a) m"
  "removed_chain now Q (removed_chain now R ch) = removed_chain now (\<lambda>a. Q a \<or> R a) ch"
proof -
  show "removed_map now Q (removed_map now R m) = removed_map now (\<lambda>a. Q a \<or> R a) m"
    by (auto simp: removed_map_def fun_eq_iff option.map_comp comp_def)
  show "removed_chain now Q (removed_chain now R ch) = removed_chain now (\<lambda>a. Q a \<or> R a) ch"
    by (auto simp: removed_chain_def fun_eq_iff intro: filter_cong)
qed

lemma removed_none: "removed_map now (\<lambda>_. False) m = m" "removed_chain now (\<lambda>_. False) ch = ch"
  by (simp_all add: removed_map_def removed_chain_def fun_eq_iff)

lemma unhook_loop_ok:
  assumes "hooks_ok s ch" "ch t = xs @ ys"
  shows "\<exists>s'. unhook_loop P s (first_or ys None) = Some s' \<and>
    hooks_ok s' (removed_chain (hook_exec_recursion s = 0) (\<lambda>a. a \<in> set ys \<and> P (the (hook_map s a))) ch) \<and>
    hook_map s' = removed_map (hook_exec_recursion s = 0) (\<lambda>a. a \<in> set ys \<and> P (the (hook_map s a))) (hook_map s) \<and>
    hook_exec_recursion s' = hook_exec_recursion s \<and> hooks_break s' = hooks_break s"
  using assms
proof (induction ys arbitrary: s ch xs)
  case Nil
  then show ?case by (subst unhook_loop.simps) (simp add: removed_none)
next
  case (Cons a ys)
  let ?now = "hook_exec_recursion s = 0"
  have d: "dlist (hooks_heap s) (weechat_hooks s t) (last_weechat_hook s t) (xs @ a # ys)"
    using linksD(1) [OF hooks_okD(1) [OF Cons.prems(1)], of t] Cons.prems(2) by simp
  then obtain it where it: "hooks_heap s a = Some it" "next_item it = first_or ys None" by (rule dlist_item)
  have dist: "distinct (xs @ a # ys)" using d by (rule dlist_distinct)
  have m: "hook_map s a = Some (payload it)" using it by (simp add: payload_map_def)
  show ?case
  proof (cases "P (payload it)")
    case False
    then have eq: "(b \<in> set (a # ys) \<and> P (the (hook_map s b))) = (b \<in> set ys \<and> P (the (hook_map s b)))" for b
      using m by auto
    have loop: "unhook_loop P s (first_or (a # ys) None) = unhook_loop P s (first_or ys None)"
      by (subst unhook_loop.simps) (simp add: it False)
    show ?thesis unfolding eq loop
      by (rule Cons.IH [of s ch "xs @ [a]"]) (use Cons.prems in simp_all)
  next
    case True
    obtain s1 where s1: "unhook s (Some a) = Some s1" "hooks_ok s1 (removed_chain ?now (\<lambda>b. Some b = Some a) ch)"
      "hook_map s1 = removed_map ?now (\<lambda>b. Some b = Some a) (hook_map s)"
      "hook_exec_recursion s1 = hook_exec_recursion s" "hooks_break s1 = hooks_break s"
      using unhook_removed [OF Cons.prems(1), of "Some a"] by blast
    have nin: "a \<notin> set xs" "a \<notin> set ys" using dist by auto
    have ys: "removed_chain ?now (\<lambda>b. Some b = Some a) ch t = (if ?now then xs else xs @ [a]) @ ys"
    proof -
      have "filter (\<lambda>b. b \<noteq> a) xs = xs" "filter (\<lambda>b. b \<noteq> a) ys = ys"
        using nin by (auto simp: filter_id_conv)
      then show ?thesis by (simp add: removed_chain_def Cons.prems(2))
    qed
    have loop: "unhook_loop P s (first_or (a # ys) None) = unhook_loop P s1 (first_or ys None)"
      by (subst unhook_loop.simps) (simp add: it True s1(1))
    have q: "((b \<in> set ys \<and> P (the (hook_map s1 b))) \<or> Some b = Some a) = (b \<in> set (a # ys) \<and> P (the (hook_map s b)))" for b
      using m True nin by (auto simp: s1(3) removed_map_def)
    show ?thesis
      using Cons.IH [OF s1(2) ys] by (simp only: s1(3-5) removed_comp q [unfolded s1(3)] loop)
  qed
qed

lemma for_types_unhook:
  assumes "hooks_ok s ch" "distinct ts"
  shows "\<exists>s'. for_types (\<lambda>t s. unhook_loop P s (weechat_hooks s t)) ts s = Some s' \<and>
    hooks_ok s' (removed_chain (hook_exec_recursion s = 0) (\<lambda>a. (\<exists>t\<in>set ts. a \<in> set (ch t)) \<and> P (the (hook_map s a))) ch) \<and>
    hook_map s' = removed_map (hook_exec_recursion s = 0) (\<lambda>a. (\<exists>t\<in>set ts. a \<in> set (ch t)) \<and> P (the (hook_map s a))) (hook_map s) \<and>
    hook_exec_recursion s' = hook_exec_recursion s \<and> hooks_break s' = hooks_break s"
  using assms
proof (induction ts arbitrary: s ch)
  case (Cons t ts)
  let ?now = "hook_exec_recursion s = 0"
  let ?R = "\<lambda>a. a \<in> set (ch t) \<and> P (the (hook_map s a))"
  have l: "hooks_links s ch" using Cons.prems(1) by (rule hooks_okD)
  have w: "weechat_hooks s t = first_or (ch t) None" using linksD(1) [OF l, of t] by (rule dlist_first)
  obtain s1 where s1: "unhook_loop P s (weechat_hooks s t) = Some s1" "hooks_ok s1 (removed_chain ?now ?R ch)"
    "hook_map s1 = removed_map ?now ?R (hook_map s)" "hook_exec_recursion s1 = hook_exec_recursion s"
    "hooks_break s1 = hooks_break s"
    using unhook_loop_ok [OF Cons.prems(1), of t "[]" "ch t" P] w by auto
  let ?Q = "\<lambda>a. (\<exists>u\<in>set ts. a \<in> set (removed_chain ?now ?R ch u)) \<and> P (the (hook_map s1 a))"
  from Cons.IH [OF s1(2)] Cons.prems(2) obtain s2 where s2:
    "for_types (\<lambda>t s. unhook_loop P s (weechat_hooks s t)) ts s1 = Some s2"
    "hooks_ok s2 (removed_chain (hook_exec_recursion s1 = 0) ?Q (removed_chain ?now ?R ch))"
    "hook_map s2 = removed_map (hook_exec_recursion s1 = 0) ?Q (hook_map s1)"
    "hook_exec_recursion s2 = hook_exec_recursion s1" "hooks_break s2 = hooks_break s1"
    by auto
  have q: "(?Q a \<or> ?R a) = ((\<exists>u\<in>set (t # ts). a \<in> set (ch u)) \<and> P (the (hook_map s a)))" for a
  proof (cases "a \<in> set (ch t)")
    case True
    then have "a \<notin> set (ch u)" if "u \<in> set ts" for u
      using that links_disjoint [OF l True, of u] Cons.prems(2) by auto
    then have "\<not> ?Q a" by (auto simp: removed_chain_def split: if_splits)
    then show ?thesis using True by auto
  next
    case False
    then have "hook_map s1 a = hook_map s a" "a \<in> set (removed_chain ?now ?R ch u) \<longleftrightarrow> a \<in> set (ch u)" for u
      by (auto simp: s1(3) removed_map_def removed_chain_def)
    then show ?thesis using False by auto
  qed
  have ft: "for_types (\<lambda>t s. unhook_loop P s (weechat_hooks s t)) (t # ts) s = Some s2"
    by (simp add: s1(1) s2(1))
  have "hooks_ok s2 (removed_chain ?now (\<lambda>a. ?Q a \<or> ?R a) ch)"
    "hook_map s2 = removed_map ?now (\<lambda>a. ?Q a \<or> ?R a) (hook_map s)"
    using s2(2,3) by (simp_all only: s1(3,4) removed_comp)
  then show ?case unfolding q using ft s2(4,5) s1(4,5) by auto
qed (simp add: removed_none)

lemma in_chain_iff:
  assumes "hooks_ok s ch"
  shows "(\<exists>t. a \<in> set (ch t)) \<longleftrightarrow> hook_map s a \<noteq> None"
  using hooks_okD(2) [OF assms, of a] linksD(2) [OF hooks_okD(1) [OF assms], of a]
  by (metis option.distinct(1) option.exhaust)

lemma unhook_all_plugin_ok:
  fixes plugin subplugin
  defines "P \<equiv> \<lambda>hk. hk_plugin hk = plugin \<and> (case subplugin of None \<Rightarrow> True | Some p \<Rightarrow> hk_subplugin hk = Some p)"
  assumes ok: "hooks_ok s ch"
  obtains s' where "unhook_all_plugin s plugin subplugin = Some s'"
    "hooks_ok s' (removed_chain (hook_exec_recursion s = 0) (\<lambda>a. hook_map s a \<noteq> None \<and> P (the (hook_map s a))) ch)"
    "hook_map s' = removed_map (hook_exec_recursion s = 0) (\<lambda>a. hook_map s a \<noteq> None \<and> P (the (hook_map s a))) (hook_map s)"
    "hook_exec_recursion s' = hook_exec_recursion s" "hooks_break s' = hooks_break s"
proof -
  have P: "(hk_plugin hk = plugin \<and> (case subplugin of None \<Rightarrow> True
      | Some p \<Rightarrow> (case hk_subplugin hk of None \<Rightarrow> False | Some q \<Rightarrow> strcmp q p = 0))) = P hk" for hk
    by (auto simp: P_def split: option.splits)
  have C: "(\<exists>t\<in>set hook_types. a \<in> set (ch t)) = (hook_map s a \<noteq> None)" for a
    using in_chain_iff [OF ok, of a] hook_types_all(1) by auto
  show ?thesis
    using for_types_unhook [OF ok hook_types_all(2), of P] that unfolding unhook_all_plugin_def P C
    by (elim exE conjE) simp
qed

lemma unhook_all_ok:
  assumes ok: "hooks_ok s ch"
  obtains s' where "unhook_all s = Some s'"
    "hooks_ok s' (removed_chain (hook_exec_recursion s = 0) (\<lambda>a. hook_map s a \<noteq> None) ch)"
    "hook_map s' = removed_map (hook_exec_recursion s = 0) (\<lambda>a. hook_map s a \<noteq> None) (hook_map s)"
    "hook_exec_recursion s' = hook_exec_recursion s" "hooks_break s' = hooks_break s"
proof -
  have C: "(\<exists>t\<in>set hook_types. a \<in> set (ch t)) = (hook_map s a \<noteq> None)" for a
    using in_chain_iff [OF ok, of a] hook_types_all(1) by auto
  show ?thesis
    using for_types_unhook [OF ok hook_types_all(2), of "\<lambda>_. True"] that unfolding unhook_all_def C
    by (elim exE conjE) simp
qed

end
