(* ===== verification/Hook_Exec.thy ===== *)
theory Hook_Exec
  imports Hook_Inv
begin

text \<open>
  The hooks of \<open>src/core/hook/\<close>: how each type is created and executed.  A callback is code of a
  plugin, a parameter of the model: it gets the state of the hooks and returns it changed.  The
  loops that call callbacks need not end, since a callback may add hooks to the list being run:
  they have a bound on their steps, and \<open>Running\<close> is the outcome when it is reached.  The value
  \<open>None\<close> keeps its meaning, an access to a hook that is not in memory (or a \<open>NULL\<close> pointer).
\<close>

datatype 'a outcome = Returned 'a | Running

text \<open>What a callback returns, depending on its type: a code, a string or a pointer.\<close>

record reply =
  rp_rc :: int
  rp_text :: "cstr option"
  rp_pointer :: "nat option"

definition WHOREIRC_RC_OK :: int where "WHOREIRC_RC_OK = 0"
definition WHOREIRC_RC_OK_EAT :: int where "WHOREIRC_RC_OK_EAT = 1"
definition WHOREIRC_RC_ERROR :: int where "WHOREIRC_RC_ERROR = - 1"

type_synonym callbacks = "nat \<Rightarrow> cstr list \<Rightarrow> hooks \<Rightarrow> (hooks \<times> reply outcome) option"

text \<open>Accesses to the data of a hook of a type.\<close>

definition HOOK_COMMAND_RUN :: "hook \<Rightarrow> cstr option" where
  "HOOK_COMMAND_RUN hk = (case hk_data hk of Some (Data_command_run c) \<Rightarrow> Some c | _ \<Rightarrow> None)"
definition HOOK_TIMER :: "hook \<Rightarrow> hook_timer_data option" where
  "HOOK_TIMER hk = (case hk_data hk of Some (Data_timer d) \<Rightarrow> Some d | _ \<Rightarrow> None)"
definition HOOK_FD :: "hook \<Rightarrow> (int \<times> nat \<times> int) option" where
  "HOOK_FD hk = (case hk_data hk of Some (Data_fd fd flags error) \<Rightarrow> Some (fd, flags, error) | _ \<Rightarrow> None)"
definition HOOK_SIGNAL :: "hook \<Rightarrow> cstr option" where
  "HOOK_SIGNAL hk = (case hk_data hk of Some (Data_signal c) \<Rightarrow> Some c | _ \<Rightarrow> None)"
definition HOOK_HSIGNAL :: "hook \<Rightarrow> cstr option" where
  "HOOK_HSIGNAL hk = (case hk_data hk of Some (Data_hsignal c) \<Rightarrow> Some c | _ \<Rightarrow> None)"
definition HOOK_CONFIG :: "hook \<Rightarrow> cstr option option" where
  "HOOK_CONFIG hk = (case hk_data hk of Some (Data_config c) \<Rightarrow> Some c | _ \<Rightarrow> None)"
definition HOOK_COMPLETION :: "hook \<Rightarrow> cstr option" where
  "HOOK_COMPLETION hk = (case hk_data hk of Some (Data_completion c) \<Rightarrow> Some c | _ \<Rightarrow> None)"
definition HOOK_MODIFIER :: "hook \<Rightarrow> cstr option" where
  "HOOK_MODIFIER hk = (case hk_data hk of Some (Data_modifier c) \<Rightarrow> Some c | _ \<Rightarrow> None)"
definition HOOK_INFO :: "hook \<Rightarrow> cstr option" where
  "HOOK_INFO hk = (case hk_data hk of Some (Data_info c) \<Rightarrow> Some c | _ \<Rightarrow> None)"
definition HOOK_INFO_HASHTABLE :: "hook \<Rightarrow> cstr option" where
  "HOOK_INFO_HASHTABLE hk = (case hk_data hk of Some (Data_info_hashtable c) \<Rightarrow> Some c | _ \<Rightarrow> None)"
definition HOOK_INFOLIST :: "hook \<Rightarrow> cstr option" where
  "HOOK_INFOLIST hk = (case hk_data hk of Some (Data_infolist c) \<Rightarrow> Some c | _ \<Rightarrow> None)"
definition HOOK_HDATA :: "hook \<Rightarrow> cstr option" where
  "HOOK_HDATA hk = (case hk_data hk of Some (Data_hdata c) \<Rightarrow> Some c | _ \<Rightarrow> None)"


subsection \<open>Creation\<close>

text \<open>
  The name of the hook may start with a priority.  A callback that is \<open>NULL\<close> is \<open>None\<close>; the
  returned pointer is \<open>None\<close> for \<open>NULL\<close>.
\<close>

definition hook_named ::
  "hooks \<Rightarrow> nat option \<Rightarrow> hook_type \<Rightarrow> cstr option \<Rightarrow> nat \<Rightarrow> (cstr \<Rightarrow> hook_data) \<Rightarrow> (hooks \<times> nat option) option" where
  "hook_named s plugin t name cb mk = do {
     (priority, ptr_name) \<leftarrow> hook_get_priority_and_name name;
     (s, new_hook) \<leftarrow> hook_create s (hook_init_data plugin t priority cb (mk ptr_name));
     Some (s, Some new_hook) }"

definition hook_signal where
  "hook_signal s plugin signal callback =
     (case (signal, callback) of
        (Some n, Some cb) \<Rightarrow> if n = [] then Some (s, None) else hook_named s plugin HOOK_TYPE_SIGNAL signal cb Data_signal
      | _ \<Rightarrow> Some (s, None))"

definition hook_hsignal where
  "hook_hsignal s plugin signal callback =
     (case (signal, callback) of
        (Some n, Some cb) \<Rightarrow> if n = [] then Some (s, None) else hook_named s plugin HOOK_TYPE_HSIGNAL signal cb Data_hsignal
      | _ \<Rightarrow> Some (s, None))"

definition hook_config where
  "hook_config s plugin option callback =
     (case callback of
        Some cb \<Rightarrow> hook_named s plugin HOOK_TYPE_CONFIG option cb (\<lambda>n. Data_config (Some n))
      | None \<Rightarrow> Some (s, None))"

definition hook_completion where
  "hook_completion s plugin completion_item callback =
     (case (completion_item, callback) of
        (Some n, Some cb) \<Rightarrow>
          if n = [] \<or> CHR '' '' \<in> set n then Some (s, None)
          else hook_named s plugin HOOK_TYPE_COMPLETION completion_item cb Data_completion
      | _ \<Rightarrow> Some (s, None))"

definition hook_modifier where
  "hook_modifier s plugin modifier callback =
     (case (modifier, callback) of
        (Some n, Some cb) \<Rightarrow> if n = [] then Some (s, None) else hook_named s plugin HOOK_TYPE_MODIFIER modifier cb Data_modifier
      | _ \<Rightarrow> Some (s, None))"

definition hook_info where
  "hook_info s plugin info_name callback =
     (case (info_name, callback) of
        (Some n, Some cb) \<Rightarrow> if n = [] then Some (s, None) else hook_named s plugin HOOK_TYPE_INFO info_name cb Data_info
      | _ \<Rightarrow> Some (s, None))"

definition hook_info_hashtable where
  "hook_info_hashtable s plugin info_name callback =
     (case (info_name, callback) of
        (Some n, Some cb) \<Rightarrow> if n = [] then Some (s, None)
          else hook_named s plugin HOOK_TYPE_INFO_HASHTABLE info_name cb Data_info_hashtable
      | _ \<Rightarrow> Some (s, None))"

definition hook_infolist where
  "hook_infolist s plugin infolist_name callback =
     (case (infolist_name, callback) of
        (Some n, Some cb) \<Rightarrow> if n = [] then Some (s, None)
          else hook_named s plugin HOOK_TYPE_INFOLIST infolist_name cb Data_infolist
      | _ \<Rightarrow> Some (s, None))"

definition hook_hdata where
  "hook_hdata s plugin hdata_name callback =
     (case (hdata_name, callback) of
        (Some n, Some cb) \<Rightarrow> if n = [] then Some (s, None) else hook_named s plugin HOOK_TYPE_HDATA hdata_name cb Data_hdata
      | _ \<Rightarrow> Some (s, None))"

definition hook_command_run where
  "hook_command_run s plugin command callback =
     (case callback of
        Some cb \<Rightarrow> hook_named s plugin HOOK_TYPE_COMMAND_RUN command cb Data_command_run
      | None \<Rightarrow> Some (s, None))"

partial_function (option) hook_command_search_loop ::
  "hook heap \<Rightarrow> nat option \<Rightarrow> nat option \<Rightarrow> cstr option \<Rightarrow> nat option option" where
  "hook_command_search_loop h ptr_hook plugin command =
     (case ptr_hook of
        None \<Rightarrow> Some None
      | Some a \<Rightarrow> do {
          it \<leftarrow> h a;
          found \<leftarrow>
            (if \<not> hk_deleted (payload it) \<and> hk_plugin (payload it) = plugin then do {
               c \<leftarrow> HOOK_COMMAND (payload it);
               Some (string_strcasecmp (Some c) command = 0) }
             else Some False);
          if found then Some (Some a) else hook_command_search_loop h (next_item it) plugin command })"

declare hook_command_search_loop.simps [code]

definition hook_command_search :: "hooks \<Rightarrow> nat option \<Rightarrow> cstr option \<Rightarrow> nat option option" where
  "hook_command_search s plugin command =
     hook_command_search_loop (hooks_heap s) (weechat_hooks s HOOK_TYPE_COMMAND) plugin command"

text \<open>The completion templates of the command are not part of the model.\<close>

definition hook_command where
  "hook_command s plugin command callback =
     (case callback of
        None \<Rightarrow> Some (s, None)
      | Some cb \<Rightarrow> do {
          same \<leftarrow> hook_command_search s plugin command;
          if same \<noteq> None then Some (s, None)
          else hook_named s plugin HOOK_TYPE_COMMAND command cb Data_command })"

partial_function (option) hook_fd_search_loop :: "hook heap \<Rightarrow> nat option \<Rightarrow> int \<Rightarrow> nat option option" where
  "hook_fd_search_loop h ptr_hook fd =
     (case ptr_hook of
        None \<Rightarrow> Some None
      | Some a \<Rightarrow> do {
          it \<leftarrow> h a;
          found \<leftarrow>
            (if \<not> hk_deleted (payload it) then do {
               (f, _) \<leftarrow> HOOK_FD (payload it);
               Some (f = fd) }
             else Some False);
          if found then Some (Some a) else hook_fd_search_loop h (next_item it) fd })"

declare hook_fd_search_loop.simps [code]

definition hook_fd_search :: "hooks \<Rightarrow> int \<Rightarrow> nat option option" where
  "hook_fd_search s fd = hook_fd_search_loop (hooks_heap s) (weechat_hooks s HOOK_TYPE_FD) fd"

definition HOOK_FD_FLAG_READ :: nat where "HOOK_FD_FLAG_READ = 1"
definition HOOK_FD_FLAG_WRITE :: nat where "HOOK_FD_FLAG_WRITE = 2"
definition HOOK_FD_FLAG_EXCEPTION :: nat where "HOOK_FD_FLAG_EXCEPTION = 4"

definition hook_fd where
  "hook_fd s plugin fd flag_read flag_write flag_exception callback =
     (if fd < 0 then Some (s, None)
      else do {
        same \<leftarrow> hook_fd_search s fd;
        if same \<noteq> None then Some (s, None)
        else case callback of
          None \<Rightarrow> Some (s, None)
        | Some cb \<Rightarrow> do {
            let flags = (if flag_read then HOOK_FD_FLAG_READ else 0) OR (if flag_write then HOOK_FD_FLAG_WRITE else 0)
              OR (if flag_exception then HOOK_FD_FLAG_EXCEPTION else 0);
            (s, new_hook) \<leftarrow> hook_create s
              (hook_init_data plugin HOOK_TYPE_FD HOOK_PRIORITY_DEFAULT cb (Data_fd fd flags 0));
            Some (s, Some new_hook) } })"

text \<open>The clock: \<open>time\<close>, \<open>gettimeofday\<close>, the local time and the one of Greenwich.\<close>

record tm =
  tm_year :: int
  tm_mon :: int
  tm_mday :: int
  tm_hour :: int

record clock =
  ck_time :: int
  ck_now :: timeval
  ck_local :: tm
  ck_gm :: tm

definition hook_timer_init :: "clock \<Rightarrow> hook_timer_data \<Rightarrow> hook_timer_data" where
  "hook_timer_init ck d =
     (let l = ck_local ck; g = ck_gm ck;
          diff_hour =
            (if tm_year l > tm_year g \<or> tm_mon l > tm_mon g \<or> tm_mday l > tm_mday g
             then (24 - tm_hour g) + tm_hour l
             else if tm_year g > tm_year l \<or> tm_mon g > tm_mon l \<or> tm_mday g > tm_mday l
             then - ((24 - tm_hour l) + tm_hour g)
             else tm_hour l - tm_hour g);
          last_tv =
            (if interval d \<ge> 1000 \<and> align_second d > 0
             then \<lparr>tv_sec = tv_sec (ck_now ck) - (tv_sec (ck_now ck) + diff_hour * 3600) smod align_second d,
                   tv_usec = 10000\<rparr>
             else ck_now ck)
      in d\<lparr>last_exec := last_tv, next_exec := util_timeval_add last_tv (interval d * 1000)\<rparr>)"

definition hook_timer where
  "hook_timer s plugin ck intv align max_calls callback =
     (case callback of
        None \<Rightarrow> Some (s, None)
      | Some cb \<Rightarrow>
          if intv \<le> 0 then Some (s, None)
          else do {
            let zero = \<lparr>tv_sec = 0, tv_usec = 0\<rparr>;
            (s, new_hook) \<leftarrow> hook_create s
              (hook_init_data plugin HOOK_TYPE_TIMER HOOK_PRIORITY_DEFAULT cb (Data_timer (hook_timer_init ck
                \<lparr>interval = intv, align_second = align, remaining_calls = max_calls, last_exec = zero, next_exec = zero\<rparr>)));
            Some (s, Some new_hook) })"


subsection \<open>Execution\<close>

text \<open>The call of a callback, with the flag \<open>running\<close> set during the call.\<close>

definition hook_call :: "callbacks \<Rightarrow> nat \<Rightarrow> cstr list \<Rightarrow> hooks \<Rightarrow> (hooks \<times> reply outcome) option" where
  "hook_call cb a args s = do {
     it \<leftarrow> hooks_heap s a;
     s \<leftarrow> hook_update s a (\<lambda>hk. hk\<lparr>hk_running := 1\<rparr>);
     (s, r) \<leftarrow> cb (hk_callback (payload it)) args s;
     case r of
       Running \<Rightarrow> Some (s, Running)
     | Returned v \<Rightarrow> do {
         s \<leftarrow> hook_update s a (\<lambda>hk. hk\<lparr>hk_running := 0\<rparr>);
         Some (s, Returned v) } }"

text \<open>
  The loop of the functions that execute hooks: the next hook is read before the callback is
  called; hooks that are deleted or running are skipped; \<open>sel\<close> is the test on the data of the
  hook and \<open>body\<close> the call with what is done with its result, which may end the loop.
\<close>

fun hook_loop ::
  "(hook \<Rightarrow> bool option) \<Rightarrow> (nat \<Rightarrow> 'a \<Rightarrow> hooks \<Rightarrow> (hooks \<times> ('a \<times> bool) outcome) option) \<Rightarrow>
   nat \<Rightarrow> hooks \<Rightarrow> nat option \<Rightarrow> 'a \<Rightarrow> (hooks \<times> 'a outcome) option" where
  "hook_loop sel body 0 s ptr_hook acc = Some (s, Running)"
| "hook_loop sel body (Suc n) s None acc = Some (s, Returned acc)"
| "hook_loop sel body (Suc n) s (Some a) acc = do {
     it \<leftarrow> hooks_heap s a;
     let next_hook = next_item it;
     call \<leftarrow> (if hk_deleted (payload it) \<or> hk_running (payload it) \<noteq> 0 then Some False else sel (payload it));
     if call then do {
       (s, r) \<leftarrow> body a acc s;
       case r of
         Running \<Rightarrow> Some (s, Running)
       | Returned (acc, stop) \<Rightarrow>
           if stop then Some (s, Returned acc) else hook_loop sel body n s next_hook acc }
     else hook_loop sel body n s next_hook acc }"

text \<open>The loop between \<open>hook_exec_start\<close> and \<open>hook_exec_end\<close>.\<close>

definition hook_run ::
  "(hook \<Rightarrow> bool option) \<Rightarrow> (nat \<Rightarrow> 'a \<Rightarrow> hooks \<Rightarrow> (hooks \<times> ('a \<times> bool) outcome) option) \<Rightarrow>
   nat \<Rightarrow> hook_type \<Rightarrow> 'a \<Rightarrow> hooks \<Rightarrow> (hooks \<times> 'a outcome) option" where
  "hook_run sel body n t acc s = do {
     let s = hook_exec_start s;
     (s, r) \<leftarrow> hook_loop sel body n s (weechat_hooks s t) acc;
     case r of
       Running \<Rightarrow> Some (s, Running)
     | Returned v \<Rightarrow> do { s \<leftarrow> hook_exec_end s; Some (s, Returned v) } }"

definition call_body ::
  "callbacks \<Rightarrow> ('a \<Rightarrow> cstr list) \<Rightarrow> ('a \<Rightarrow> reply \<Rightarrow> 'a \<times> bool) \<Rightarrow> nat \<Rightarrow> 'a \<Rightarrow> hooks \<Rightarrow>
   (hooks \<times> ('a \<times> bool) outcome) option" where
  "call_body cb args f a acc s = do {
     (s, r) \<leftarrow> hook_call cb a (args acc) s;
     Some (s, map_outcome (f acc) r) }"

definition hook_signal_send :: "callbacks \<Rightarrow> nat \<Rightarrow> cstr \<Rightarrow> hooks \<Rightarrow> (hooks \<times> int outcome) option" where
  "hook_signal_send cb n signal s =
     hook_run (\<lambda>hk. do { p \<leftarrow> HOOK_SIGNAL hk; Some (string_match (Some signal) (Some p) False) })
       (call_body cb (\<lambda>_. [signal]) (\<lambda>_ v. (rp_rc v, rp_rc v = WHOREIRC_RC_OK_EAT)))
       n HOOK_TYPE_SIGNAL WHOREIRC_RC_OK s"

definition hook_hsignal_send :: "callbacks \<Rightarrow> nat \<Rightarrow> cstr \<Rightarrow> hooks \<Rightarrow> (hooks \<times> int outcome) option" where
  "hook_hsignal_send cb n signal s =
     hook_run (\<lambda>hk. do { p \<leftarrow> HOOK_HSIGNAL hk; Some (string_match (Some signal) (Some p) False) })
       (call_body cb (\<lambda>_. [signal]) (\<lambda>_ v. (rp_rc v, rp_rc v = WHOREIRC_RC_OK_EAT)))
       n HOOK_TYPE_HSIGNAL WHOREIRC_RC_OK s"

definition hook_config_exec :: "callbacks \<Rightarrow> nat \<Rightarrow> cstr \<Rightarrow> cstr \<Rightarrow> hooks \<Rightarrow> (hooks \<times> unit outcome) option" where
  "hook_config_exec cb n option val s =
     hook_run (\<lambda>hk. do {
         p \<leftarrow> HOOK_CONFIG hk;
         Some (case p of None \<Rightarrow> True | Some m \<Rightarrow> string_match (Some option) (Some m) False) })
       (call_body cb (\<lambda>_. [option, val]) (\<lambda>_ _. ((), False))) n HOOK_TYPE_CONFIG () s"

definition hook_completion_exec ::
  "callbacks \<Rightarrow> nat \<Rightarrow> cstr \<Rightarrow> hooks \<Rightarrow> (hooks \<times> unit outcome) option" where
  "hook_completion_exec cb n completion_item s =
     (if weechat_hooks s HOOK_TYPE_COMPLETION = None then Some (s, Returned ())
      else hook_run (\<lambda>hk. do {
          c \<leftarrow> HOOK_COMPLETION hk;
          Some (string_strcasecmp (Some c) (Some (takeWhile (\<lambda>c. c \<noteq> CHR '':'') completion_item)) = 0) })
        (call_body cb (\<lambda>_. [completion_item]) (\<lambda>_ _. ((), False))) n HOOK_TYPE_COMPLETION () s)"

text \<open>The callbacks transform the message in turn; an empty message drops it.\<close>

definition hook_modifier_exec ::
  "callbacks \<Rightarrow> nat \<Rightarrow> cstr option \<Rightarrow> cstr \<Rightarrow> cstr \<Rightarrow> hooks \<Rightarrow> (hooks \<times> cstr option outcome) option" where
  "hook_modifier_exec cb n modifier modifier_data string s =
     (case modifier of
        None \<Rightarrow> Some (s, Returned None)
      | Some m \<Rightarrow>
          if m = [] then Some (s, Returned None)
          else do {
            (s, r) \<leftarrow> hook_run
              (\<lambda>hk. do { c \<leftarrow> HOOK_MODIFIER hk; Some (string_strcasecmp (Some c) (Some m) = 0) })
              (call_body cb (\<lambda>message. [m, modifier_data, message])
                (\<lambda>message v. case rp_text v of
                   None \<Rightarrow> (message, False)
                 | Some new_msg \<Rightarrow> (new_msg, new_msg = [])))
              n HOOK_TYPE_MODIFIER string s;
            Some (s, map_outcome Some r) })"

text \<open>The infos, infolists and hdata: the first hook with the name gives the result.\<close>

definition hook_info_get ::
  "callbacks \<Rightarrow> nat \<Rightarrow> cstr option \<Rightarrow> cstr \<Rightarrow> hooks \<Rightarrow> (hooks \<times> cstr option outcome) option" where
  "hook_info_get cb n info_name arguments s =
     (case info_name of
        None \<Rightarrow> Some (s, Returned None)
      | Some m \<Rightarrow>
          if m = [] then Some (s, Returned None)
          else hook_run (\<lambda>hk. do { c \<leftarrow> HOOK_INFO hk; Some (string_strcasecmp (Some c) (Some m) = 0) })
            (call_body cb (\<lambda>_. [m, arguments]) (\<lambda>_ v. (rp_text v, True))) n HOOK_TYPE_INFO None s)"

definition hook_info_get_hashtable ::
  "callbacks \<Rightarrow> nat \<Rightarrow> cstr option \<Rightarrow> hooks \<Rightarrow> (hooks \<times> nat option outcome) option" where
  "hook_info_get_hashtable cb n info_name s =
     (case info_name of
        None \<Rightarrow> Some (s, Returned None)
      | Some m \<Rightarrow>
          if m = [] then Some (s, Returned None)
          else hook_run (\<lambda>hk. do { c \<leftarrow> HOOK_INFO_HASHTABLE hk; Some (string_strcasecmp (Some c) (Some m) = 0) })
            (call_body cb (\<lambda>_. [m]) (\<lambda>_ v. (rp_pointer v, True))) n HOOK_TYPE_INFO_HASHTABLE None s)"

definition hook_infolist_get ::
  "callbacks \<Rightarrow> nat \<Rightarrow> cstr option \<Rightarrow> cstr \<Rightarrow> hooks \<Rightarrow> (hooks \<times> nat option outcome) option" where
  "hook_infolist_get cb n infolist_name arguments s =
     (case infolist_name of
        None \<Rightarrow> Some (s, Returned None)
      | Some m \<Rightarrow>
          if m = [] then Some (s, Returned None)
          else hook_run (\<lambda>hk. do { c \<leftarrow> HOOK_INFOLIST hk; Some (string_strcasecmp (Some c) (Some m) = 0) })
            (call_body cb (\<lambda>_. [m, arguments]) (\<lambda>_ v. (rp_pointer v, True))) n HOOK_TYPE_INFOLIST None s)"

text \<open>\<open>known\<close> is what the hashtable of the hdata already built holds for the name.\<close>

definition hook_hdata_get ::
  "callbacks \<Rightarrow> nat \<Rightarrow> nat option \<Rightarrow> cstr option \<Rightarrow> hooks \<Rightarrow> (hooks \<times> nat option outcome) option" where
  "hook_hdata_get cb n known hdata_name s =
     (case hdata_name of
        None \<Rightarrow> Some (s, Returned None)
      | Some m \<Rightarrow>
          if m = [] then Some (s, Returned None)
          else if known \<noteq> None then Some (s, Returned known)
          else hook_run (\<lambda>hk. do { c \<leftarrow> HOOK_HDATA hk; Some (strcmp c m = 0) })
            (call_body cb (\<lambda>_. [m]) (\<lambda>_ v. (rp_pointer v, True))) n HOOK_TYPE_HDATA None s)"


subsubsection \<open>Timers\<close>

definition timer_update :: "hooks \<Rightarrow> nat \<Rightarrow> (hook_timer_data \<Rightarrow> hook_timer_data) \<Rightarrow> hooks option" where
  "timer_update s a f = do {
     it \<leftarrow> hooks_heap s a;
     d \<leftarrow> HOOK_TIMER (payload it);
     hook_update s a (\<lambda>hk. hk\<lparr>hk_data := Some (Data_timer (f d))\<rparr>) }"

partial_function (option) hook_timer_reinit_loop :: "clock \<Rightarrow> hooks \<Rightarrow> nat option \<Rightarrow> hooks option" where
  "hook_timer_reinit_loop ck s ptr_hook =
     (case ptr_hook of
        None \<Rightarrow> Some s
      | Some a \<Rightarrow> do {
          it \<leftarrow> hooks_heap s a;
          s \<leftarrow> (if \<not> hk_deleted (payload it) then timer_update s a (hook_timer_init ck) else Some s);
          it \<leftarrow> hooks_heap s a;
          hook_timer_reinit_loop ck s (next_item it) })"

declare hook_timer_reinit_loop.simps [code]

definition hook_timer_check_system_clock :: "clock \<Rightarrow> hooks \<Rightarrow> hooks option" where
  "hook_timer_check_system_clock ck s = do {
     let diff_time = ck_time ck - hook_last_system_time s;
     s \<leftarrow> (if diff_time \<le> - 10 \<or> diff_time \<ge> 10
           then hook_timer_reinit_loop ck s (weechat_hooks s HOOK_TYPE_TIMER) else Some s);
     Some (s\<lparr>hook_last_system_time := ck_time ck\<rparr>) }"

text \<open>The earliest time of execution; \<open>None\<close> inside the result: no timer was found.\<close>

partial_function (option) hook_timer_next_loop ::
  "hook heap \<Rightarrow> nat option \<Rightarrow> timeval option \<Rightarrow> timeval option option" where
  "hook_timer_next_loop h ptr_hook found =
     (case ptr_hook of
        None \<Rightarrow> Some found
      | Some a \<Rightarrow> do {
          it \<leftarrow> h a;
          if hk_deleted (payload it) then hook_timer_next_loop h (next_item it) found
          else do {
            d \<leftarrow> HOOK_TIMER (payload it);
            hook_timer_next_loop h (next_item it)
              (if found = None \<or> util_timeval_cmp (Some (next_exec d)) found < 0
               then Some (next_exec d) else found) } })"

declare hook_timer_next_loop.simps [code]

definition hook_timer_get_time_to_next :: "clock \<Rightarrow> hooks \<Rightarrow> (hooks \<times> int) option" where
  "hook_timer_get_time_to_next ck s = do {
     s \<leftarrow> hook_timer_check_system_clock ck s;
     found \<leftarrow> hook_timer_next_loop (hooks_heap s) (weechat_hooks s HOOK_TYPE_TIMER) None;
     let tv_timeout =
       (case found of
          None \<Rightarrow> \<lparr>tv_sec = 2, tv_usec = 0\<rparr>
        | Some tv \<Rightarrow>
            if util_timeval_cmp (Some tv) (Some (ck_now ck)) < 0 then \<lparr>tv_sec = 0, tv_usec = 0\<rparr>
            else
              (let sec = tv_sec tv - tv_sec (ck_now ck);
                   diff_usec = tv_usec tv - tv_usec (ck_now ck);
                   t = (if diff_usec \<ge> 0 then \<lparr>tv_sec = sec, tv_usec = diff_usec\<rparr>
                        else \<lparr>tv_sec = sec - 1, tv_usec = 1000000 + diff_usec\<rparr>)
               in if tv_sec t \<ge> 2 then \<lparr>tv_sec = 2, tv_usec = 0\<rparr> else t));
     let timeout = tv_sec tv_timeout * 1000 + tv_usec tv_timeout sdiv 1000;
     Some (s, if timeout < 1 then 1 else timeout) }"

text \<open>After the call, the next execution is set and the calls are counted, unless the hook was removed.\<close>

definition hook_timer_after :: "clock \<Rightarrow> nat \<Rightarrow> hooks \<Rightarrow> (hooks \<times> (unit \<times> bool) outcome) option" where
  "hook_timer_after ck a s = do {
     it \<leftarrow> hooks_heap s a;
     s \<leftarrow>
       (if hk_deleted (payload it) then Some s
        else do {
          s \<leftarrow> timer_update s a (\<lambda>d. d\<lparr>last_exec := ck_now ck,
            next_exec := util_timeval_add (next_exec d) (interval d * 1000)\<rparr>);
          it \<leftarrow> hooks_heap s a;
          d \<leftarrow> HOOK_TIMER (payload it);
          if remaining_calls d > 0 then do {
            s \<leftarrow> timer_update s a (\<lambda>d. d\<lparr>remaining_calls := remaining_calls d - 1\<rparr>);
            if remaining_calls d - 1 = 0 then unhook s (Some a) else Some s }
          else Some s });
     Some (s, Returned ((), False)) }"

definition hook_timer_body ::
  "callbacks \<Rightarrow> clock \<Rightarrow> nat \<Rightarrow> unit \<Rightarrow> hooks \<Rightarrow> (hooks \<times> (unit \<times> bool) outcome) option" where
  "hook_timer_body cb ck a acc s = do {
     it \<leftarrow> hooks_heap s a;
     d \<leftarrow> HOOK_TIMER (payload it);
     (s, r) \<leftarrow> hook_call cb a
       [string_of_int (if remaining_calls d > 0 then remaining_calls d - 1 else - 1)] s;
     case r of
       Running \<Rightarrow> Some (s, Running)
     | Returned _ \<Rightarrow> hook_timer_after ck a s }"

definition hook_timer_exec :: "callbacks \<Rightarrow> nat \<Rightarrow> clock \<Rightarrow> hooks \<Rightarrow> (hooks \<times> unit outcome) option" where
  "hook_timer_exec cb n ck s =
     (if weechat_hooks s HOOK_TYPE_TIMER = None then Some (s, Returned ())
      else do {
        s \<leftarrow> hook_timer_check_system_clock ck s;
        hook_run (\<lambda>hk. do {
            d \<leftarrow> HOOK_TIMER hk;
            Some (util_timeval_cmp (Some (next_exec d)) (Some (ck_now ck)) \<le> 0) })
          (hook_timer_body cb ck) n HOOK_TYPE_TIMER () s })"


subsubsection \<open>File descriptors\<close>

text \<open>
  The array for \<open>poll\<close> is filled with the descriptors that are valid; writing beyond its size is
  an invalid access.  \<open>badfd\<close> tells which descriptors \<open>fcntl\<close> refuses, with the error number
  \<open>ebadf\<close>.
\<close>

partial_function (option) hook_fd_poll_loop ::
  "(int \<Rightarrow> bool) \<Rightarrow> int \<Rightarrow> hooks \<Rightarrow> nat option \<Rightarrow> (int \<times> nat) list \<Rightarrow> (hooks \<times> (int \<times> nat) list) option" where
  "hook_fd_poll_loop badfd ebadf s ptr_hook pollfd =
     (case ptr_hook of
        None \<Rightarrow> Some (s, pollfd)
      | Some a \<Rightarrow> do {
          it \<leftarrow> hooks_heap s a;
          if hk_deleted (payload it) then hook_fd_poll_loop badfd ebadf s (next_item it) pollfd
          else do {
            (fd, flags, error) \<leftarrow> HOOK_FD (payload it);
            if badfd fd then do {
              s \<leftarrow> (if error = 0 then hook_update s a (\<lambda>hk. hk\<lparr>hk_data := Some (Data_fd fd flags ebadf)\<rparr>) else Some s);
              hook_fd_poll_loop badfd ebadf s (next_item it) pollfd }
            else if int (length pollfd) > hook_fd_pollfd_count s then Some (s, pollfd)
            else if int (length pollfd) \<ge> hook_fd_pollfd_count s then None
            else hook_fd_poll_loop badfd ebadf s (next_item it)
              (pollfd @ [(fd, (if flags AND HOOK_FD_FLAG_READ \<noteq> 0 then 1 else 0) OR
                             (if flags AND HOOK_FD_FLAG_WRITE \<noteq> 0 then 4 else 0))]) } })"

declare hook_fd_poll_loop.simps [code]

text \<open>\<open>poll\<close> returns for each entry whether something happened, or nothing at all.\<close>

definition hook_fd_exec ::
  "callbacks \<Rightarrow> nat \<Rightarrow> clock \<Rightarrow> (int \<Rightarrow> bool) \<Rightarrow> int \<Rightarrow> ((int \<times> nat) list \<Rightarrow> int \<Rightarrow> bool list option) \<Rightarrow> bool \<Rightarrow>
   hooks \<Rightarrow> (hooks \<times> unit outcome) option" where
  "hook_fd_exec cb n ck badfd ebadf poll process_pending s =
     (if weechat_hooks s HOOK_TYPE_FD = None then Some (s, Returned ())
      else do {
        (s, pollfd) \<leftarrow> hook_fd_poll_loop badfd ebadf s (weechat_hooks s HOOK_TYPE_FD) [];
        (s, timeout) \<leftarrow> hook_timer_get_time_to_next ck s;
        case poll pollfd (if process_pending then 0 else timeout) of
          None \<Rightarrow> Some (s, Returned ())
        | Some revents \<Rightarrow>
            hook_run (\<lambda>hk. do {
                (fd, _) \<leftarrow> HOOK_FD hk;
                Some (list_ex (\<lambda>((f, _), r). f = fd \<and> r) (zip pollfd revents)) })
              (call_body cb (\<lambda>_. []) (\<lambda>_ _. ((), False))) n HOOK_TYPE_FD () s })"


subsubsection \<open>Commands being run\<close>

text \<open>
  This loop is not between \<open>hook_exec_start\<close> and \<open>hook_exec_end\<close>.  For an empty command the code
  reads beyond the end of the string.
\<close>

definition hook_command_run_matches :: "cstr \<Rightarrow> cstr \<Rightarrow> bool" where
  "hook_command_run_matches ptr_command hook_cmd =
     (string_match (Some ptr_command) (Some hook_cmd) False \<or>
      (CHR '' '' \<notin> set hook_cmd \<and>
       string_strncasecmp (Some ptr_command) (Some hook_cmd) (int (utf8_strlen (Some hook_cmd))) = 0 \<and>
       (bat ptr_command (length hook_cmd) = byte (CHR '' '') \<or> bat ptr_command (length hook_cmd) = 0)))"

definition hook_command_run_exec ::
  "callbacks \<Rightarrow> nat \<Rightarrow> cstr \<Rightarrow> hooks \<Rightarrow> (hooks \<times> int outcome) option" where
  "hook_command_run_exec cb n command s =
     (if weechat_hooks s HOOK_TYPE_COMMAND_RUN = None then Some (s, Returned WHOREIRC_RC_OK)
      else if command = [] then None
      else do {
        let ptr_command = (if bat command 0 \<noteq> byte (CHR ''/'') then CHR ''/'' # tl command else command);
        hook_loop (\<lambda>hk. do { c \<leftarrow> HOOK_COMMAND_RUN hk; Some (hook_command_run_matches ptr_command c) })
          (call_body cb (\<lambda>_. [ptr_command])
            (\<lambda>_ v. if rp_rc v = WHOREIRC_RC_OK_EAT then (rp_rc v, True) else (WHOREIRC_RC_OK, False)))
          n s (weechat_hooks s HOOK_TYPE_COMMAND_RUN) WHOREIRC_RC_OK })"

end
