(* ===== verification/String_Ops.thy ===== *)
theory String_Ops
  imports String_Match "HOL-Library.Monad_Syntax"
begin

text \<open>
  The functions of \<open>src/core/wee-string.c\<close> that build a new string from another one: reversal,
  repetition, replacement, quotes, strip, escaped chars, masks as regular expressions, flags of a
  regular expression, and the tests that decide what an input line is.
\<close>

subsection \<open>Reversal, repetition, home\<close>

text \<open>The bytes written from the end of the buffer; the first component is what is written.\<close>

function string_reverse_loop :: "cstr \<Rightarrow> cstr \<Rightarrow> cstr" where
  "string_reverse_loop ptr_string result =
     (if ptr_string = [] then result
      else let char_size = utf8_char_size (Some ptr_string) in
        string_reverse_loop (drop char_size ptr_string) (take char_size ptr_string @ result))"
  by pat_completeness auto
termination
  by (relation "measure (\<lambda>(s, _). length s)") (auto simp: utf8_char_size_pos)

declare string_reverse_loop.simps [simp del]

definition string_reverse :: "cstr option \<Rightarrow> cstr option" where
  "string_reverse string =
     (case string of
        None \<Rightarrow> None
      | Some s \<Rightarrow> if s = [] then Some s else Some (string_reverse_loop s []))"

fun string_repeat_loop :: "cstr \<Rightarrow> nat \<Rightarrow> cstr" where
  "string_repeat_loop string 0 = []"
| "string_repeat_loop string (Suc count) = string @ string_repeat_loop string count"

definition string_repeat :: "cstr option \<Rightarrow> int \<Rightarrow> cstr option" where
  "string_repeat string count =
     (case string of
        None \<Rightarrow> None
      | Some s \<Rightarrow>
          if s = [] \<or> count \<le> 0 then Some []
          else if count = 1 then Some s
          else Some (string_repeat_loop s (nat count)))"

text \<open>The value of \<open>HOME\<close> in the environment is an argument.\<close>

definition string_expand_home :: "cstr option \<Rightarrow> cstr option \<Rightarrow> cstr option" where
  "string_expand_home home path =
     (case path of
        None \<Rightarrow> None
      | Some p \<Rightarrow>
          if p = [] \<or> bat p 0 \<noteq> byte (CHR ''~'')
             \<or> (bat p 1 \<noteq> 0 \<and> bat p 1 \<noteq> byte (CHR ''/''))
          then Some p
          else case home of
            None \<Rightarrow> None
          | Some ptr_home \<Rightarrow> Some (ptr_home @ drop 1 p))"

subsection \<open>Quotes and strip\<close>

text \<open>The positions are indices; \<open>pos_end\<close> is the last char that is not a space.\<close>

fun skip_spaces_back :: "cstr \<Rightarrow> nat \<Rightarrow> nat \<Rightarrow> nat" where
  "skip_spaces_back s pos_start 0 = 0"
| "skip_spaces_back s pos_start (Suc pos_end) =
     (if bat s (Suc pos_end) = byte (CHR '' '') \<and> Suc pos_end > pos_start
      then skip_spaces_back s pos_start pos_end else Suc pos_end)"

definition string_remove_quotes :: "cstr option \<Rightarrow> cstr option \<Rightarrow> cstr option" where
  "string_remove_quotes string quotes =
     (case (string, quotes) of
        (Some s, Some q) \<Rightarrow>
          if s = [] then Some s
          else let
            pos_start = length (takeWhile (\<lambda>c. c = CHR '' '') s);
            pos_end = skip_spaces_back s pos_start (length s - 1)
          in
            if bat s pos_start = 0 \<or> bat s pos_end = 0 \<or> pos_end \<le> pos_start then Some s
            else if s ! pos_start \<in> set q \<and> s ! pos_end = s ! pos_start then
              if pos_end = pos_start + 1 then Some []
              else string_strndup (Some (drop (pos_start + 1) s)) (int pos_end - int pos_start - 1)
            else Some s
      | _ \<Rightarrow> None)"

text \<open>The end pointer is one past the last char kept, \<open>ptr_end + 1\<close> of the code.\<close>

fun strip_right :: "cstr \<Rightarrow> nat \<Rightarrow> nat \<Rightarrow> cstr \<Rightarrow> nat" where
  "strip_right s ptr_start 0 chars = 0"
| "strip_right s ptr_start (Suc e) chars =
     (if e \<ge> ptr_start \<and> s ! e \<in> set chars then strip_right s ptr_start e chars else Suc e)"

definition string_strip :: "cstr option \<Rightarrow> bool \<Rightarrow> bool \<Rightarrow> cstr option \<Rightarrow> cstr option" where
  "string_strip string left right chars =
     (case string of
        None \<Rightarrow> None
      | Some s \<Rightarrow>
          (case chars of
             None \<Rightarrow> Some s
           | Some ch \<Rightarrow>
               if s = [] then Some s
               else let ptr_start = (if left then length (takeWhile (\<lambda>c. c \<in> set ch) s) else 0) in
                 if left \<and> bat s ptr_start = 0 then Some []
                 else let e = (if right then strip_right s ptr_start (length s) ch else length s) in
                   if right \<and> e \<le> ptr_start then Some []
                   else string_strndup (Some (drop ptr_start s)) (int e - int ptr_start)))"

subsection \<open>Replacement\<close>

text \<open>Both loops run for ever when the searched string is empty: the result is then \<open>None\<close>.\<close>

partial_function (option) string_replace_count :: "cstr \<Rightarrow> cstr \<Rightarrow> nat \<Rightarrow> nat option" where
  "string_replace_count pos search count =
     (if pos = [] then Some count
      else case strstr pos search of
        None \<Rightarrow> Some count
      | Some p \<Rightarrow> string_replace_count (drop (length search) p) search (count + 1))"

partial_function (option) string_replace_loop :: "cstr \<Rightarrow> cstr \<Rightarrow> cstr \<Rightarrow> cstr option" where
  "string_replace_loop string search replace =
     (if string = [] then Some []
      else case strstr string search of
        None \<Rightarrow> Some string
      | Some pos \<Rightarrow>
          do {
            rest \<leftarrow> string_replace_loop (drop (length search) pos) search replace;
            Some (take (length string - length pos) string @ replace @ rest) })"

text \<open>The string and the size of the buffer allocated for it.\<close>

definition string_replace :: "cstr option \<Rightarrow> cstr option \<Rightarrow> cstr option \<Rightarrow> (cstr option \<times> nat) option" where
  "string_replace string search replace =
     (case (string, search, replace) of
        (Some s, Some search, Some replace) \<Rightarrow>
          (case string_replace_count s search 0 of
             None \<Rightarrow> None
           | Some count \<Rightarrow>
               if count = 0 then Some (Some s, length s + 1)
               else map_option (\<lambda>new_string. (Some new_string,
                   length s - count * length search + count * length replace + 1))
                 (string_replace_loop s search replace))
      | _ \<Rightarrow> Some (None, 0))"

subsection \<open>Escaped chars\<close>

definition is_octal_digit :: "nat \<Rightarrow> bool" where
  "is_octal_digit c \<longleftrightarrow> byte (CHR ''0'') \<le> c \<and> c \<le> byte (CHR ''7'')"

definition isxdigit :: "nat \<Rightarrow> bool" where
  "isxdigit c \<longleftrightarrow> (byte (CHR ''0'') \<le> c \<and> c \<le> byte (CHR ''9''))
     \<or> (byte (CHR ''a'') \<le> c \<and> c \<le> byte (CHR ''f''))
     \<or> (byte (CHR ''A'') \<le> c \<and> c \<le> byte (CHR ''F''))"

definition hex2dec :: "nat \<Rightarrow> nat" where
  "hex2dec c =
     (if byte (CHR ''a'') \<le> c \<and> c \<le> byte (CHR ''f'') then c - byte (CHR ''a'') + 10
      else if byte (CHR ''A'') \<le> c \<and> c \<le> byte (CHR ''F'') then c - byte (CHR ''A'') + 10
      else c - byte (CHR ''0''))"

text \<open>At most \<open>n\<close> digits are read; the result is the value and the number of digits.\<close>

fun read_digits :: "(nat \<Rightarrow> bool) \<Rightarrow> (nat \<Rightarrow> nat) \<Rightarrow> nat \<Rightarrow> nat \<Rightarrow> cstr \<Rightarrow> nat \<Rightarrow> nat \<times> nat" where
  "read_digits is_digit digit base 0 s val = (val, 0)"
| "read_digits is_digit digit base (Suc n) [] val = (val, 0)"
| "read_digits is_digit digit base (Suc n) (c # s) val =
     (if is_digit (byte c)
      then (let (v, i) = read_digits is_digit digit base n s (val * base + digit (byte c)) in (v, Suc i))
      else (val, 0))"

definition simple_escapes :: "(char \<times> nat) list" where
  "simple_escapes =
     [(CHR 0x22, 0x22), (CHR 0x5C, 0x5C), (CHR ''a'', 7), (CHR ''b'', 8), (CHR ''e'', 27),
      (CHR ''f'', 12), (CHR ''n'', 10), (CHR ''r'', 13), (CHR ''t'', 9), (CHR ''v'', 11)]"

text \<open>
  The chars after a backslash: the bytes written (converted to \<open>char\<close>) and the number of chars
  read.
\<close>

definition convert_escape :: "cstr \<Rightarrow> cstr \<times> nat" where
  "convert_escape s =
     (case s of
        [] \<Rightarrow> ([], 0)
      | c # t \<Rightarrow>
          (case map_of simple_escapes c of
             Some b \<Rightarrow> ([chr b], 1)
           | None \<Rightarrow>
               if c = CHR ''0'' then
                 (let (v, i) = read_digits is_octal_digit (\<lambda>d. d - byte (CHR ''0'')) 8 3 t 0
                  in ([chr (v mod 256)], 1 + i))
               else if c = CHR ''x'' \<or> c = CHR ''X'' then
                 (if isxdigit (bat t 0)
                  then (let (v, i) = read_digits isxdigit hex2dec 16 2 t 0 in ([chr (v mod 256)], 1 + i))
                  else ([c], 1))
               else if c = CHR ''u'' \<or> c = CHR ''U'' then
                 (if isxdigit (bat t 0)
                  then (let (v, i) = read_digits isxdigit hex2dec 16 (if c = CHR ''u'' then 4 else 8) t 0
                        in (utf8_int_string (v mod 2 ^ 32), 1 + i))
                  else ([c], 1))
               else ([CHR 0x5C, c], 1)))"

function string_convert_escaped_loop :: "cstr \<Rightarrow> cstr" where
  "string_convert_escaped_loop [] = []"
| "string_convert_escaped_loop (c # s) =
     (if c = CHR 0x5C then
        (let (out, n) = convert_escape s in out @ string_convert_escaped_loop (drop n s))
      else c # string_convert_escaped_loop s)"
  by pat_completeness auto
termination
  by (relation "measure length") auto

text \<open>The bytes of the output, where an escaped char may be a NUL that ends the C string early.\<close>

definition string_convert_escaped_chars :: "cstr option \<Rightarrow> cstr option" where
  "string_convert_escaped_chars string =
     map_option (\<lambda>s. takeWhile (\<lambda>c. c \<noteq> NUL) (string_convert_escaped_loop s)) string"

subsection \<open>Masks and flags of regular expressions\<close>

definition regex_special_char :: cstr where
  "regex_special_char =
     [CHR ''.'', CHR ''['', CHR '']'', CHR ''{'', CHR ''}'', CHR ''('', CHR '')'', CHR ''?'',
      CHR ''+'', CHR 0x7C, CHR 0x5E, CHR ''$'', CHR 0x5C]"

fun string_mask_to_regex_loop :: "cstr \<Rightarrow> cstr" where
  "string_mask_to_regex_loop [] = []"
| "string_mask_to_regex_loop (c # s) =
     (if c = CHR ''*'' then ''.*'' @ string_mask_to_regex_loop s
      else if c \<in> set regex_special_char then CHR 0x5C # c # string_mask_to_regex_loop s
      else c # string_mask_to_regex_loop s)"

definition string_mask_to_regex :: "cstr option \<Rightarrow> cstr option" where
  "string_mask_to_regex pat = map_option string_mask_to_regex_loop pat"

datatype regex_flag = REG_EXTENDED | REG_ICASE | REG_NEWLINE | REG_NOSUB

definition isalpha :: "nat \<Rightarrow> bool" where
  "isalpha c \<longleftrightarrow> (65 \<le> c \<and> c \<le> 90) \<or> (97 \<le> c \<and> c \<le> 122)"

fun regex_flags_loop :: "cstr \<Rightarrow> bool \<Rightarrow> regex_flag set \<Rightarrow> regex_flag set" where
  "regex_flags_loop [] set_flag flags = flags"
| "regex_flags_loop (c # s) set_flag flags =
     (if c = CHR ''-'' then regex_flags_loop s False flags
      else let flag = map_of [(CHR ''e'', REG_EXTENDED), (CHR ''i'', REG_ICASE),
                              (CHR ''n'', REG_NEWLINE), (CHR ''s'', REG_NOSUB)] c
        in case flag of
          None \<Rightarrow> regex_flags_loop s set_flag flags
        | Some f \<Rightarrow> regex_flags_loop s set_flag (if set_flag then insert f flags else flags - {f}))"

function string_regex_flags_loop :: "cstr \<Rightarrow> regex_flag set \<Rightarrow> cstr \<times> regex_flag set" where
  "string_regex_flags_loop ptr_regex flags =
     (if take 2 ptr_regex = ''(?'' then
        let pos = dropWhile (\<lambda>c. c \<noteq> CHR '')'') ptr_regex in
        if pos = [] then (ptr_regex, flags)
        else if \<not> isalpha (bat ptr_regex 2) \<and> bat ptr_regex 2 \<noteq> byte (CHR ''-'') then (ptr_regex, flags)
        else string_regex_flags_loop (drop 1 pos)
               (regex_flags_loop (drop 2 (takeWhile (\<lambda>c. c \<noteq> CHR '')'') ptr_regex)) True flags)
      else (ptr_regex, flags))"
  by pat_completeness auto
termination
proof (relation "measure (\<lambda>(s, _). length s)", goal_cases)
  case (2 ptr_regex flags pos)
  then have "0 < length ptr_regex" by auto
  moreover have "length pos \<le> length ptr_regex" unfolding 2(2) by (rule length_dropWhile_le)
  ultimately have "length pos - 1 < length ptr_regex" by linarith
  then show ?case by simp
qed simp

declare string_regex_flags_loop.simps [simp del]

definition string_regex_flags :: "cstr option \<Rightarrow> regex_flag set \<Rightarrow> cstr option \<times> regex_flag set" where
  "string_regex_flags regex default_flags =
     (case regex of
        None \<Rightarrow> (None, default_flags)
      | Some r \<Rightarrow> map_prod Some id (string_regex_flags_loop r default_flags))"


subsection \<open>The input line\<close>

text \<open>The option \<open>weechat.look.command_chars\<close> is an argument.\<close>

fun command_char_loop :: "cstr \<Rightarrow> cstr \<Rightarrow> bool" where
  "command_char_loop [] string = False"
| "command_char_loop (c # s) string =
     (if utf8_charcmp (Some (c # s)) (Some string) = 0 then True
      else command_char_loop (utf8_skip (c # s)) string)"

definition string_is_command_char :: "cstr option \<Rightarrow> cstr option \<Rightarrow> bool" where
  "string_is_command_char command_chars string =
     (case string of
        None \<Rightarrow> False
      | Some s \<Rightarrow>
          if bat s 0 = byte (CHR ''/'') then True
          else case command_chars of
            None \<Rightarrow> False
          | Some chars \<Rightarrow> command_char_loop chars s)"

text \<open>The index of the first occurrence of a char, \<open>strchr\<close>.\<close>

definition strchr :: "cstr \<Rightarrow> char \<Rightarrow> nat option" where
  "strchr s c = (let i = length (takeWhile (\<lambda>d. d \<noteq> c) s) in if i < length s then Some i else None)"

definition string_input_for_buffer :: "cstr option \<Rightarrow> cstr option \<Rightarrow> cstr option" where
  "string_input_for_buffer command_chars string =
     (case string of
        None \<Rightarrow> None
      | Some s \<Rightarrow>
          if s = ''/'' then Some s
          else if take 2 s = ''/ '' then Some s
          else if take 2 s = ''/*'' then Some s
          else if bat s 0 = byte (CHR ''/'') then
            (let pos_slash = strchr (drop 1 s) (CHR ''/''); pos_space = strchr (drop 1 s) (CHR '' '') in
             case pos_slash of
               None \<Rightarrow> None
             | Some i \<Rightarrow>
                 if (case pos_space of None \<Rightarrow> False | Some j \<Rightarrow> i > j) then None
                 else if bat s 1 = byte (CHR ''/'') then Some (drop 1 s) else Some s)
          else if \<not> string_is_command_char command_chars (Some s) then Some s
          else let next_char = utf8_skip s in
            if s = [] \<or> next_char = [] then Some s
            else if bat next_char 0 = byte (CHR '' '') then Some s
            else if utf8_charcmp (Some s) (Some next_char) = 0 then Some next_char
            else None)"

subsection \<open>Replacement with a callback\<close>

text \<open>
  The search of the matching suffix: the text before it and its distance, the number of prefixes
  found on the way; \<open>None\<close> when there is no suffix at level 0.
\<close>

fun find_suffix :: "cstr \<Rightarrow> cstr \<Rightarrow> cstr \<Rightarrow> nat \<Rightarrow> nat \<Rightarrow> (nat \<times> nat) option" where
  "find_suffix pre suf [] level count = None"
| "find_suffix pre suf (c # s) level count =
     (let at_suffix = (take (length suf) (c # s) = suf) in
      if at_suffix \<and> level = 0 then Some (0, count)
      else let level = (if at_suffix then level - 1 else level) in
        if c = CHR 0x5C \<and> bat s 0 = bat pre 0
        then map_option (\<lambda>(d, n). (d + 2, n)) (find_suffix pre suf (drop 1 s) level count)
        else if take (length pre) (c # s) = pre
        then map_option (\<lambda>(d, n). (d + 1, n)) (find_suffix pre suf s (level + 1) (count + 1))
        else map_option (\<lambda>(d, n). (d + 1, n)) (find_suffix pre suf s level count))"

lemma find_suffix_less: "find_suffix p q s l n = Some (d, m) \<Longrightarrow> d < length s"
proof (induction p q s l n arbitrary: d m rule: find_suffix.induct)
  case (2 p q c s l n)
  show ?case
  proof (cases "take (length q) (c # s) = q \<and> l = 0")
    case False
    define l' where "l' = (if take (length q) (c # s) = q then l - 1 else l)"
    have d0: "drop 1 s = tl s" by (cases s) auto
    consider (esc) "c = CHR 0x5C \<and> bat s 0 = bat p 0"
      | (pre) "\<not> (c = CHR 0x5C \<and> bat s 0 = bat p 0)" "take (length p) (c # s) = p"
      | (std) "\<not> (c = CHR 0x5C \<and> bat s 0 = bat p 0)" "take (length p) (c # s) \<noteq> p" by blast
    then show ?thesis
    proof cases
      case esc
      then obtain e where "find_suffix p q (drop 1 s) l' n = Some (e, m)" "d = e + 2"
        using 2(4) False by (auto simp: l'_def Let_def)
      then show ?thesis using 2(1) [OF refl False l'_def esc] by fastforce
    next
      case pre
      then obtain e where "find_suffix p q s (l' + 1) (n + 1) = Some (e, m)" "d = e + 1"
        using 2(4) False by (auto simp: l'_def Let_def)
      then show ?thesis using 2(2) [OF refl False l'_def pre] by fastforce
    next
      case std
      then obtain e where "find_suffix p q s l' n = Some (e, m)" "d = e + 1"
        using 2(4) False by (auto simp: l'_def Let_def)
      then show ?thesis using 2(3) [OF refl False l'_def std] by fastforce
    qed
  qed (use 2(4) in auto)
qed simp

text \<open>
  The main loop, on the rest of the string: the text written and the number of errors.  The
  callback is a function that fails with \<open>None\<close>; the recursive call is made on the key.
\<close>

function string_replace_with_callback_loop ::
  "cstr \<Rightarrow> cstr \<Rightarrow> cstr list option \<Rightarrow> (cstr \<Rightarrow> cstr option) \<Rightarrow> cstr \<Rightarrow> cstr \<times> nat" where
  "string_replace_with_callback_loop pre suf list_prefix_no_replace callback string =
     (case string of
        [] \<Rightarrow> ([], 0)
      | c # s \<Rightarrow>
          if c = CHR 0x5C \<and> bat s 0 = bat pre 0 then
            (let (out, errors) = string_replace_with_callback_loop pre suf list_prefix_no_replace callback (drop 1 s)
             in (take 1 s @ out, errors))
          else if take (length pre) string = pre then
            (case find_suffix pre suf (drop (length pre) string) 0 0 of
               None \<Rightarrow> ([], 1)
             | Some (d, sub_count) \<Rightarrow> let
                 key = take d (drop (length pre) string);
                 replace = (sub_count > 0 \<and>
                   (case list_prefix_no_replace of
                      None \<Rightarrow> True
                    | Some l \<Rightarrow> \<not> (\<exists>p \<in> set l. take (length p) key = p)));
                 (key, sub_errors) = (if replace
                   then string_replace_with_callback_loop pre suf list_prefix_no_replace callback key
                   else (key, 0))
               in
                 (case callback key of
                    Some val \<Rightarrow> let
                      (out, errors) = string_replace_with_callback_loop pre suf list_prefix_no_replace callback
                        (drop (length pre + d + length suf - 1) s)
                      in (val @ out, sub_errors + errors)
                  | None \<Rightarrow> let
                      (out, errors) = string_replace_with_callback_loop pre suf list_prefix_no_replace callback s
                      in (c # out, sub_errors + 1 + errors)))
          else let
            (out, errors) = string_replace_with_callback_loop pre suf list_prefix_no_replace callback s
            in (c # out, errors))"
  by pat_completeness auto
termination
  by (relation "measure (\<lambda>(_, _, _, _, s). length s)") (auto simp: min_def dest: find_suffix_less)

declare string_replace_with_callback_loop.simps [simp del]

definition string_replace_with_callback ::
  "cstr option \<Rightarrow> cstr option \<Rightarrow> cstr option \<Rightarrow> cstr list option \<Rightarrow> (cstr \<Rightarrow> cstr option) option
    \<Rightarrow> cstr option \<times> nat" where
  "string_replace_with_callback string pre suf list_prefix_no_replace callback =
     (case (string, pre, suf, callback) of
        (Some s, Some p, Some q, Some cb) \<Rightarrow>
          if p = [] \<or> q = [] then (None, 0)
          else map_prod Some id (string_replace_with_callback_loop p q list_prefix_no_replace cb s)
      | _ \<Rightarrow> (None, 0))"

subsection \<open>Word chars and highlights\<close>

text \<open>
  An item of the options \<open>weechat.look.word_chars_*\<close>; the class of a wide char is the C
  library's \<open>iswctype\<close>, an argument.
\<close>

record 'w word_char_item =
  wc_exclude :: bool
  wc_class :: "'w option"
  wc_char1 :: nat
  wc_char2 :: nat

fun string_is_word_char_loop :: "(nat \<Rightarrow> 'w \<Rightarrow> bool) \<Rightarrow> nat \<Rightarrow> 'w word_char_item list \<Rightarrow> bool" where
  "string_is_word_char_loop iswctype c [] = False"
| "string_is_word_char_loop iswctype c (item # items) =
     (let match = (case wc_class item of
            Some cl \<Rightarrow> iswctype c cl
          | None \<Rightarrow>
              if wc_char1 item = 0 \<and> wc_char2 item = 0 then True
              else wc_char1 item \<le> c \<and> c \<le> wc_char2 item)
      in if match then \<not> wc_exclude item else string_is_word_char_loop iswctype c items)"

definition string_is_word_char :: "(nat \<Rightarrow> 'w \<Rightarrow> bool) \<Rightarrow> cstr option \<Rightarrow> 'w word_char_item list \<Rightarrow> bool" where
  "string_is_word_char iswctype string word_chars =
     (let c = utf8_wide_char string in
      if c = WEOF then False else string_is_word_char_loop iswctype c word_chars)"

text \<open>
  The search of one word; \<open>is_word\<close> tells whether the char at the start of a string is a word char.
  The position is an index in the message; the word is never empty.
\<close>

function has_highlight_search ::
  "(cstr \<Rightarrow> bool) \<Rightarrow> cstr \<Rightarrow> bool \<Rightarrow> cstr \<Rightarrow> bool \<Rightarrow> bool \<Rightarrow> nat \<Rightarrow> bool" where
  "has_highlight_search is_word msg icase word wildcard_start wildcard_end msg_pos =
     (if word = [] \<or> length msg < msg_pos then False
      else case (if icase then string_strcasestr (Some (drop msg_pos msg)) (Some word)
                 else strstr (drop msg_pos msg) word) of
        None \<Rightarrow> False
      | Some m \<Rightarrow> let
          match = length msg - length m;
          match_pre = (case utf8_prev_char msg (Some match) of Some p \<Rightarrow> p | None \<Rightarrow> match - 1);
          match_post = match + length word;
          startswith = (match = 0 \<or> \<not> is_word (drop match_pre msg));
          endswith = (bat msg match_post = 0 \<or> \<not> is_word (drop match_post msg))
        in
          if (wildcard_start \<and> wildcard_end)
             \<or> (\<not> wildcard_start \<and> \<not> wildcard_end \<and> startswith \<and> endswith)
             \<or> (wildcard_start \<and> endswith) \<or> (wildcard_end \<and> startswith)
          then True
          else has_highlight_search is_word msg icase word wildcard_start wildcard_end match_post)"
  by pat_completeness auto
termination
proof (relation "measure (\<lambda>(_, msg, _, _, _, _, p). Suc (length msg) - p)", simp, goal_cases)
  case (1 is_word msg icase word ws we msg_pos m match match_pre match_post sw ew)
  have "suffix m (drop msg_pos msg)"
    using 1(2) strstr_suffix string_strcasestr_loop_suffix
    by (auto simp: string_strcasestr_def Let_def split: if_splits)
  then have "length m \<le> length msg - msg_pos" using suffix_length_le by fastforce
  then show ?case using 1 by (cases word) auto
qed

declare has_highlight_search.simps [simp del]

text \<open>The words of the list; a position in the list is the rest of it.\<close>

function string_has_highlight_loop :: "(cstr \<Rightarrow> bool) \<Rightarrow> cstr \<Rightarrow> cstr \<Rightarrow> bool" where
  "string_has_highlight_loop is_word msg pos =
     (let (pos, flags) = string_regex_flags_loop pos {REG_ICASE};
          word = takeWhile (\<lambda>c. c \<noteq> CHR '','') pos;
          rest = dropWhile (\<lambda>c. c \<noteq> CHR '','') pos;
          wildcard_start = (word \<noteq> [] \<and> hd word = CHR ''*'');
          wildcard_end = (word \<noteq> [] \<and> last word = CHR ''*'');
          word = (if wildcard_start then tl word else word);
          word = (if wildcard_end then butlast word else word)
      in
        if word \<noteq> [] \<and> has_highlight_search is_word msg (REG_ICASE \<in> flags) word wildcard_start wildcard_end 0
        then True
        else case rest of [] \<Rightarrow> False | _ # rest' \<Rightarrow> string_has_highlight_loop is_word msg rest')"
  by pat_completeness auto
termination
proof (relation "measure (\<lambda>(_, _, p). length p)", simp, goal_cases)
  case (1 is_word msg pos x p flags word rest ws we w1 w2 c rest')
  have le: "length (fst (string_regex_flags_loop s fl)) \<le> length s" for s fl
  proof (induction s fl rule: string_regex_flags_loop.induct)
    case (1 s fl)
    then show ?case
      using length_dropWhile_le [of "\<lambda>c. c \<noteq> CHR '')''" s]
      by (subst string_regex_flags_loop.simps) (auto simp: Let_def)
  qed
  have "p = fst (string_regex_flags_loop pos {REG_ICASE})" using 1(1,2) by (metis fst_conv)
  then have "length p \<le> length pos" using le by simp
  moreover have "length rest \<le> length p" unfolding 1(4) by (rule length_dropWhile_le)
  moreover have "rest = c # rest'" by (rule 1(10))
  ultimately have "length rest' < length pos" by simp
  then show ?case by simp
qed

declare string_has_highlight_loop.simps [simp del]

definition string_has_highlight :: "(cstr \<Rightarrow> bool) \<Rightarrow> cstr option \<Rightarrow> cstr option \<Rightarrow> bool" where
  "string_has_highlight is_word string highlight_words =
     (case (string, highlight_words) of
        (Some s, Some w) \<Rightarrow> s \<noteq> [] \<and> w \<noteq> [] \<and> string_has_highlight_loop is_word s w
      | _ \<Rightarrow> False)"

subsection \<open>Reversal\<close>

lemma string_reverse_loop_chars:
  "string_reverse_loop s r = concat (rev (utf8_chars s)) @ r"
proof (induction s r rule: string_reverse_loop.induct)
  case (1 s r)
  show ?case
  proof (cases s)
    case (Cons c t)
    then show ?thesis using 1 by (subst string_reverse_loop.simps) (simp add: Let_def utf8_skip_def)
  qed (simp add: string_reverse_loop.simps)
qed

lemma utf8_chars_encoded:
  "list_all utf8_scalar vs \<Longrightarrow> utf8_chars (concat (map utf8_int_string vs)) = map utf8_int_string vs"
proof (induction vs)
  case (Cons v vs)
  let ?t = "concat (map utf8_int_string vs)"
  have v: "0 < v" "v \<le> 0x1FFFFF" "utf8_int_string v \<noteq> []"
    using Cons.prems utf8_int_string_nonempty [of v] by (auto simp: utf8_scalar_def)
  then obtain c s where cs: "utf8_int_string v @ ?t = c # s" by (cases "utf8_int_string v") auto
  have "utf8_chars (utf8_int_string v @ ?t) = utf8_int_string v # utf8_chars ?t"
    using utf8_char_size_int_string [OF v(1,2), of ?t] unfolding cs
    by (simp add: utf8_skip_def) (simp add: cs [symmetric])
  then show ?case using Cons by simp
qed simp

text \<open>
  \<open>string_reverse\<close> reverses the order of the chars of a valid string without breaking
  them: the result is valid, and reversing it again gives the string back.
\<close>

theorem string_reverse_involution:
  assumes "utf8_text s"
  shows "\<exists>r. string_reverse (Some s) = Some r \<and> utf8_text r \<and>
    utf8_chars r = rev (utf8_chars s) \<and> string_reverse (Some r) = Some s"
proof -
  obtain vs where vs: "list_all utf8_scalar vs" "s = concat (map utf8_int_string vs)"
    using assms by (auto simp: utf8_text_def)
  let ?r = "concat (map utf8_int_string (rev vs))"
  have rv: "list_all utf8_scalar (rev vs)" using vs(1) by (simp add: list_all_iff)
  have r: "string_reverse (Some t) = Some (concat (rev (utf8_chars t)))" for t
    by (simp add: string_reverse_def string_reverse_loop_chars)
  have cs: "utf8_chars s = map utf8_int_string vs" "utf8_chars ?r = map utf8_int_string (rev vs)"
    using utf8_chars_encoded [OF vs(1)] utf8_chars_encoded [OF rv] vs(2) by simp_all
  have "string_reverse (Some s) = Some ?r" unfolding r cs by (simp add: rev_map)
  moreover have "string_reverse (Some ?r) = Some s" unfolding r cs by (simp add: vs(2) rev_map [symmetric])
  moreover have "utf8_text ?r" unfolding utf8_text_def using rv by blast
  ultimately show ?thesis using cs by (auto simp: rev_map)
qed

theorem string_reverse_involution_witness:
  "\<exists>r. string_reverse (Some (utf8_int_string 0x20AC @ [])) = Some r \<and> utf8_text r \<and>
    utf8_chars r = rev (utf8_chars (utf8_int_string 0x20AC @ [])) \<and>
    string_reverse (Some r) = Some (utf8_int_string 0x20AC @ [])"
  by (rule string_reverse_involution) (rule utf8_text_Cons [OF _ utf8_text_Nil], simp add: utf8_scalar_def)

subsection \<open>Replacement\<close>

text \<open>The specification: the occurrences are replaced from left to right, without overlap.\<close>

function replace_all :: "cstr \<Rightarrow> cstr \<Rightarrow> cstr \<Rightarrow> cstr" where
  "replace_all search replace s =
     (if s = [] \<or> search = [] then s
      else if take (length search) s = search
      then replace @ replace_all search replace (drop (length search) s)
      else hd s # replace_all search replace (tl s))"
  by pat_completeness auto
termination
  by (relation "measure (\<lambda>(_, _, s). length s)") auto

function count_all :: "cstr \<Rightarrow> cstr \<Rightarrow> nat" where
  "count_all search s =
     (if s = [] \<or> search = [] then 0
      else if take (length search) s = search then Suc (count_all search (drop (length search) s))
      else count_all search (tl s))"
  by pat_completeness auto
termination
  by (relation "measure (\<lambda>(_, s). length s)") auto

declare replace_all.simps [simp del] count_all.simps [simp del]

lemma strstr_all:
  assumes "search \<noteq> []"
  shows "case strstr s search of
      None \<Rightarrow> replace_all search r s = s \<and> count_all search s = 0
    | Some p \<Rightarrow> s = take (length s - length p) s @ p \<and> length p \<le> length s \<and> take (length search) p = search \<and>
        replace_all search r s = take (length s - length p) s @ r @ replace_all search r (drop (length search) p) \<and>
        count_all search s = Suc (count_all search (drop (length search) p))"
proof (induction s)
  case (Cons c s)
  show ?case
  proof (cases "take (length search) (c # s) = search")
    case True
    then show ?thesis using assms
      by (simp add: replace_all.simps [of search r "c # s"] count_all.simps [of search "c # s"])
  next
    case False
    then show ?thesis using Cons assms
      by (auto simp: replace_all.simps [of search r "c # s"] count_all.simps [of search "c # s"]
          Suc_diff_le split: option.splits)
  qed
qed (use assms in \<open>simp add: replace_all.simps count_all.simps\<close>)

lemma string_replace_count_all:
  assumes "search \<noteq> []"
  shows "string_replace_count s search n = Some (n + count_all search s)"
proof (induction "length s" arbitrary: s n rule: less_induct)
  case less
  show ?case
  proof (cases "s = []")
    case True
    then show ?thesis by (subst string_replace_count.simps) (simp add: count_all.simps)
  next
    case False
    then show ?thesis
    proof (cases "strstr s search")
      case None
      then show ?thesis using strstr_all [OF assms, where s = s] False by (subst string_replace_count.simps) simp
    next
      case (Some p)
      then have p: "length p \<le> length s" "take (length search) p = search"
        "count_all search s = Suc (count_all search (drop (length search) p))"
        using strstr_all [OF assms, where s = s] by auto
      then have "length (drop (length search) p) < length s"
        using assms by (cases p; cases search) auto
      from less [OF this, of "n + 1"] show ?thesis
        using Some False p(3) by (subst string_replace_count.simps) simp
    qed
  qed
qed

lemma string_replace_loop_all:
  assumes "search \<noteq> []"
  shows "string_replace_loop s search r = Some (replace_all search r s)"
proof (induction "length s" arbitrary: s rule: less_induct)
  case less
  show ?case
  proof (cases "s = []")
    case True
    then show ?thesis by (subst string_replace_loop.simps) (simp add: replace_all.simps)
  next
    case False
    then show ?thesis
    proof (cases "strstr s search")
      case None
      then have e: "replace_all search r s = s" using strstr_all [OF assms, where s = s and r = r] by simp
      show ?thesis unfolding e using None False by (subst string_replace_loop.simps) simp
    next
      case (Some p)
      then have p: "length p \<le> length s" "take (length search) p = search"
        "replace_all search r s = take (length s - length p) s @ r @ replace_all search r (drop (length search) p)"
        using strstr_all [OF assms, where s = s and r = r] by auto
      then have "length (drop (length search) p) < length s"
        using assms by (cases p; cases search) auto
      from less [OF this] show ?thesis
        using Some False p(3) by (subst string_replace_loop.simps) simp
    qed
  qed
qed

lemma count_all_0: "count_all search s = 0 \<Longrightarrow> replace_all search r s = s"
proof (induction search s rule: count_all.induct)
  case (1 search s)
  show ?case
  proof (cases "s = [] \<or> search = []")
    case True
    then show ?thesis by (subst replace_all.simps) simp
  next
    case False
    then have t: "take (length search) s \<noteq> search" "count_all search (tl s) = 0"
      using 1(3) by (simp_all add: count_all.simps [of search s] split: if_splits)
    then have "replace_all search r (tl s) = tl s" using 1(2) False by simp
    then show ?thesis using False t(1) by (subst replace_all.simps) simp
  qed
qed

lemma length_replace_all:
  "length (replace_all search r s) + count_all search s * length search
    = length s + count_all search s * length r"
proof (induction search r s rule: replace_all.induct)
  case (1 search r s)
  show ?case
  proof (cases "s = [] \<or> search = []")
    case True
    then show ?thesis by (simp add: replace_all.simps [of search] count_all.simps [of search])
  next
    case False
    show ?thesis
    proof (cases "take (length search) s = search")
      case True
      then have "length search \<le> length s" by (metis length_take min.cobounded1)
      then show ?thesis using 1(1) False True
        by (simp add: replace_all.simps [of search r s] count_all.simps [of search s])
    next
      case nt: False
      then show ?thesis using 1(2) False
        by (cases s) (simp_all add: replace_all.simps [of search r "_ # _"] count_all.simps [of search "_ # _"])
    qed
  qed
qed

lemma string_replace_count_empty: "string_replace_count s [] n = Some m \<Longrightarrow> s = []"
proof -
  have "q = [] \<longrightarrow> s = []" if "string_replace_count s q n = Some m" for q
    using that
  proof (rule string_replace_count.raw_induct [of "\<lambda>s q n m. q = [] \<longrightarrow> s = []", rotated], intro impI)
    fix f :: "cstr \<Rightarrow> cstr \<Rightarrow> nat \<Rightarrow> nat option" and s q :: cstr and n m :: nat
    assume IH: "\<And>s q n m. f s q n = Some m \<Longrightarrow> q = [] \<longrightarrow> s = []" and q: "q = []"
      and f: "(if s = [] then Some n else case strstr s q of None \<Rightarrow> Some n
        | Some p \<Rightarrow> f (drop (length q) p) q (n + 1)) = Some m"
    show "s = []"
    proof (rule ccontr)
      assume s: "s \<noteq> []"
      then have "strstr s q = Some s" using q by (cases s) auto
      with f s q have "f s [] (n + 1) = Some m" by simp
      from IH [OF this] s show False by simp
    qed
  qed
  then show "string_replace_count s [] n = Some m \<Longrightarrow> s = []" by blast
qed

text \<open>
  Claim C16.  \<open>string_replace\<close> replaces every occurrence of a string that is not empty, from left
  to right, in a buffer of exactly the size it needs; with an empty searched string and a string
  that is not empty it never returns.
\<close>

theorem string_replace_correct:
  "(search \<noteq> [] \<longrightarrow> string_replace (Some s) (Some search) (Some r)
      = Some (Some (replace_all search r s), length (replace_all search r s) + 1)) \<and>
   (s \<noteq> [] \<longrightarrow> string_replace (Some s) (Some []) (Some r) = None)"
proof (intro conjI impI)
  assume q: "search \<noteq> []"
  have "length s - count_all search s * length search + count_all search s * length r
      = length (replace_all search r s)"
  proof -
    have "count_all search s * length search \<le> length s"
      using length_replace_all [of search "[]" s] by simp
    then show ?thesis using length_replace_all [of search r s] by linarith
  qed
  then show "string_replace (Some s) (Some search) (Some r)
      = Some (Some (replace_all search r s), length (replace_all search r s) + 1)"
    using count_all_0 [of search s r]
    by (simp add: string_replace_def string_replace_count_all [OF q] string_replace_loop_all [OF q])
next
  assume "s \<noteq> []"
  then have "string_replace_count s [] 0 = None"
    using string_replace_count_empty [of s 0] by (cases "string_replace_count s [] 0") auto
  then show "string_replace (Some s) (Some []) (Some r) = None" by (simp add: string_replace_def)
qed

theorem string_replace_correct_witness:
  "string_replace (Some ''abcab'') (Some ''ab'') (Some ''x'')
    = Some (Some (replace_all ''ab'' ''x'' ''abcab''), length (replace_all ''ab'' ''x'' ''abcab'') + 1) \<and>
   string_replace (Some ''abc'') (Some []) (Some ''x'') = None"
  using string_replace_correct [of "''ab''" "''abcab''" "''x''"] string_replace_correct [of "''ab''" "''abc''" "''x''"]
  by simp


subsection \<open>Masks as regular expressions\<close>

text \<open>
  The part of the POSIX extended regular expressions that the function writes: \<open>.*\<close> is any string,
  an escaped char and a char that is not special are themselves.  \<open>ere_special\<close> holds the chars that POSIX
  calls special outside brackets, whatever the code escapes; a special char that is left unescaped, and an escape of
  an ordinary char other than a closing bracket, match nothing here.
\<close>

definition ere_special :: "char set" where
  "ere_special = set ''.[()*+?{|$'' \<union> {CHR 0x5C, CHR 0x5E}"

fun regex_matches :: "cstr \<Rightarrow> cstr \<Rightarrow> bool" where
  "regex_matches [] s = (s = [])"
| "regex_matches (c # r) s =
     (if c = CHR ''.'' then
        (case r of
           d # r' \<Rightarrow> d = CHR ''*'' \<and>
             (regex_matches r' s \<or> (case s of [] \<Rightarrow> False | _ # s' \<Rightarrow> regex_matches (c # r) s'))
         | [] \<Rightarrow> False)
      else if c = CHR 0x5C then
        (case (r, s) of
           (d # r', e # s') \<Rightarrow> (d \<in> ere_special \<or> d = CHR '']'' \<or> d = CHR ''}'') \<and> d = e \<and> regex_matches r' s'
         | _ \<Rightarrow> False)
      else if c \<in> ere_special then False
      else (case s of [] \<Rightarrow> False | e # s' \<Rightarrow> c = e \<and> regex_matches r s'))"

text \<open>
  Claim C17.  The regular expression written by \<open>string_mask_to_regex\<close> matches exactly the strings
  that the mask stands for, and fits in the buffer of twice the size of the mask.
\<close>

theorem string_mask_to_regex_glob:
  "(\<exists>r. string_mask_to_regex (Some m) = Some r \<and> (regex_matches r s \<longleftrightarrow> glob m s) \<and>
     length r \<le> 2 * length m)"
proof -
  have g: "regex_matches (string_mask_to_regex_loop m) s \<longleftrightarrow> glob m s"
  proof (induction m s rule: glob.induct)
    case (2 c m s)
    then show ?case
      by (cases s) (auto simp: regex_special_char_def ere_special_def)
  qed simp
  have "length (string_mask_to_regex_loop m) \<le> 2 * length m"
    by (induction m) auto
  with g show ?thesis by (simp add: string_mask_to_regex_def)
qed

subsection \<open>Escaped chars\<close>

lemma read_digits_le: "snd (read_digits is_digit digit base n s v) \<le> min n (length s)"
  by (induction is_digit digit base n s v rule: read_digits.induct)
    (auto split: prod.split simp: Let_def)

lemma length_utf8_int_string:
  "length (utf8_int_string v) \<le> (if v < 0x80 then 1 else if v < 0x800 then 2 else if v < 0x10000 then 3 else 4)"
  by (simp add: utf8_int_string_def)

lemma isxdigit_hex2dec: "isxdigit c \<Longrightarrow> hex2dec c < 16"
  by (auto simp: isxdigit_def hex2dec_def)

lemma read_hex_bound:
  "fst (read_digits isxdigit hex2dec 16 n s v) < (v + 1) * 16 ^ snd (read_digits isxdigit hex2dec 16 n s v)"
proof (induction isxdigit hex2dec "16::nat" n s v rule: read_digits.induct)
  case (3 n c s v)
  show ?case
  proof (cases "isxdigit (byte c)")
    case True
    let ?r = "read_digits isxdigit hex2dec 16 n s (v * 16 + hex2dec (byte c))"
    have "fst ?r < (v * 16 + hex2dec (byte c) + 1) * 16 ^ snd ?r" using 3 True by simp
    also have "\<dots> \<le> (v + 1) * 16 * 16 ^ snd ?r"
      using isxdigit_hex2dec [OF True] by (intro mult_right_mono) simp_all
    finally show ?thesis using True by (simp add: case_prod_unfold Let_def algebra_simps)
  qed simp
qed simp_all

text \<open>A char written in UTF-8 never takes more bytes than its escape sequence.\<close>

lemma length_convert_escape:
  assumes "s \<noteq> []"
  shows "0 < snd (convert_escape s) \<and> snd (convert_escape s) \<le> length s \<and>
    length (fst (convert_escape s)) \<le> 1 + snd (convert_escape s)"
proof -
  obtain c t where s: "s = c # t" using assms by (cases s) auto
  have d: "i \<le> length t" if "read_digits is_digit digit base n t 0 = (v, i)" for is_digit digit base n v i
    using read_digits_le [of is_digit digit base n t 0] that by simp
  have u: "i \<le> length t \<and> length (utf8_int_string (v mod 2 ^ 32)) \<le> 2 + i"
    if r: "read_digits isxdigit hex2dec 16 n t 0 = (v, i)" for v i n
  proof -
    have v: "v < 16 ^ i" using read_hex_bound [of n t 0] by (simp add: r)
    have w: "v mod 2 ^ 32 < 16 ^ i" by (rule le_less_trans [OF mod_less_eq_dividend v])
    have "length (utf8_int_string (v mod 2 ^ 32)) \<le> 2 + i"
    proof (cases "i < 2")
      case True
      then have "i = 0 \<or> i = 1" by auto
      then have "v mod 2 ^ 32 < 0x80" using w by auto
      then show ?thesis using length_utf8_int_string [of "v mod 2 ^ 32"] by simp
    next
      case False
      have "length (utf8_int_string (v mod 2 ^ 32)) \<le> 4"
        using length_utf8_int_string [of "v mod 2 ^ 32"] by (simp split: if_splits)
      with False show ?thesis by linarith
    qed
    with d [OF r] show ?thesis by blast
  qed
  show ?thesis
  proof (cases "map_of simple_escapes c")
    case (Some b)
    then show ?thesis by (simp add: s convert_escape_def)
  next
    case None
    consider (oct) "c = CHR ''0''" | (hex) "c \<noteq> CHR ''0''" "c = CHR ''x'' \<or> c = CHR ''X''"
      | (uni) "c \<noteq> CHR ''0''" "\<not> (c = CHR ''x'' \<or> c = CHR ''X'')" "c = CHR ''u'' \<or> c = CHR ''U''"
      | (other) "c \<noteq> CHR ''0''" "\<not> (c = CHR ''x'' \<or> c = CHR ''X'')" "\<not> (c = CHR ''u'' \<or> c = CHR ''U'')" by blast
    then show ?thesis
    proof cases
      case oct
      obtain v i where r: "read_digits is_octal_digit (\<lambda>d. d - byte (CHR ''0'')) 8 3 t 0 = (v, i)" by (metis surj_pair)
      have "convert_escape s = ([chr (v mod 256)], 1 + i)"
        unfolding s convert_escape_def list.case None option.case if_P [OF oct] r prod.case Let_def ..
      then show ?thesis using d [OF r] by (simp add: s)
    next
      case hex
      obtain v i where r: "read_digits isxdigit hex2dec 16 2 t 0 = (v, i)" by (metis surj_pair)
      have "convert_escape s = (if isxdigit (bat t 0) then ([chr (v mod 256)], 1 + i) else ([c], 1))"
        unfolding s convert_escape_def list.case None option.case if_not_P [OF hex(1)] if_P [OF hex(2)] r prod.case Let_def ..
      then show ?thesis using d [OF r] by (simp add: s)
    next
      case uni
      obtain v i where r: "read_digits isxdigit hex2dec 16 (if c = CHR ''u'' then 4 else 8) t 0 = (v, i)" by (metis surj_pair)
      have "convert_escape s = (if isxdigit (bat t 0) then (utf8_int_string (v mod 2 ^ 32), 1 + i) else ([c], 1))"
        unfolding s convert_escape_def list.case None option.case if_not_P [OF uni(1)] if_not_P [OF uni(2)]
          if_P [OF uni(3)] r prod.case Let_def ..
      then show ?thesis using u [OF r] by (simp add: s)
    next
      case other
      have "convert_escape s = ([CHR 0x5C, c], 1)"
        unfolding s convert_escape_def list.case None option.case if_not_P [OF other(1)] if_not_P [OF other(2)]
          if_not_P [OF other(3)] ..
      then show ?thesis by (simp add: s)
    qed
  qed
qed

lemma length_convert_escaped: "length (string_convert_escaped_loop s) \<le> length s"
proof (induction s rule: string_convert_escaped_loop.induct)
  case (2 c s)
  show ?case
  proof (cases "c = CHR 0x5C")
    case True
    obtain out n where e: "convert_escape s = (out, n)" by (metis surj_pair)
    have IH: "length (string_convert_escaped_loop (drop n s)) \<le> length s - n" using 2 True e by simp
    show ?thesis
    proof (cases s)
      case Nil
      then show ?thesis using True by (simp add: convert_escape_def)
    next
      case (Cons d t)
      then have "n \<le> length s" "length out \<le> 1 + n" using length_convert_escape [of s] e by simp_all
      then have "length (out @ string_convert_escaped_loop (drop n s)) \<le> Suc (length s)"
        using IH by simp
      then show ?thesis using True e by simp
    qed
  qed (use 2 in simp)
qed simp

lemma convert_escaped_plain: "CHR 0x5C \<notin> set s \<Longrightarrow> string_convert_escaped_loop s = s"
  by (induction s) auto

text \<open>
  \<open>string_convert_escaped_chars\<close> never writes beyond its buffer, which has the size of
  the string, and leaves a string without backslash as it is.
\<close>

theorem string_convert_escaped_fits:
  "length (string_convert_escaped_loop s) \<le> length s \<and>
   (cstr_ok s \<and> CHR 0x5C \<notin> set s \<longrightarrow> string_convert_escaped_chars (Some s) = Some s)"
proof (intro conjI impI)
  assume "cstr_ok s \<and> CHR 0x5C \<notin> set s"
  then have "takeWhile (\<lambda>c. c \<noteq> NUL) s = s" and "CHR 0x5C \<notin> set s"
    by (auto simp: cstr_ok_def intro!: takeWhile_eq_all_conv [THEN iffD2])
  then show "string_convert_escaped_chars (Some s) = Some s"
    by (simp add: string_convert_escaped_chars_def convert_escaped_plain)
qed (rule length_convert_escaped)

theorem string_convert_escaped_fits_witness:
  "length (string_convert_escaped_loop ''ab'') \<le> 2 \<and> string_convert_escaped_chars (Some ''ab'') = Some ''ab''"
  using string_convert_escaped_fits [of "''ab''"] by simp

subsection \<open>Strip\<close>

lemma strip_right_rev:
  "e \<le> length s \<Longrightarrow> p \<le> e \<Longrightarrow>
    strip_right s p e ch = p + length (dropWhile (\<lambda>c. c \<in> set ch) (rev (drop p (take e s)))) \<or>
    (strip_right s p e ch \<le> p \<and> dropWhile (\<lambda>c. c \<in> set ch) (rev (drop p (take e s))) = [])"
proof (induction e)
  case (Suc e)
  show ?case
  proof (cases "p = Suc e")
    case True
    then show ?thesis by simp
  next
    case False
    then have p: "p \<le> e" using Suc.prems by simp
    have "rev (drop p (take (Suc e) s)) = s ! e # rev (drop p (take e s))"
      using Suc.prems p by (simp add: take_Suc_conv_app_nth)
    then show ?thesis using Suc.IH Suc.prems p by auto
  qed
qed auto

definition strip_left_spec :: "bool \<Rightarrow> cstr \<Rightarrow> cstr \<Rightarrow> cstr" where
  "strip_left_spec l ch t = (if l then dropWhile (\<lambda>c. c \<in> set ch) t else t)"

lemma rev_dropWhile_take: "rev (dropWhile P (rev t)) = take (length (dropWhile P (rev t))) t"
  by (simp add: dropWhile_eq_drop rev_drop)

text \<open>
  \<open>string_strip\<close> removes exactly the longest run of the chars at each end asked for.
\<close>

theorem string_strip_spec:
  assumes "cstr_ok s"
  shows "string_strip (Some s) l r (Some ch) =
    Some (if r then rev (dropWhile (\<lambda>c. c \<in> set ch) (rev (strip_left_spec l ch s))) else strip_left_spec l ch s)"
proof (cases "s = []")
  case False
  let ?P = "\<lambda>c. c \<in> set ch"
  define p where "p = (if l then length (takeWhile ?P s) else 0)"
  define t where "t = strip_left_spec l ch s"
  have t: "t = drop p s" by (simp add: t_def p_def strip_left_spec_def dropWhile_eq_drop)
  have p: "p \<le> length s" by (simp add: p_def length_takeWhile_le)
  have bat: "bat s p = 0 \<longleftrightarrow> t = []" using bat_0_iff [OF assms, of p] by (simp add: t)
  define e where "e = (if r then strip_right s p (length s) ch else length s)"
  have unf: "string_strip (Some s) l r (Some ch) =
      (if l \<and> t = [] then Some [] else if r \<and> e \<le> p then Some []
       else string_strndup (Some t) (int e - int p))"
    using False bat by (simp add: string_strip_def p_def [symmetric] e_def t Let_def)
  show ?thesis
  proof (cases r)
    case True
    let ?D = "dropWhile ?P (rev t)"
    have e: "e = p + length ?D \<or> (e \<le> p \<and> ?D = [])"
      using strip_right_rev [of "length s" s p ch] p True by (simp add: e_def t)
    have le: "length ?D \<le> length t" using length_dropWhile_le [of ?P "rev t"] by simp
    show ?thesis
    proof (cases "e \<le> p")
      case True
      then have "?D = []" using e by auto
      then show ?thesis using True \<open>r\<close> unf by (simp add: t_def)
    next
      case ep: False
      then have ne: "t \<noteq> []" using e le by auto
      have "string_strndup (Some t) (int e - int p) = Some (take (length ?D) t)"
        using e ep le by (auto simp: string_strndup_def)
      then show ?thesis using ep \<open>r\<close> unf ne by (simp add: rev_dropWhile_take t_def [symmetric])
    qed
  next
    case False
    have "int (length s) - int p = int (length t)" using p by (simp add: t)
    then have "string_strndup (Some t) (int (length s) - int p) = Some t" by (simp add: string_strndup_def)
    then show ?thesis using unf False by (auto simp: e_def t_def [symmetric])
  qed
qed (simp add: string_strip_def strip_left_spec_def)

theorem string_strip_spec_witness:
  "string_strip (Some ''  a b '') True True (Some '' '') =
    Some (if True then rev (dropWhile (\<lambda>c. c \<in> set '' '') (rev (strip_left_spec True '' '' ''  a b '')))
      else strip_left_spec True '' '' ''  a b '')"
  by (rule string_strip_spec) simp


subsection \<open>Variables replaced by a callback\<close>

lemma find_suffix_key:
  assumes "p \<noteq> []" "q \<noteq> []" "hd p \<notin> set key" "hd q \<notin> set key" "CHR 0x5C \<notin> set key"
  shows "find_suffix p q (key @ q @ b) 0 0 = Some (length key, 0)"
  using assms(3-5)
proof (induction key)
  case Nil
  then show ?case using assms(2) by (cases q) simp_all
next
  case (Cons c key)
  have "take (length q) (c # key @ q @ b) \<noteq> q" using assms(2) Cons.prems by (cases q) auto
  moreover have "take (length p) (c # key @ q @ b) \<noteq> p" using assms(1) Cons.prems by (cases p) auto
  moreover have "c \<noteq> CHR 0x5C" using Cons.prems by auto
  ultimately show ?case using Cons by (simp add: Let_def)
qed

lemma callback_plain:
  assumes "p \<noteq> []" "hd p \<notin> set a" "CHR 0x5C \<notin> set a"
  shows "string_replace_with_callback_loop p q l cb (a @ b) =
    map_prod ((@) a) id (string_replace_with_callback_loop p q l cb b)"
  using assms(2,3)
proof (induction a)
  case (Cons c a)
  have "take (length p) (c # a @ b) \<noteq> p" using assms(1) Cons.prems by (cases p) auto
  moreover have "c \<noteq> CHR 0x5C" using Cons.prems by auto
  ultimately show ?case using Cons
    by (subst string_replace_with_callback_loop.simps) (simp add: case_prod_unfold map_prod_def)
qed (simp add: map_prod_def)

lemma callback_variable:
  assumes "p \<noteq> []" "q \<noteq> []" "hd p \<noteq> CHR 0x5C"
    and key: "hd p \<notin> set key" "hd q \<notin> set key" "CHR 0x5C \<notin> set key" "cb key = Some val"
  shows "string_replace_with_callback_loop p q l cb (p @ key @ q @ b) =
    map_prod ((@) val) id (string_replace_with_callback_loop p q l cb b)"
proof -
  obtain c p' where p: "p = c # p'" using assms(1) by (cases p) auto
  have f: "find_suffix p q (key @ q @ b) 0 0 = Some (length key, 0)"
    using find_suffix_key [OF assms(1,2) key(1-3)] .
  show ?thesis
    using assms(3) f key(4) unfolding p
    by (subst string_replace_with_callback_loop.simps) (simp add: case_prod_unfold map_prod_def Let_def)
qed

text \<open>
  Claim C18.  \<open>string_replace_with_callback\<close> copies text without prefix and replaces a variable
  by the value of the callback, then goes on after its suffix; text that has no variable comes
  back as it is, without error.
\<close>

theorem string_replace_with_callback_variable:
  assumes "p \<noteq> []" "q \<noteq> []" "hd p \<noteq> CHR 0x5C" "hd p \<notin> set a" "CHR 0x5C \<notin> set a"
    and "hd p \<notin> set key" "hd q \<notin> set key" "CHR 0x5C \<notin> set key" "cb key = Some val"
  shows "string_replace_with_callback (Some a) (Some p) (Some q) l (Some cb) = (Some a, 0) \<and>
    string_replace_with_callback (Some (a @ p @ key @ q @ b)) (Some p) (Some q) l (Some cb) =
      (let (r, errors) = string_replace_with_callback (Some b) (Some p) (Some q) l (Some cb)
       in (map_option (\<lambda>r. a @ val @ r) r, errors))"
proof -
  have "string_replace_with_callback_loop p q l cb [] = ([], 0)"
    by (subst string_replace_with_callback_loop.simps) simp
  then have 1: "string_replace_with_callback_loop p q l cb a = (a, 0)"
    using callback_plain [OF assms(1,4,5), of q l cb "[]"] by simp
  have 2: "string_replace_with_callback_loop p q l cb (a @ p @ key @ q @ b)
      = map_prod (\<lambda>r. a @ val @ r) id (string_replace_with_callback_loop p q l cb b)"
    unfolding callback_plain [OF assms(1,4,5)] callback_variable [where cb = cb, OF assms(1-3,6-9)]
    by (simp add: map_prod_def case_prod_unfold)
  show ?thesis
    using assms(1,2) 1 2
    by (simp add: string_replace_with_callback_def case_prod_unfold map_prod_def)
qed

theorem string_replace_with_callback_variable_witness:
  "string_replace_with_callback (Some ''x='') (Some ''${'') (Some ''}'') None (Some (\<lambda>k. Some (k @ k))) = (Some ''x='', 0) \<and>
    string_replace_with_callback (Some (''x='' @ ''${'' @ ''ab'' @ ''}'' @ ''!'')) (Some ''${'') (Some ''}'') None
      (Some (\<lambda>k. Some (k @ k))) =
    (let (r, errors) = string_replace_with_callback (Some ''!'') (Some ''${'') (Some ''}'') None (Some (\<lambda>k. Some (k @ k)))
     in (map_option (\<lambda>r. ''x='' @ ''abab'' @ r) r, errors))"
  by (rule string_replace_with_callback_variable) simp_all

end
