(* ===== verification/String_Split.thy ===== *)
theory String_Split
  imports String_Ops
begin

text \<open>
Splitting of strings, \<open>src/core/wee-string.c\<close>: with separators (\<open>string_split_internal\<close>), as
a shell does, into commands and into tags, and the way back.  Arrays of strings are lists; the
flags are a set.
\<close>

subsection \<open>Splitting with separators\<close>

datatype split_flag = STRIP_LEFT | STRIP_RIGHT | COLLAPSE_SEPS | KEEP_EOL

text \<open>\<open>strpbrk\<close> and \<open>strchr\<close> for a char that is not NUL, as suffixes.\<close>

definition strpbrk :: "cstr \<Rightarrow> cstr \<Rightarrow> cstr option" where
  "strpbrk s accept = (let p = dropWhile (\<lambda>c. c \<notin> set accept) s in if p = [] then None else Some p)"

abbreviation strchr :: "cstr \<Rightarrow> char \<Rightarrow> cstr option" where
  "strchr s c \<equiv> strpbrk s [c]"

lemma strpbrk_SomeD: "strpbrk s seps = Some p \<Longrightarrow> p \<noteq> [] \<and> hd p \<in> set seps \<and> length p \<le> length s"
  using hd_dropWhile [of "\<lambda>c. c \<notin> set seps" s]
  by (auto simp: strpbrk_def Let_def length_dropWhile_le simp del: dropWhile_eq_Nil_conv split: if_splits)

text \<open>The number of items: \<open>i\<close> counts from 1.\<close>

function string_split_count :: "cstr \<Rightarrow> bool \<Rightarrow> cstr \<Rightarrow> nat \<Rightarrow> nat" where
  "string_split_count separators collapse ptr i =
     (case strpbrk ptr separators of
        None \<Rightarrow> i
      | Some p \<Rightarrow>
          if collapse then
            let q = dropWhile (\<lambda>c. c \<in> set separators) p
            in string_split_count separators collapse q (if q \<noteq> [] then i + 1 else i)
          else string_split_count separators collapse (tl p) (i + 1))"
  by pat_completeness auto
termination
proof (relation "measure (\<lambda>(separators, collapse, ptr, i). length ptr)", goal_cases)
  case (2 separators collapse ptr i p q)
  then obtain c r where p: "p = c # r" "c \<in> set separators" "length p \<le> length ptr"
    using strpbrk_SomeD [OF 2(1)] by (cases p) auto
  have "length q \<le> length r" using 2(3) p(1,2) by (simp add: length_dropWhile_le)
  then show ?case using p by simp
next
  case (3 separators collapse ptr i p)
  then show ?case using strpbrk_SomeD [OF 3(1)] by (cases p) auto
qed simp

declare string_split_count.simps [simp del]

text \<open>The end of an item.\<close>

definition split_item_end :: "bool \<Rightarrow> cstr \<Rightarrow> cstr \<Rightarrow> cstr" where
  "split_item_end is_last ptr1 separators =
     (case strpbrk ptr1 separators of
        Some ptr2 \<Rightarrow> ptr2
      | None \<Rightarrow>
          if is_last then []
          else (case strchr ptr1 (CHR 0x0D) of
                  Some ptr2 \<Rightarrow> ptr2
                | None \<Rightarrow> (case strchr ptr1 (CHR 0x0A) of Some ptr2 \<Rightarrow> ptr2 | None \<Rightarrow> [])))"

definition split_strip_item :: "cstr option \<Rightarrow> cstr \<Rightarrow> cstr option" where
  "split_strip_item strip_items item =
     (case strip_items of
        None \<Rightarrow> Some item
      | Some cs \<Rightarrow> if cs = [] then Some item else string_strip (Some item) True True (Some cs))"

text \<open>
  The end of the string counts as a separator for \<open>strchr (separators, ptr2[0])\<close>: the pointer
  may move beyond the terminator; it is then \<open>None\<close>.
\<close>

definition split_next :: "split_flag set \<Rightarrow> cstr \<Rightarrow> cstr \<Rightarrow> cstr option" where
  "split_next flags separators ptr2 =
     (case ptr2 of
        [] \<Rightarrow> if COLLAPSE_SEPS \<notin> flags then None else Some []
      | c # r \<Rightarrow> if COLLAPSE_SEPS \<notin> flags \<and> c \<in> set separators then Some r else Some ptr2)"

text \<open>
  The items; the number is the count of those that remain.  The result is \<open>None\<close> when the loop
  reads beyond the terminator, \<open>Some None\<close> for \<open>NULL\<close>.
\<close>

fun string_split_items ::
  "cstr \<Rightarrow> cstr option \<Rightarrow> split_flag set \<Rightarrow> nat \<Rightarrow> cstr option \<Rightarrow> cstr list option option" where
  "string_split_items separators strip_items flags 0 ptr1 = Some (Some [])"
| "string_split_items separators strip_items flags (Suc k) None = None"
| "string_split_items separators strip_items flags (Suc k) (Some ptr) =
     (let ptr1 = (if COLLAPSE_SEPS \<in> flags then dropWhile (\<lambda>c. c \<in> set separators) ptr else ptr);
          ptr2 = split_item_end (k = 0) ptr1 separators
      in if length ptr2 < length ptr1 then
           (case split_strip_item strip_items
                   (if KEEP_EOL \<in> flags then ptr1 else take (length ptr1 - length ptr2) ptr1) of
              None \<Rightarrow> Some None
            | Some item \<Rightarrow> do {
                rest \<leftarrow> string_split_items separators strip_items flags k (split_next flags separators ptr2);
                Some (map_option (Cons item) rest) })
         else do {
           rest \<leftarrow> string_split_items separators strip_items flags k (Some (if ptr1 \<noteq> [] then tl ptr1 else ptr1));
           Some (map_option (Cons []) rest) })"

text \<open>
  The array and the number of items.  With the maximum -1 an array of no element is allocated and
  its first element written; below, the size is negative and \<open>malloc\<close> fails.
\<close>

definition string_split_internal ::
  "cstr option \<Rightarrow> cstr option \<Rightarrow> cstr option \<Rightarrow> split_flag set \<Rightarrow> int \<Rightarrow> (cstr list option \<times> int) option" where
  "string_split_internal string separators strip_items flags num_items_max =
     (case (string, separators) of
        (Some s, Some seps) \<Rightarrow>
          if s = [] \<or> seps = [] then Some (None, 0)
          else (case string_strip (Some s) (STRIP_LEFT \<in> flags) (STRIP_RIGHT \<in> flags) (Some seps) of
             None \<Rightarrow> Some (None, 0)
           | Some string2 \<Rightarrow>
               if string2 = [] then Some (None, 0)
               else do {
                 let count = int (string_split_count seps (COLLAPSE_SEPS \<in> flags) string2 1);
                 let count_items = (if num_items_max \<noteq> 0 \<and> count > num_items_max then num_items_max else count);
                 if count_items < - 1 then Some (None, 0)
                 else if count_items = - 1 then None
                 else do {
                   items \<leftarrow> string_split_items seps strip_items flags (nat count_items) (Some string2);
                   Some (items, if items = None then 0 else count_items) } })
      | _ \<Rightarrow> Some (None, 0))"

definition string_split ::
  "cstr option \<Rightarrow> cstr option \<Rightarrow> cstr option \<Rightarrow> split_flag set \<Rightarrow> int \<Rightarrow> (cstr list option \<times> int) option" where
  "string_split string separators strip_items flags num_items_max =
     string_split_internal string separators strip_items flags num_items_max"

text \<open>The same with shared strings, which have the same content.\<close>

definition string_split_shared ::
  "cstr option \<Rightarrow> cstr option \<Rightarrow> cstr option \<Rightarrow> split_flag set \<Rightarrow> int \<Rightarrow> (cstr list option \<times> int) option" where
  "string_split_shared string separators strip_items flags num_items_max =
     string_split_internal string separators strip_items flags num_items_max"

text \<open>The strings joined with the separator.\<close>

fun string_build_loop :: "cstr list \<Rightarrow> cstr option \<Rightarrow> cstr" where
  "string_build_loop [] separator = []"
| "string_build_loop [x] separator = x"
| "string_build_loop (x # y # xs) separator =
     x @ (case separator of None \<Rightarrow> [] | Some sep \<Rightarrow> sep) @ string_build_loop (y # xs) separator"

definition string_build_with_split_string :: "cstr list option \<Rightarrow> cstr option \<Rightarrow> cstr option" where
  "string_build_with_split_string split_string separator =
     map_option (\<lambda>items. string_build_loop items separator) split_string"

text \<open>The tags: an array of arrays; \<open>None\<close> in the array is a \<open>NULL\<close>, which ends it for its readers.\<close>

definition string_split_tags :: "cstr option \<Rightarrow> (cstr list option list option \<times> int) option" where
  "string_split_tags tags =
     (if tags = None then Some (None, 0)
      else do {
        (items, tags_count) \<leftarrow> string_split tags (Some '','') None {STRIP_LEFT, STRIP_RIGHT, COLLAPSE_SEPS} 0;
        case items of
          None \<Rightarrow> Some (None, tags_count)
        | Some xs \<Rightarrow>
            if tags_count > 0 then do {
              let arrays = map (\<lambda>x. string_split_shared (Some x) (Some ''+'') None {} 0) xs;
              if None \<in> set arrays then None else Some (Some (map (fst \<circ> the) arrays), tags_count) }
            else Some (None, tags_count) })"

subsection \<open>What a split is\<close>

text \<open>The suffixes of the string where an item starts, and the item in each.\<close>

function split_tails :: "cstr \<Rightarrow> bool \<Rightarrow> cstr \<Rightarrow> cstr list" where
  "split_tails seps collapse s =
     s # (case dropWhile (\<lambda>c. c \<notin> set seps) s of
            [] \<Rightarrow> []
          | c # r \<Rightarrow>
              if collapse then
                let q = dropWhile (\<lambda>c. c \<in> set seps) r in if q = [] then [] else split_tails seps collapse q
              else split_tails seps collapse r)"
  by pat_completeness auto
termination
proof (relation "measure (\<lambda>(seps, collapse, s). length s)", goal_cases)
  case (2 seps collapse s c r q)
  have "length q \<le> length r" using 2(3) by (simp add: length_dropWhile_le)
  then show ?case using 2(1) length_dropWhile_le [of "\<lambda>c. c \<notin> set seps" s] by simp
next
  case (3 seps collapse s c r)
  then show ?case using length_dropWhile_le [of "\<lambda>c. c \<notin> set seps" s] by simp
qed simp

declare split_tails.simps [simp del]

definition split_item :: "cstr \<Rightarrow> cstr option \<Rightarrow> bool \<Rightarrow> cstr \<Rightarrow> cstr" where
  "split_item seps strip_items keep_eol t =
     (let x = takeWhile (\<lambda>c. c \<notin> set seps) t
      in if x = [] then [] else the (split_strip_item strip_items (if keep_eol then t else x)))"

lemma split_tails_ne: "split_tails seps collapse s \<noteq> []"
  by (simp add: split_tails.simps [of seps collapse s])

lemma string_split_count_tails:
  "string_split_count seps collapse s i = i + length (split_tails seps collapse s) - 1"
proof (induction seps collapse s arbitrary: i rule: split_tails.induct)
  case (1 seps collapse s)
  show ?case
  proof (cases "dropWhile (\<lambda>c. c \<notin> set seps) s")
    case Nil
    then show ?thesis by (simp add: string_split_count.simps [of seps collapse s] split_tails.simps [of seps collapse s] strpbrk_def
      del: dropWhile_eq_Nil_conv)
  next
    case (Cons c r)
    then have c: "c \<in> set seps" using hd_dropWhile [of "\<lambda>c. c \<notin> set seps" s] by simp
    have p: "strpbrk s seps = Some (c # r)" using Cons by (simp add: strpbrk_def)
    show ?thesis
    proof (cases "collapse \<and> dropWhile (\<lambda>c. c \<in> set seps) r = []")
      case True
      then have "string_split_count seps collapse s i = i"
        using c string_split_count.simps [of seps collapse "[]" i]
        by (subst string_split_count.simps) (simp add: p strpbrk_def [of "[]"] del: dropWhile_eq_Nil_conv)
      moreover have "split_tails seps collapse s = [s]"
        by (subst split_tails.simps) (use True Cons in simp)
      ultimately show ?thesis by simp
    next
      case False
      let ?q = "if collapse then dropWhile (\<lambda>c. c \<in> set seps) r else r"
      have "string_split_count seps collapse s i = string_split_count seps collapse ?q (i + 1)"
        by (subst string_split_count.simps) (use p c False in \<open>auto simp: Let_def simp del: dropWhile_eq_Nil_conv\<close>)
      moreover have "split_tails seps collapse s = s # split_tails seps collapse ?q"
        by (subst split_tails.simps) (use Cons False in \<open>auto simp: Let_def simp del: dropWhile_eq_Nil_conv\<close>)
      moreover have "string_split_count seps collapse ?q (i + 1) = i + 1 + length (split_tails seps collapse ?q) - 1"
        using 1(1) [OF Cons _ refl] 1(2) [OF Cons] False by (cases collapse) auto
      ultimately show ?thesis by simp
    qed
  qed
qed

lemma split_strip_item_Some: "split_strip_item strip x \<noteq> None"
  by (auto simp: split_strip_item_def string_strip_def string_strndup_def Let_def split: option.splits)

lemma string_split_items_tails:
  assumes "p = (if COLLAPSE_SEPS \<in> flags then dropWhile (\<lambda>c. c \<in> set seps) ptr else ptr)"
    and "COLLAPSE_SEPS \<in> flags \<Longrightarrow> p \<noteq> []"
    and "k \<le> length (split_tails seps (COLLAPSE_SEPS \<in> flags) p)"
  shows "string_split_items seps strip flags k (Some ptr) =
    Some (Some (map (split_item seps strip (KEEP_EOL \<in> flags)) (take k (split_tails seps (COLLAPSE_SEPS \<in> flags) p))))"
  using assms
proof (induction k arbitrary: ptr p)
  case (Suc k)
  let ?c = "COLLAPSE_SEPS \<in> flags"
  let ?N = "\<lambda>c. c \<notin> set seps"
  let ?P = "\<lambda>c. c \<in> set seps"
  let ?item = "split_item seps strip (KEEP_EOL \<in> flags)"
  define x where "x = takeWhile ?N p"
  define d where "d = dropWhile ?N p"
  have xd: "p = x @ d" by (simp add: x_def d_def)
  have hd: "d = c # r \<Longrightarrow> ?P c" for c r using hd_dropWhile [of ?N p] by (simp add: d_def)
  have tails: "split_tails seps ?c p = p # (case d of [] \<Rightarrow> [] | c # r \<Rightarrow>
      if ?c then let q = dropWhile ?P r in if q = [] then [] else split_tails seps ?c q else split_tails seps ?c r)"
    unfolding d_def by (rule split_tails.simps)
  have sp: "strpbrk p seps = (if d = [] then None else Some d)" by (simp add: strpbrk_def d_def del: dropWhile_eq_Nil_conv)
  have k: "d = [] \<Longrightarrow> k = 0" using Suc.prems(3) tails by simp
  have "end": "split_item_end (k = 0) p seps = d"
    using k by (auto simp: split_item_end_def sp)
  have x0: "x = [] \<Longrightarrow> \<not> ?c"
  proof
    assume "x = []" ?c
    then have p: "p = dropWhile ?P ptr" "p \<noteq> []" "p = d" using Suc.prems(1,2) xd by simp_all
    have "\<not> ?P (hd p)" using hd_dropWhile [of ?P ptr] p(2) unfolding p(1) by blast
    moreover have "?P (hd p)" using hd [of "hd p" "tl p"] p(2) unfolding p(3) by simp
    ultimately show False by simp
  qed
  define nxt where "nxt = (if x = [] then (if p \<noteq> [] then tl p else p) else (if d = [] then [] else if ?c then d else tl d))"
  have rest: "k \<noteq> 0 \<Longrightarrow> string_split_items seps strip flags k (Some nxt) =
      Some (Some (map ?item (take k (tl (split_tails seps ?c p)))))"
  proof -
    assume "k \<noteq> 0"
    then obtain c r where cr: "d = c # r" using k by (cases d) auto
    note P = hd [OF cr]
    show ?thesis
    proof (cases ?c)
      case True
      let ?q = "dropWhile ?P r"
      have nx: "nxt = d" using x0 True cr by (auto simp: nxt_def)
      have q: "?q \<noteq> []" using Suc.prems(3) tails cr True \<open>k \<noteq> 0\<close> by (auto simp: Let_def split: if_splits)
      have tl: "tl (split_tails seps ?c p) = split_tails seps ?c ?q" by (subst tails) (simp add: cr True q del: dropWhile_eq_Nil_conv)
      have "k \<le> length (split_tails seps ?c ?q)" unfolding tl [symmetric] using Suc.prems(3) by simp
      then show ?thesis unfolding tl nx
        by (intro Suc.IH) (use True cr P q in auto)
    next
      case False
      have nx: "nxt = r" using False cr xd by (auto simp: nxt_def)
      have tl: "tl (split_tails seps ?c p) = split_tails seps ?c r" using tails cr False by simp
      have "k \<le> length (split_tails seps ?c r)" using Suc.prems(3) tails cr False by simp
      then show ?thesis unfolding tl nx by (intro Suc.IH) (use False in auto)
    qed
  qed
  have t: "take (Suc k) (split_tails seps ?c p) = p # take k (tl (split_tails seps ?c p))" using tails by simp
  have nextp: "x \<noteq> [] \<Longrightarrow> split_next flags seps d = (if d = [] \<and> \<not> ?c then None else Some nxt)"
    using hd by (auto simp: split_next_def nxt_def split: list.split)
  have all: "x \<noteq> [] \<Longrightarrow> string_split_items seps strip flags k (split_next flags seps d) =
      Some (Some (map ?item (take k (tl (split_tails seps ?c p)))))"
    "x = [] \<Longrightarrow> string_split_items seps strip flags k (Some (if p \<noteq> [] then tl p else p)) =
      Some (Some (map ?item (take k (tl (split_tails seps ?c p)))))"
    using rest nextp k by (cases k; force simp: nxt_def)+
  have it: "x \<noteq> [] \<Longrightarrow> split_strip_item strip (if KEEP_EOL \<in> flags then p else take (length p - length d) p) = Some (?item p)"
  proof -
    assume "x \<noteq> []"
    have "take (length p - length d) p = x" using xd by simp
    then show ?thesis
      using \<open>x \<noteq> []\<close> split_strip_item_Some [of strip "if KEEP_EOL \<in> flags then p else x"]
      unfolding split_item_def x_def [symmetric] Let_def by auto
  qed
  have it0: "x = [] \<Longrightarrow> ?item p = []" by (simp add: split_item_def x_def [symmetric])
  show ?case
  proof (cases "x = []")
    case True
    then have "\<not> length d < length p" using xd by simp
    then show ?thesis
      unfolding string_split_items.simps Let_def Suc.prems(1) [symmetric] "end" t
      using all(2) [OF True] it0 [OF True] by simp
  next
    case False
    then have "length d < length p" using xd by simp
    then show ?thesis
      unfolding string_split_items.simps Let_def Suc.prems(1) [symmetric] "end" t
      using all(1) [OF False] it [OF False] by simp
  qed
qed simp

subsection \<open>Properties\<close>

text \<open>The string without the separators at the ends asked for.\<close>

definition split_stripped :: "split_flag set \<Rightarrow> cstr \<Rightarrow> cstr \<Rightarrow> cstr" where
  "split_stripped flags seps s =
     (let t = (if STRIP_LEFT \<in> flags then dropWhile (\<lambda>c. c \<in> set seps) s else s)
      in if STRIP_RIGHT \<in> flags then rev (dropWhile (\<lambda>c. c \<in> set seps) (rev t)) else t)"

lemma string_strip_stripped:
  "cstr_ok s \<Longrightarrow> string_strip (Some s) (STRIP_LEFT \<in> flags) (STRIP_RIGHT \<in> flags) (Some seps) = Some (split_stripped flags seps s)"
  unfolding string_strip_spec split_stripped_def Let_def strip_left_spec_def by simp

lemma split_stripped_hd:
  assumes "STRIP_LEFT \<in> flags" "split_stripped flags seps s \<noteq> []"
  shows "hd (split_stripped flags seps s) \<notin> set seps"
proof -
  let ?P = "\<lambda>c. c \<in> set seps"
  let ?t = "dropWhile ?P s"
  have "prefix (rev (dropWhile ?P (rev ?t))) ?t"
    by (metis suffix_dropWhile suffix_to_prefix rev_rev_ident)
  then have "prefix (split_stripped flags seps s) ?t" using assms(1) by (simp add: split_stripped_def Let_def)
  then have "hd (split_stripped flags seps s) = hd ?t" "?t \<noteq> []"
    using assms(2) by (auto simp: prefix_def simp del: dropWhile_eq_Nil_conv)
  then show ?thesis using hd_dropWhile [of ?P s] by simp
qed

lemma bind_Some_map: "Option.bind r (\<lambda>x. Some (f x)) = map_option f r"
  by (cases r) simp_all

lemma split_unfold:
  assumes "cstr_ok s" "seps \<noteq> []" "0 \<le> max_items"
  shows "string_split (Some s) (Some seps) strip flags max_items =
    (let t = split_stripped flags seps s
     in if t = [] then Some (None, 0)
        else let n = length (split_tails seps (COLLAPSE_SEPS \<in> flags) t);
                 k = (if max_items \<noteq> 0 \<and> int n > max_items then nat max_items else n)
             in map_option (\<lambda>items. (items, if items = None then 0 else int k))
                  (string_split_items seps strip flags k (Some t)))"
proof -
  have "split_tails seps (COLLAPSE_SEPS \<in> flags) t \<noteq> []" for t by (rule split_tails_ne)
  then have e: "1 + length (split_tails seps (COLLAPSE_SEPS \<in> flags) t) - 1 = length (split_tails seps (COLLAPSE_SEPS \<in> flags) t)" for t
    by simp
  have s0: "s = [] \<Longrightarrow> split_stripped flags seps s = []" by (simp add: split_stripped_def)
  show ?thesis
  proof (cases "s = [] \<or> split_stripped flags seps s = []")
    case True
    then show ?thesis using s0 assms(2)
      by (auto simp: string_split_def string_split_internal_def string_strip_stripped [OF assms(1)])
  next
    case False
    then show ?thesis using assms(2,3)
      by (auto intro!: option.map_cong0 simp: string_split_def string_split_internal_def string_strip_stripped [OF assms(1)]
        string_split_count_tails Let_def bind_Some_map int_nat_eq del: One_nat_def)
  qed
qed

lemma string_split_tails:
  assumes "cstr_ok s" "seps \<noteq> []" "0 \<le> max_items" "COLLAPSE_SEPS \<in> flags \<Longrightarrow> STRIP_LEFT \<in> flags"
    and t: "t = split_stripped flags seps s" "t \<noteq> []"
    and xs: "xs = (if max_items = 0 then split_tails seps (COLLAPSE_SEPS \<in> flags) t
      else take (nat max_items) (split_tails seps (COLLAPSE_SEPS \<in> flags) t))"
  shows "string_split (Some s) (Some seps) strip flags max_items =
    Some (Some (map (split_item seps strip (KEEP_EOL \<in> flags)) xs), int (length xs))"
proof -
  let ?T = "split_tails seps (COLLAPSE_SEPS \<in> flags) t"
  define k where "k = (if max_items \<noteq> 0 \<and> int (length ?T) > max_items then nat max_items else length ?T)"
  have k: "k \<le> length ?T" by (auto simp: k_def)
  have "COLLAPSE_SEPS \<in> flags \<Longrightarrow> dropWhile (\<lambda>c. c \<in> set seps) t = t"
    using split_stripped_hd [OF assms(4), of seps s] unfolding t(1) [symmetric] using t(2) by (cases t) simp_all
  then have p: "t = (if COLLAPSE_SEPS \<in> flags then dropWhile (\<lambda>c. c \<in> set seps) t else t)" by simp
  have "string_split_items seps strip flags k (Some t) =
      Some (Some (map (split_item seps strip (KEEP_EOL \<in> flags)) (take k ?T)))"
    by (rule string_split_items_tails [OF p _ k]) (rule t(2))
  moreover have "take k ?T = xs" by (auto simp: k_def xs)
  moreover have "k = length xs" using k \<open>take k ?T = xs\<close> by auto
  ultimately show ?thesis
    unfolding split_unfold [OF assms(1-3)] Let_def t(1) [symmetric] k_def [symmetric] using t(2) by simp
qed

text \<open>
  Claim C25.  \<open>string_split\<close> cuts the string, without the separators at the ends asked for, at
  each separator (at each run of separators with \<open>COLLAPSE_SEPS\<close>); with \<open>KEEP_EOL\<close> an item goes to
  the end of the string; the items beyond the maximum are dropped.
\<close>

theorem string_split_spec:
  assumes "cstr_ok s" "seps \<noteq> []" "0 \<le> max_items" "COLLAPSE_SEPS \<in> flags \<Longrightarrow> STRIP_LEFT \<in> flags"
  shows "string_split (Some s) (Some seps) strip flags max_items =
    (let t = split_stripped flags seps s;
         tails = split_tails seps (COLLAPSE_SEPS \<in> flags) t;
         items = map (split_item seps strip (KEEP_EOL \<in> flags)) (if max_items = 0 then tails else take (nat max_items) tails)
     in if t = [] then Some (None, 0) else Some (Some items, int (length items)))"
proof (cases "split_stripped flags seps s = []")
  case True
  then show ?thesis by (simp add: split_unfold [OF assms(1-3)])
next
  case False
  show ?thesis
    using string_split_tails [OF assms(1-3) _ refl False refl, of strip] assms(4) False by (simp add: Let_def)
qed

theorem string_split_spec_witness:
  "string_split (Some '',abc ,, de , fghi,'') (Some '','') (Some '' '')
      {STRIP_LEFT, STRIP_RIGHT, COLLAPSE_SEPS, KEEP_EOL} 0 =
    Some (Some [''abc ,, de , fghi'', ''de , fghi'', ''fghi''], 3)"
proof -
  let ?f = "{STRIP_LEFT, STRIP_RIGHT, COLLAPSE_SEPS, KEEP_EOL}"
  have "(let t = split_stripped ?f '','' '',abc ,, de , fghi,''; tails = split_tails '','' (COLLAPSE_SEPS \<in> ?f) t;
       items = map (split_item '','' (Some '' '') (KEEP_EOL \<in> ?f)) (if (0::int) = 0 then tails else take (nat 0) tails)
     in if t = [] then Some (None, 0) else Some (Some items, int (length items))) =
     Some (Some [''abc ,, de , fghi'', ''de , fghi'', ''fghi''], 3)"
    by code_simp
  then show ?thesis
    using string_split_spec [of "'',abc ,, de , fghi,''" "'',''" 0 ?f "Some '' ''"] by simp
qed

lemma string_split_items_collapse:
  "COLLAPSE_SEPS \<in> flags \<Longrightarrow> \<exists>xs. string_split_items separators strip flags k (Some ptr) = Some (Some xs) \<and> length xs = k"
proof (induction k arbitrary: ptr)
  case (Suc k)
  define p where "p = dropWhile (\<lambda>c. c \<in> set separators) ptr"
  have n: "\<exists>q. split_next flags separators p = Some q" for p
    using Suc.prems by (auto simp: split_next_def split: list.split)
  have st: "\<exists>x. split_strip_item strip y = Some x" for y using split_strip_item_Some [of strip y] by blast
  define e where "e = split_item_end (k = 0) p separators"
  define i where "i = (if KEEP_EOL \<in> flags then p else take (length p - length e) p)"
  obtain q x where q: "split_next flags separators e = Some q" and x: "split_strip_item strip i = Some x"
    using n st by blast
  obtain xs ys where "string_split_items separators strip flags k (Some q) = Some (Some xs)" "length xs = k"
    "string_split_items separators strip flags k (Some (if p \<noteq> [] then tl p else p)) = Some (Some ys)" "length ys = k"
    using Suc.IH [OF Suc.prems] by metis
  then show ?case
    unfolding string_split_items.simps Let_def if_P [OF Suc.prems] p_def [symmetric] e_def [symmetric] i_def [symmetric] q x
    by (cases "length e < length p") simp_all
qed simp

lemma string_split_words:
  assumes "cstr_ok s" "seps \<noteq> []" "0 \<le> max_items" "COLLAPSE_SEPS \<in> flags"
  shows "\<exists>xs. string_split (Some s) (Some seps) strip flags max_items =
      (if split_stripped flags seps s = [] then Some (None, 0) else Some (Some xs, int (length xs))) \<and>
    xs \<noteq> [] \<and> (max_items \<noteq> 0 \<longrightarrow> int (length xs) \<le> max_items)"
proof -
  let ?t = "split_stripped flags seps s"
  define n where "n = length (split_tails seps (COLLAPSE_SEPS \<in> flags) ?t)"
  define k where "k = (if max_items \<noteq> 0 \<and> int n > max_items then nat max_items else n)"
  have "0 < n" using split_tails_ne by (auto simp: n_def)
  then have k: "0 < k" "max_items \<noteq> 0 \<longrightarrow> int k \<le> max_items" using assms(3) by (auto simp: k_def)
  obtain xs where xs: "string_split_items seps strip flags k (Some ?t) = Some (Some xs)" "length xs = k"
    using string_split_items_collapse [OF assms(4)] by blast
  have "string_split (Some s) (Some seps) strip flags max_items = (if ?t = [] then Some (None, 0) else Some (Some xs, int k))"
    using xs(1) unfolding split_unfold [OF assms(1-3)] Let_def n_def [symmetric] k_def [symmetric] by simp
  then show ?thesis using xs(2) k by auto
qed

text \<open>
  \<open>string_split\<close> stays inside its strings and its array for all strings and flags, and
  returns as many items as it counts, at most the maximum.
\<close>

theorem string_split_safe:
  assumes "cstr_ok s" "0 \<le> max_items"
  shows "\<exists>items n. string_split (Some s) (Some seps) strip flags max_items = Some (items, n) \<and>
    n = (case items of None \<Rightarrow> 0 | Some xs \<Rightarrow> int (length xs)) \<and> (max_items \<noteq> 0 \<longrightarrow> n \<le> max_items)"
proof (cases "seps = []")
  case True
  then show ?thesis using assms(2) by (simp add: string_split_def string_split_internal_def)
next
  case False
  show ?thesis
  proof (cases "COLLAPSE_SEPS \<in> flags")
    case True
    then show ?thesis
      using string_split_words [OF assms(1) False assms(2) True, of strip] assms(2)
      by (cases "split_stripped flags seps s = []") auto
  next
    case nc: False
    show ?thesis
    proof (cases "split_stripped flags seps s = []")
      case True
      then show ?thesis using assms(2) by (simp add: split_unfold [OF assms(1) False assms(2)])
    next
      case ne: False
      show ?thesis
        using string_split_tails [OF assms(1) False assms(2) _ refl ne refl, of strip] nc assms(2)
        by (auto simp: le_nat_iff)
    qed
  qed
qed

theorem string_split_safe_witness:
  "\<exists>items n. string_split (Some ''  abc'') (Some '' '') None {COLLAPSE_SEPS} 2 = Some (items, n) \<and>
    n = (case items of None \<Rightarrow> 0 | Some xs \<Rightarrow> int (length xs)) \<and> ((2::int) \<noteq> 0 \<longrightarrow> n \<le> 2)"
  by (rule string_split_safe) simp_all

text \<open>
  Without \<open>STRIP_LEFT\<close>, \<open>COLLAPSE_SEPS\<close> counts an item before the separators at the start: an
  empty item is added at the end.
\<close>

lemma string_split_collapse_left:
  "string_split (Some ''  abc'') (Some '' '') None {COLLAPSE_SEPS} 0 = Some (Some [''abc'', []], 2)"
  by code_simp

text \<open>The maximum -1 makes the code write to an array without elements.\<close>

lemma string_split_minus_one: "string_split (Some ''a'') (Some '','') None {} (- 1) = None"
  by code_simp

lemma string_build_tails:
  "string_build_loop (map (takeWhile (\<lambda>d. d \<noteq> c)) (split_tails [c] False t)) (Some [c]) = t"
proof (induction "[c]" False t rule: split_tails.induct)
  case (1 s)
  have s: "s = takeWhile (\<lambda>d. d \<noteq> c) s @ dropWhile (\<lambda>d. d \<noteq> c) s" by simp
  show ?case
  proof (cases "dropWhile (\<lambda>d. d \<noteq> c) s")
    case Nil
    then show ?thesis using s by (subst split_tails.simps) (simp del: dropWhile_eq_Nil_conv)
  next
    case (Cons d r)
    then have d: "d = c" using hd_dropWhile [of "\<lambda>d. d \<noteq> c" s] by simp
    obtain y ys where y: "split_tails [c] False r = y # ys" using split_tails_ne by (cases "split_tails [c] False r") auto
    have "string_build_loop (map (takeWhile (\<lambda>d. d \<noteq> c)) (split_tails [c] False r)) (Some [c]) = r"
      by (rule 1(2)) (use Cons in simp_all)
    then show ?thesis using s Cons d by (subst split_tails.simps) (simp add: y)
  qed
qed

text \<open>
  Joining the items of a split with the separator gives the string back, and no item
  holds the separator.
\<close>

theorem string_split_build:
  assumes "cstr_ok s" "s \<noteq> []"
  shows "\<exists>items. string_split (Some s) (Some [c]) None {} 0 = Some (Some items, int (length items)) \<and>
    string_build_with_split_string (Some items) (Some [c]) = Some s \<and> (\<forall>x\<in>set items. c \<notin> set x)"
proof -
  have item: "split_item [c] None False = takeWhile (\<lambda>d. d \<noteq> c)"
    by (auto simp: split_item_def split_strip_item_def Let_def)
  have "string_split (Some s) (Some [c]) None {} 0 =
      Some (Some (map (split_item [c] None False) (split_tails [c] False s)), int (length (split_tails [c] False s)))"
    using string_split_tails [OF assms(1), of "[c]" 0 "{}" s "split_tails [c] False s" None] assms(2) by (simp add: split_stripped_def)
  then show ?thesis
    using string_build_tails [of c s] by (auto simp: string_build_with_split_string_def item dest: set_takeWhileD)
qed

theorem string_split_build_witness:
  "\<exists>items. string_split (Some ''a,,b,'') (Some '','') None {} 0 = Some (Some items, int (length items)) \<and>
    string_build_with_split_string (Some items) (Some '','') = Some ''a,,b,'' \<and> (\<forall>x\<in>set items. CHR '','' \<notin> set x)"
  by (rule string_split_build) simp_all

subsection \<open>Splitting as a shell does\<close>

text \<open>
  The variables of \<open>string_split_shell\<close>: the state is a space, a quote, a backslash or \<open>a\<close>.  The
  char being added is copied at the end of \<open>temp\<close>, whose buffer holds \<open>room\<close> bytes and a NUL.
\<close>

record shell_split =
  sh_state :: char
  sh_escapedstate :: char
  sh_quoted :: bool
  sh_temp :: cstr
  sh_args :: "cstr list"

definition shell_put :: "nat \<Rightarrow> cstr \<Rightarrow> shell_split \<Rightarrow> shell_split option" where
  "shell_put room u st =
     (if length (sh_temp st) + length u \<le> room then Some (st\<lparr>sh_temp := sh_temp st @ u\<rparr>) else None)"

definition shell_add_arg :: "shell_split \<Rightarrow> shell_split" where
  "shell_add_arg st =
     st\<lparr>sh_args := sh_args st @ [sh_temp st], sh_temp := [], sh_escapedstate := CHR '' '', sh_quoted := False\<rparr>"

definition shell_blank :: "char \<Rightarrow> bool" where
  "shell_blank c \<longleftrightarrow> c = CHR '' '' \<or> c = CHR 0x09 \<or> c = CHR 0x0D \<or> c = CHR 0x0A"

text \<open>A char outside quotes, in the states space and \<open>a\<close>.\<close>

definition shell_plain :: "nat \<Rightarrow> cstr \<Rightarrow> shell_split \<Rightarrow> shell_split option" where
  "shell_plain room u st =
     (if shell_blank (hd u) then
        Some (let st' = st\<lparr>sh_state := CHR '' ''\<rparr>
              in if sh_temp st \<noteq> [] \<or> sh_quoted st then shell_add_arg st' else st')
      else if hd u = CHR 0x5C then Some (st\<lparr>sh_escapedstate := CHR ''a'', sh_state := hd u\<rparr>)
      else if hd u = CHR 0x27 \<or> hd u = CHR 0x22 then Some (st\<lparr>sh_state := hd u\<rparr>)
      else shell_put room u (st\<lparr>sh_state := CHR ''a''\<rparr>))"

text \<open>One turn of the loop, for the bytes of a char.\<close>

definition shell_step :: "nat \<Rightarrow> cstr \<Rightarrow> shell_split \<Rightarrow> shell_split option" where
  "shell_step room u st =
     (let c = hd u; state = sh_state st in
      if state = CHR 0x27 \<or> state = CHR 0x22 then
        (let st = st\<lparr>sh_quoted := True\<rparr> in
         if c = state then Some (st\<lparr>sh_state := CHR ''a''\<rparr>)
         else if state = CHR 0x22 \<and> c = CHR 0x5C then Some (st\<lparr>sh_escapedstate := state, sh_state := c\<rparr>)
         else shell_put room u st)
      else if state = CHR 0x5C then do {
        st \<leftarrow> (if (sh_escapedstate st = CHR 0x27 \<or> sh_escapedstate st = CHR 0x22) \<and> c \<noteq> state \<and> c \<noteq> sh_escapedstate st
               then shell_put room [state] st else Some st);
        shell_put room u (st\<lparr>sh_state := sh_escapedstate st\<rparr>) }
      else shell_plain room u st)"

fun string_split_shell_loop :: "nat \<Rightarrow> cstr \<Rightarrow> shell_split \<Rightarrow> shell_split option" where
  "string_split_shell_loop room [] st = Some st"
| "string_split_shell_loop room (c # s) st = do {
     st \<leftarrow> shell_step room (take (utf8_char_size (Some (c # s))) (c # s)) st;
     string_split_shell_loop room (utf8_skip (c # s)) st }"

text \<open>The array and the number of arguments; \<open>None\<close> when the loop writes beyond the buffer.\<close>

definition string_split_shell :: "cstr option \<Rightarrow> (cstr list option \<times> int) option" where
  "string_split_shell string =
     (case string of
        None \<Rightarrow> Some (None, 0)
      | Some s \<Rightarrow> do {
          st \<leftarrow> string_split_shell_loop (2 * length s) s
            \<lparr>sh_state = CHR '' '', sh_escapedstate = CHR '' '', sh_quoted = False, sh_temp = [], sh_args = []\<rparr>;
          let args = (if sh_temp st \<noteq> [] \<or> sh_state st \<noteq> CHR '' '' then sh_args st @ [sh_temp st] else sh_args st);
          Some (Some args, int (length args)) })"


subsection \<open>Splitting commands\<close>

text \<open>An entry of the array, which has room for \<open>nb_substr\<close> of them and a \<open>NULL\<close>.\<close>

definition split_command_add :: "nat \<Rightarrow> cstr \<Rightarrow> cstr list \<Rightarrow> cstr list option" where
  "split_command_add nb_substr buffer arr =
     (let p = dropWhile (\<lambda>c. c = CHR '' '') buffer
      in if p = [] then Some arr else if length arr < nb_substr then Some (arr @ [p]) else None)"

text \<open>
  The previous char is \<open>None\<close> at the start of the string.  An escaped separator replaces the
  backslash, the last char of the buffer.
\<close>

fun string_split_command_loop ::
  "char \<Rightarrow> nat \<Rightarrow> char option \<Rightarrow> cstr \<Rightarrow> cstr list \<Rightarrow> cstr \<Rightarrow> cstr list option" where
  "string_split_command_loop separator nb_substr prev buffer arr [] = split_command_add nb_substr buffer arr"
| "string_split_command_loop separator nb_substr prev buffer arr (c # ptr) =
     (if c = separator \<and> prev \<noteq> Some (CHR 0x5C) then do {
        arr \<leftarrow> split_command_add nb_substr buffer arr;
        string_split_command_loop separator nb_substr (Some c) [] arr ptr }
      else if c = separator then
        (if buffer = [] then None
         else string_split_command_loop separator nb_substr (Some c) (butlast buffer @ [c]) arr ptr)
      else string_split_command_loop separator nb_substr (Some c) (buffer @ [c]) arr ptr)"

text \<open>With NUL as separator the loop that counts runs beyond the string.\<close>

definition string_split_command :: "cstr option \<Rightarrow> char \<Rightarrow> cstr list option option" where
  "string_split_command command separator =
     (case command of
        None \<Rightarrow> Some None
      | Some s \<Rightarrow>
          if s = [] then Some None
          else if separator = NUL then None
          else map_option Some
            (string_split_command_loop separator (1 + length (filter (\<lambda>c. c = separator) s)) None [] [] s))"


subsection \<open>Properties of the commands\<close>

text \<open>A list of commands written with escaped separators.\<close>

definition escape_separator :: "char \<Rightarrow> cstr \<Rightarrow> cstr" where
  "escape_separator sep s = concat (map (\<lambda>c. if c = sep then [CHR 0x5C, c] else [c]) s)"

lemma split_command_escaped:
  assumes "sep \<noteq> CHR 0x5C"
  shows "string_split_command_loop sep nb prev buf arr (escape_separator sep s @ rest) =
    string_split_command_loop sep nb (if s = [] then prev else Some (last s)) (buf @ s) arr rest"
  using assms by (induction s arbitrary: prev buf) (auto simp: escape_separator_def butlast_append)

definition command_ok :: "cstr \<Rightarrow> bool" where
  "command_ok s \<longleftrightarrow> s \<noteq> [] \<and> hd s \<noteq> CHR '' '' \<and> last s \<noteq> CHR 0x5C"

lemma split_command_join:
  assumes "sep \<noteq> CHR 0x5C" "list_all command_ok cmds" "cmds \<noteq> []" "length arr + length cmds \<le> nb"
  shows "string_split_command_loop sep nb prev [] arr (string_build_loop (map (escape_separator sep) cmds) (Some [sep])) =
    Some (arr @ cmds)"
  using assms(2-4)
proof (induction cmds arbitrary: prev arr rule: induct_list012)
  case (2 x)
  then show ?case using split_command_escaped [OF assms(1), of nb prev "[]" arr x "[]"]
    by (cases x) (auto simp: split_command_add_def command_ok_def Let_def)
next
  case (3 x y ys)
  let ?rest = "string_build_loop (map (escape_separator sep) (y # ys)) (Some [sep])"
  have "string_split_command_loop sep nb prev [] arr (escape_separator sep x @ sep # ?rest) =
      string_split_command_loop sep nb (Some sep) [] (arr @ [x]) ?rest"
    using 3(3,5) by (cases x) (auto simp: split_command_escaped [OF assms(1)] split_command_add_def command_ok_def Let_def)
  also have "\<dots> = Some ((arr @ [x]) @ y # ys)"
    using 3(3,5) by (intro 3(2)) simp_all
  finally show ?case by simp
qed simp

lemma count_join:
  "length xs \<le> Suc (length (filter (\<lambda>c. c = sep) (string_build_loop xs (Some [sep]))))"
  by (induction xs rule: induct_list012) auto

text \<open>
  Claim C27.  Commands written one after the other, with a backslash before each separator that
  belongs to a command, are found again by \<open>string_split_command\<close>, provided that no command starts
  with a space or ends with a backslash.
\<close>

theorem string_split_command_roundtrip:
  assumes "sep \<noteq> CHR 0x5C" "sep \<noteq> NUL" "list_all command_ok cmds" "cmds \<noteq> []"
  shows "string_split_command
      (string_build_with_split_string (Some (map (escape_separator sep) cmds)) (Some [sep])) sep = Some (Some cmds)"
proof -
  let ?s = "string_build_loop (map (escape_separator sep) cmds) (Some [sep])"
  obtain x xs where x: "cmds = x # xs" using assms(4) by (cases cmds) auto
  then have "escape_separator sep x \<noteq> []" using assms(3) by (cases x) (auto simp: command_ok_def escape_separator_def)
  then have "?s \<noteq> []" using x by (cases xs) auto
  moreover have "string_split_command_loop sep (1 + length (filter (\<lambda>c. c = sep) ?s)) None [] [] ?s = Some ([] @ cmds)"
    using count_join [of "map (escape_separator sep) cmds" sep] by (intro split_command_join assms) simp
  ultimately show ?thesis
    using assms(2) by (simp add: string_split_command_def string_build_with_split_string_def)
qed

theorem string_split_command_roundtrip_witness:
  "string_split_command
      (string_build_with_split_string (Some (map (escape_separator (CHR '';'')) [''/a b;c'', '';x''])) (Some '';'')) (CHR '';'') =
    Some (Some [''/a b;c'', '';x''])"
  by (rule string_split_command_roundtrip) (simp_all add: command_ok_def)

lemma split_command_total:
  assumes "sep \<noteq> CHR 0x5C" "length arr + length (filter (\<lambda>c. c = sep) s) < nb" "prev = Some (CHR 0x5C) \<longrightarrow> buf \<noteq> []"
  shows "string_split_command_loop sep nb prev buf arr s \<noteq> None"
  using assms(2,3)
proof (induction s arbitrary: prev buf arr)
  case (Cons c s)
  show ?case
  proof (cases "c = sep")
    case True
    show ?thesis
    proof (cases "prev = Some (CHR 0x5C)")
      case p: True
      then show ?thesis using True Cons assms(1) by auto
    next
      case False
      then show ?thesis using True Cons assms(1) by (auto simp: split_command_add_def Let_def)
    qed
  next
    case False
    then show ?thesis using Cons by auto
  qed
qed (auto simp: split_command_add_def Let_def)

text \<open>
  \<open>string_split_command\<close> stays inside its buffer and its array for every separator but
  the backslash (and NUL); with the backslash it can write before the buffer.
\<close>

theorem string_split_command_bounds:
  "(sep \<noteq> CHR 0x5C \<and> sep \<noteq> NUL \<longrightarrow> string_split_command (Some s) sep \<noteq> None) \<and>
   string_split_command (Some [CHR 0x5C, CHR 0x5C]) (CHR 0x5C) = None"
  using split_command_total [of sep "[]" s "1 + length (filter (\<lambda>c. c = sep) s)" None "[]"]
  by (simp add: string_split_command_def split_command_add_def)

theorem string_split_command_bounds_witness:
  "string_split_command (Some ''a;b'') (CHR '';'') \<noteq> None"
  using string_split_command_bounds [of "CHR '';''" "''a;b''"] by simp


subsection \<open>Properties of the shell\<close>

lemmas shell_defs = shell_step_def shell_plain_def shell_put_def shell_add_arg_def shell_blank_def

lemma shell_step_room:
  assumes "u \<noteq> []" "length (sh_temp st) + 2 * length u \<le> room"
  shows "\<exists>st'. shell_step room u st = Some st' \<and> length (sh_temp st') \<le> length (sh_temp st) + 2 * length u"
  using assms by (cases u) (auto simp: shell_defs Let_def)

text \<open>
  The buffer of twice the size of the string is enough for \<open>string_split_shell\<close>,
  whatever the string holds.
\<close>

theorem string_split_shell_fits: "string_split_shell string \<noteq> None"
proof -
  have "string_split_shell_loop room s st \<noteq> None" if "length (sh_temp st) + 2 * length s \<le> room" for room s st
    using that
  proof (induction room s st rule: string_split_shell_loop.induct)
    case (2 room c s st)
    let ?u = "take (utf8_char_size (Some (c # s))) (c # s)"
    have u: "?u \<noteq> []" using utf8_char_size_pos [of "c # s"] by simp
    have l: "length ?u + length (utf8_skip (c # s)) = Suc (length s)"
      unfolding utf8_skip_def using length_append [of ?u "drop (utf8_char_size (Some (c # s))) (c # s)"] by simp
    obtain st' where st': "shell_step room ?u st = Some st'" "length (sh_temp st') \<le> length (sh_temp st) + 2 * length ?u"
      using shell_step_room [OF u, of st room] 2(2) l by fastforce
    have "string_split_shell_loop room (utf8_skip (c # s)) st' \<noteq> None"
    proof (rule 2(1))
      show "shell_step room ?u st = Some st'" by (rule st'(1))
      show "length (sh_temp st') + 2 * length (utf8_skip (c # s)) \<le> room"
        using st'(2) 2(2) l unfolding list.size(4) by (simp del: length_take)
    qed
    then show ?case using st'(1) by simp
  qed simp
  then have total: "\<exists>st. string_split_shell_loop (2 * length s) s
      \<lparr>sh_state = CHR '' '', sh_escapedstate = CHR '' '', sh_quoted = False, sh_temp = [], sh_args = []\<rparr> = Some st" for s
    by simp
  show ?thesis
  proof (cases string)
    case (Some s)
    then show ?thesis using total [of s] by (auto simp: string_split_shell_def Let_def)
  qed (simp add: string_split_shell_def)
qed

lemma shell_loop_char:
  assumes "utf8_scalar v"
  shows "string_split_shell_loop room (utf8_int_string v @ s) st =
    Option.bind (shell_step room (utf8_int_string v) st) (string_split_shell_loop room s)"
proof -
  have v: "0 < v" "v \<le> 0x1FFFFF" "utf8_int_string v \<noteq> []"
    using assms utf8_int_string_nonempty [of v] by (auto simp: utf8_scalar_def)
  then obtain c t where ct: "utf8_int_string v @ s = c # t" by (cases "utf8_int_string v") auto
  show ?thesis
    using utf8_char_size_int_string [OF v(1,2), of s] unfolding ct
    by (simp add: utf8_skip_def) (simp add: ct [symmetric])
qed

declare string_split_shell_loop.simps(2) [simp del]

lemma shell_loop_ascii:
  assumes "0 < byte c" "byte c < 128"
  shows "string_split_shell_loop room (c # s) st = Option.bind (shell_step room [c] st) (string_split_shell_loop room s)"
proof -
  have "utf8_int_string (byte c) = [c]" using assms by (cases "c = NUL") (simp_all add: utf8_int_string_arith)
  moreover have "utf8_scalar (byte c)" using assms unfolding utf8_scalar_def by linarith
  ultimately show ?thesis using shell_loop_char [of "byte c" room s st] by simp
qed

text \<open>An argument as the shell wants it: between single quotes, those inside between double quotes.\<close>

definition shell_quoted :: "cstr \<Rightarrow> cstr" where
  "shell_quoted s = concat (map (\<lambda>c. if c = CHR 0x27 then [CHR 0x27, CHR 0x22, CHR 0x27, CHR 0x22, CHR 0x27] else [c]) s)"

definition shell_quote :: "cstr \<Rightarrow> cstr" where
  "shell_quote s = CHR 0x27 # shell_quoted s @ [CHR 0x27]"

lemma int_string_quote:
  assumes "utf8_scalar v"
  shows "utf8_int_string v = [CHR 0x27] \<or> CHR 0x27 \<notin> set (utf8_int_string v)"
proof -
  have v: "0 < v" "v \<le> 0x1FFFFF" using assms by (auto simp: utf8_scalar_def)
  have c: "chr n \<noteq> CHR 0x27" if "127 < n" "n < 256" for n
  proof
    assume "chr n = CHR 0x27"
    then have "byte (chr n) = 39" by simp
    then show False using that by simp
  qed
  have one: "w < 128 \<Longrightarrow> [chr w] = [CHR 0x27] \<or> CHR 0x27 \<notin> set [chr w]" for w by auto
  from v show ?thesis
    by (cases rule: utf8_int_string_cases) (use one c [symmetric] in \<open>auto simp: not_less\<close>)
qed

lemma shell_loop_quoted:
  assumes "list_all utf8_scalar vs" "sh_state st = CHR 0x27" "length (sh_temp st) + length (concat (map utf8_int_string vs)) \<le> room"
  shows "string_split_shell_loop room (shell_quoted (concat (map utf8_int_string vs)) @ rest) st =
    string_split_shell_loop room rest
      (st\<lparr>sh_temp := sh_temp st @ concat (map utf8_int_string vs), sh_quoted := sh_quoted st \<or> vs \<noteq> []\<rparr>)"
  using assms
proof (induction vs arbitrary: st)
  case (Cons v vs)
  let ?u = "utf8_int_string v"
  let ?t = "concat (map utf8_int_string vs)"
  have v: "utf8_scalar v" "list_all utf8_scalar vs" using Cons.prems(1) by auto
  have app: "shell_quoted (?u @ ?t) = shell_quoted ?u @ shell_quoted ?t" by (simp add: shell_quoted_def)
  let ?st = "st\<lparr>sh_temp := sh_temp st @ ?u, sh_quoted := True\<rparr>"
  have "string_split_shell_loop room (shell_quoted ?u @ shell_quoted ?t @ rest) st =
      string_split_shell_loop room (shell_quoted ?t @ rest) ?st"
    using int_string_quote [OF v(1)]
  proof
    assume "?u = [CHR 0x27]"
    then show ?thesis using Cons.prems(2,3)
      by (cases st) (simp add: shell_quoted_def shell_loop_ascii shell_defs Let_def)
  next
    assume n: "CHR 0x27 \<notin> set ?u"
    have "CHR 0x27 \<notin> set w \<Longrightarrow> shell_quoted w = w" for w by (induction w) (auto simp: shell_quoted_def)
    then have q: "shell_quoted ?u = ?u" using n by simp
    have "hd ?u \<noteq> CHR 0x27" using n utf8_int_string_nonempty [OF v(1)] by (metis hd_in_set)
    then show ?thesis using Cons.prems(2,3) unfolding q shell_loop_char [OF v(1)]
      by (cases st) (simp add: shell_defs Let_def)
  qed
  also have "\<dots> = string_split_shell_loop room rest (?st\<lparr>sh_temp := sh_temp ?st @ ?t, sh_quoted := sh_quoted ?st \<or> vs \<noteq> []\<rparr>)"
    by (rule Cons.IH [OF v(2)]) (use Cons.prems(2,3) in simp_all)
  finally show ?case using app by simp
qed (simp add: shell_quoted_def)

lemma shell_loop_quote:
  assumes "utf8_text s" "sh_state st = CHR '' ''" "sh_temp st = []" "length s \<le> room"
  shows "string_split_shell_loop room (shell_quote s @ rest) st =
    string_split_shell_loop room rest (st\<lparr>sh_state := CHR ''a'', sh_quoted := True, sh_temp := s\<rparr>)"
proof -
  obtain vs where vs: "list_all utf8_scalar vs" "s = concat (map utf8_int_string vs)" using assms(1) by (auto simp: utf8_text_def)
  show ?thesis
    using shell_loop_quoted [OF vs(1), of "st\<lparr>sh_state := CHR 0x27\<rparr>" room "CHR 0x27 # rest"] assms(2-4)
    by (cases st) (simp add: shell_quote_def shell_loop_ascii shell_defs Let_def vs(2) [symmetric])
qed

lemma shell_loop_join:
  assumes "list_all utf8_text args" "args \<noteq> []" "\<forall>s\<in>set args. length s \<le> room"
    "sh_state st = CHR '' ''" "sh_temp st = []" "\<not> sh_quoted st" "sh_escapedstate st = CHR '' ''"
  shows "string_split_shell_loop room (string_build_loop (map shell_quote args) (Some '' '')) st =
    Some (st\<lparr>sh_state := CHR ''a'', sh_quoted := True, sh_temp := last args, sh_args := sh_args st @ butlast args\<rparr>)"
  using assms
proof (induction args arbitrary: st rule: induct_list012)
  case (2 s)
  then show ?case using shell_loop_quote [of s st room "[]"] by simp
next
  case (3 s t ss)
  let ?rest = "string_build_loop (map shell_quote (t # ss)) (Some '' '')"
  let ?st = "st\<lparr>sh_args := sh_args st @ [s]\<rparr>"
  have "string_split_shell_loop room (shell_quote s @ CHR '' '' # ?rest) st = string_split_shell_loop room ?rest ?st"
    using shell_loop_quote [of s st room "CHR '' '' # ?rest"] 3(3-)
    by (cases st) (simp add: shell_loop_ascii shell_defs Let_def)
  also have "\<dots> = Some (?st\<lparr>sh_state := CHR ''a'', sh_quoted := True, sh_temp := last (t # ss), sh_args := sh_args ?st @ butlast (t # ss)\<rparr>)"
    by (rule 3(2)) (use 3(3-) in simp_all)
  finally show ?case by simp
qed simp

lemma length_shell_quoted: "length s \<le> length (shell_quote s)"
proof -
  have "length s \<le> length (shell_quoted s)" by (induction s) (auto simp: shell_quoted_def)
  then show ?thesis by (simp add: shell_quote_def)
qed

lemma length_join_ge: "x \<in> set xs \<Longrightarrow> length x \<le> length (string_build_loop xs sep)"
  by (induction xs sep rule: string_build_loop.induct) force+

text \<open>
  Claim C26.  Arguments quoted for a shell and separated by spaces are found again by
  \<open>string_split_shell\<close>, whatever quotes, spaces and backslashes they hold, empty ones included.
\<close>

theorem string_split_shell_roundtrip:
  assumes "list_all utf8_text args" "args \<noteq> []"
  shows "string_split_shell (string_build_with_split_string (Some (map shell_quote args)) (Some '' '')) =
    Some (Some args, int (length args))"
proof -
  let ?s = "string_build_loop (map shell_quote args) (Some '' '')"
  let ?st = "\<lparr>sh_state = CHR '' '', sh_escapedstate = CHR '' '', sh_quoted = False, sh_temp = [], sh_args = []\<rparr>"
  have "length s \<le> 2 * length ?s" if "s \<in> set args" for s
    using length_join_ge [of "shell_quote s" "map shell_quote args" "Some '' ''"] length_shell_quoted [of s] that by simp
  then have "string_split_shell_loop (2 * length ?s) ?s ?st =
      Some (?st\<lparr>sh_state := CHR ''a'', sh_quoted := True, sh_temp := last args, sh_args := butlast args\<rparr>)"
    using shell_loop_join [OF assms, of "2 * length ?s" ?st] by simp
  then show ?thesis using assms(2)
    by (simp add: string_split_shell_def string_build_with_split_string_def Let_def)
qed

theorem string_split_shell_roundtrip_witness:
  "string_split_shell (string_build_with_split_string (Some (map shell_quote [utf8_int_string 0x20AC, []])) (Some '' '')) =
    Some (Some [utf8_int_string 0x20AC, []], 2)"
proof -
  have "utf8_text (utf8_int_string 0x20AC @ [])"
    by (rule utf8_text_Cons [OF _ utf8_text_Nil]) (simp add: utf8_scalar_def)
  then show ?thesis
    using string_split_shell_roundtrip [of "[utf8_int_string 0x20AC, []]"] utf8_text_Nil by simp
qed

end
