(* ===== verification/Hook_Api.thy ===== *)
theory Hook_Api
  imports Hook_Exec String_Split
begin

text \<open>
The execution of commands, \<open>hook_command_exec\<close> of \<open>src/core/hook/wee-hook-command.c\<close>: the hooks
on the run of the command, the split of the arguments, the choice of the command among the
plugins, and the call.  Then the calls that a plugin can make, and callbacks as programs over them.
\<close>

subsection \<open>The search of the command\<close>

text \<open>The results of the loop over the commands.\<close>

record command_found =
  hook_plugin :: "nat option"
  hook_other_plugin :: "nat option"
  hook_other_plugin2 :: "nat option"
  hook_incomplete_command :: "nat option"
  count_other_plugin :: int
  count_incomplete_commands :: int

definition command_found_init :: command_found where
  "command_found_init =
     \<lparr>hook_plugin = None, hook_other_plugin = None, hook_other_plugin2 = None, hook_incomplete_command = None,
      count_other_plugin = 0, count_incomplete_commands = 0\<rparr>"

text \<open>The body of the loop for a hook that is not deleted; \<open>allow\<close> is the option \<open>command_incomplete\<close>.\<close>

definition command_found_step ::
  "bool \<Rightarrow> nat option \<Rightarrow> cstr \<Rightarrow> bool \<Rightarrow> nat \<Rightarrow> hook \<Rightarrow> command_found \<Rightarrow> command_found option" where
  "command_found_step any_plugin plugin name allow a hk f = do {
     c \<leftarrow> HOOK_COMMAND hk;
     Some (
       if string_strcasecmp (Some name) (Some c) = 0 then
         (if hk_plugin hk = plugin then
            (if hook_plugin f = None then f\<lparr>hook_plugin := Some a\<rparr> else f)
          else if any_plugin then
            (let f = (if hook_other_plugin f = None then f\<lparr>hook_other_plugin := Some a\<rparr>
                      else if hook_other_plugin2 f = None then f\<lparr>hook_other_plugin2 := Some a\<rparr> else f)
             in f\<lparr>count_other_plugin := count_other_plugin f + 1\<rparr>)
          else f)
       else if allow \<and> string_strncasecmp (Some name) (Some c) (int (length name)) = 0 then
         f\<lparr>hook_incomplete_command := Some a, count_incomplete_commands := count_incomplete_commands f + 1\<rparr>
       else f) }"

partial_function (option) hook_command_find_loop ::
  "bool \<Rightarrow> nat option \<Rightarrow> cstr \<Rightarrow> bool \<Rightarrow> hook heap \<Rightarrow> nat option \<Rightarrow> command_found \<Rightarrow> command_found option" where
  "hook_command_find_loop any_plugin plugin name allow h ptr_hook f =
     (case ptr_hook of
        None \<Rightarrow> Some f
      | Some a \<Rightarrow> do {
          it \<leftarrow> h a;
          f \<leftarrow> (if \<not> hk_deleted (payload it)
               then command_found_step any_plugin plugin name allow a (payload it) f else Some f);
          hook_command_find_loop any_plugin plugin name allow h (next_item it) f })"

declare hook_command_find_loop.simps [code]

definition HOOK_COMMAND_EXEC_OK :: int where "HOOK_COMMAND_EXEC_OK = 1"
definition HOOK_COMMAND_EXEC_ERROR :: int where "HOOK_COMMAND_EXEC_ERROR = 0"
definition HOOK_COMMAND_EXEC_NOT_FOUND :: int where "HOOK_COMMAND_EXEC_NOT_FOUND = - 1"
definition HOOK_COMMAND_EXEC_AMBIGUOUS_PLUGINS :: int where "HOOK_COMMAND_EXEC_AMBIGUOUS_PLUGINS = - 2"
definition HOOK_COMMAND_EXEC_AMBIGUOUS_INCOMPLETE :: int where "HOOK_COMMAND_EXEC_AMBIGUOUS_INCOMPLETE = - 3"
definition HOOK_COMMAND_EXEC_RUNNING :: int where "HOOK_COMMAND_EXEC_RUNNING = - 4"
definition HOOK_COMMAND_MAX_CALLS :: int where "HOOK_COMMAND_MAX_CALLS = 5"

text \<open>The priority of a hook; a \<open>NULL\<close> pointer is an invalid access.\<close>

definition hook_priority_at :: "hook heap \<Rightarrow> nat option \<Rightarrow> int option" where
  "hook_priority_at h p = do { a \<leftarrow> p; it \<leftarrow> h a; Some (hk_priority (payload it)) }"

text \<open>The choice of the command: the return code if none is executed, and the command.\<close>

definition hook_command_choose :: "hook heap \<Rightarrow> command_found \<Rightarrow> (int \<times> nat option) option" where
  "hook_command_choose h f =
     (if hook_plugin f \<noteq> None \<or> hook_other_plugin f \<noteq> None then do {
        ambiguous \<leftarrow>
          (if hook_plugin f = None \<and> count_other_plugin f > 1 then do {
             p \<leftarrow> hook_priority_at h (hook_other_plugin f);
             q \<leftarrow> hook_priority_at h (hook_other_plugin2 f);
             Some (p = q) }
           else Some False);
        if ambiguous then Some (HOOK_COMMAND_EXEC_AMBIGUOUS_PLUGINS, None)
        else if hook_plugin f \<noteq> None \<and> hook_other_plugin f \<noteq> None then do {
          p \<leftarrow> hook_priority_at h (hook_other_plugin f);
          q \<leftarrow> hook_priority_at h (hook_plugin f);
          Some (HOOK_COMMAND_EXEC_NOT_FOUND, if p > q then hook_other_plugin f else hook_plugin f) }
        else Some (HOOK_COMMAND_EXEC_NOT_FOUND,
                   if hook_plugin f \<noteq> None then hook_plugin f else hook_other_plugin f) }
      else if hook_incomplete_command f \<noteq> None then
        (if count_incomplete_commands f = 1 then Some (HOOK_COMMAND_EXEC_NOT_FOUND, hook_incomplete_command f)
         else Some (HOOK_COMMAND_EXEC_AMBIGUOUS_INCOMPLETE, None))
      else Some (HOOK_COMMAND_EXEC_NOT_FOUND, None))"


subsection \<open>The execution of the command\<close>

text \<open>A command may be running several times, up to a limit.\<close>

definition hook_command_call :: "callbacks \<Rightarrow> nat \<Rightarrow> cstr list \<Rightarrow> hooks \<Rightarrow> (hooks \<times> int outcome) option" where
  "hook_command_call cb a args s = do {
     it \<leftarrow> hooks_heap s a;
     if hk_running (payload it) \<ge> HOOK_COMMAND_MAX_CALLS then Some (s, Returned HOOK_COMMAND_EXEC_RUNNING)
     else do {
       s \<leftarrow> hook_update s a (\<lambda>hk. hk\<lparr>hk_running := hk_running hk + 1\<rparr>);
       (s, r) \<leftarrow> cb (hk_callback (payload it)) args s;
       case r of
         Running \<Rightarrow> Some (s, Running)
       | Returned v \<Rightarrow> do {
           s \<leftarrow> hook_update s a (\<lambda>hk. hk\<lparr>hk_running := hk_running hk - 1\<rparr>);
           Some (s, Returned (if rp_rc v = WHOREIRC_RC_ERROR then HOOK_COMMAND_EXEC_ERROR else HOOK_COMMAND_EXEC_OK)) } } }"

text \<open>Between \<open>hook_exec_start\<close> and \<open>hook_exec_end\<close>.\<close>

definition hook_command_find_exec ::
  "callbacks \<Rightarrow> bool \<Rightarrow> bool \<Rightarrow> nat option \<Rightarrow> cstr \<Rightarrow> cstr list \<Rightarrow> hooks \<Rightarrow> (hooks \<times> int outcome) option" where
  "hook_command_find_exec cb allow any_plugin plugin name args s = do {
     found \<leftarrow> hook_command_find_loop any_plugin plugin name allow (hooks_heap s)
       (weechat_hooks s HOOK_TYPE_COMMAND) command_found_init;
     (rc, ptr_hook) \<leftarrow> hook_command_choose (hooks_heap s) found;
     case ptr_hook of
       None \<Rightarrow> Some (s, Returned rc)
     | Some a \<Rightarrow> hook_command_call cb a args s }"

text \<open>
  The callback gets the arguments and, after them, the arguments up to the end of the line.  The
  buffer of the command is not modelled.
\<close>

definition hook_command_exec ::
  "callbacks \<Rightarrow> nat \<Rightarrow> bool \<Rightarrow> bool \<Rightarrow> nat option \<Rightarrow> cstr option \<Rightarrow> hooks \<Rightarrow> (hooks \<times> int outcome) option" where
  "hook_command_exec cb n allow any_plugin plugin string s =
     (case string of
        None \<Rightarrow> Some (s, Returned HOOK_COMMAND_EXEC_NOT_FOUND)
      | Some str \<Rightarrow>
          if str = [] then Some (s, Returned HOOK_COMMAND_EXEC_NOT_FOUND)
          else do {
            (s, r) \<leftarrow> hook_command_run_exec cb n str s;
            case r of
              Running \<Rightarrow> Some (s, Running)
            | Returned rc \<Rightarrow>
                if rc = WHOREIRC_RC_OK_EAT then Some (s, Returned HOOK_COMMAND_EXEC_OK)
                else do {
                  (argv, argc) \<leftarrow> string_split string (Some '' '') None {STRIP_LEFT, STRIP_RIGHT, COLLAPSE_SEPS} 0;
                  if argc = 0 then Some (s, Returned HOOK_COMMAND_EXEC_NOT_FOUND)
                  else do {
                    (argv_eol, _) \<leftarrow> string_split string (Some '' '') None
                      {STRIP_LEFT, STRIP_RIGHT, COLLAPSE_SEPS, KEEP_EOL} 0;
                    args \<leftarrow> argv;
                    args_eol \<leftarrow> argv_eol;
                    command \<leftarrow> (case args of [] \<Rightarrow> None | c # _ \<Rightarrow> Some c);
                    let s = hook_exec_start s;
                    (s, r) \<leftarrow> hook_command_find_exec cb allow any_plugin plugin (utf8_skip command) (args @ args_eol) s;
                    case r of
                      Running \<Rightarrow> Some (s, Running)
                    | Returned rc \<Rightarrow> do { s \<leftarrow> hook_exec_end s; Some (s, Returned rc) } } } })"

subsection \<open>The interface of the plugins, and callbacks as programs\<close>

text \<open>The calls that a plugin can make.\<close>

datatype api =
  Api_hook_signal "nat option" "cstr option" "nat option"
| Api_hook_hsignal "nat option" "cstr option" "nat option"
| Api_hook_config "nat option" cstr "nat option"
| Api_hook_completion "nat option" "cstr option" "nat option"
| Api_hook_modifier "nat option" "cstr option" "nat option"
| Api_hook_info "nat option" "cstr option" "nat option"
| Api_hook_info_hashtable "nat option" "cstr option" "nat option"
| Api_hook_infolist "nat option" "cstr option" "nat option"
| Api_hook_hdata "nat option" "cstr option" "nat option"
| Api_hook_command "nat option" cstr "nat option"
| Api_hook_command_run "nat option" cstr "nat option"
| Api_hook_timer "nat option" clock int int int "nat option"
| Api_hook_fd "nat option" int bool bool bool "nat option"
| Api_hook_set_subplugin "nat option" cstr
| Api_unhook "nat option"
| Api_unhook_all_plugin "nat option" "cstr option"
| Api_unhook_all
| Api_signal_send cstr
| Api_hsignal_send cstr
| Api_config_exec cstr cstr
| Api_completion_exec cstr
| Api_modifier_exec "cstr option" cstr cstr
| Api_info_get "cstr option" cstr
| Api_info_get_hashtable "cstr option"
| Api_infolist_get "cstr option" cstr
| Api_hdata_get "nat option" "cstr option"
| Api_timer_exec clock
| Api_fd_exec clock "int \<Rightarrow> bool" int "(int \<times> nat) list \<Rightarrow> int \<Rightarrow> bool list option" bool
| Api_command_exec bool bool "nat option" cstr

definition finished :: "(hooks \<times> 'a) option \<Rightarrow> (hooks \<times> unit outcome) option" where
  "finished r = map_option (\<lambda>(s, _). (s, Returned ())) r"

definition ignored :: "(hooks \<times> 'a outcome) option \<Rightarrow> (hooks \<times> unit outcome) option" where
  "ignored r = map_option (\<lambda>(s, r). (s, map_outcome (\<lambda>_. ()) r)) r"

definition done_with :: "hooks option \<Rightarrow> (hooks \<times> unit outcome) option" where
  "done_with r = map_option (\<lambda>s. (s, Returned ())) r"

fun run_api :: "callbacks \<Rightarrow> nat \<Rightarrow> api \<Rightarrow> hooks \<Rightarrow> (hooks \<times> unit outcome) option" where
  "run_api cb n (Api_hook_signal p m f) s = finished (hook_signal s p m f)"
| "run_api cb n (Api_hook_hsignal p m f) s = finished (hook_hsignal s p m f)"
| "run_api cb n (Api_hook_config p m f) s = finished (hook_config s p (Some m) f)"
| "run_api cb n (Api_hook_completion p m f) s = finished (hook_completion s p m f)"
| "run_api cb n (Api_hook_modifier p m f) s = finished (hook_modifier s p m f)"
| "run_api cb n (Api_hook_info p m f) s = finished (hook_info s p m f)"
| "run_api cb n (Api_hook_info_hashtable p m f) s = finished (hook_info_hashtable s p m f)"
| "run_api cb n (Api_hook_infolist p m f) s = finished (hook_infolist s p m f)"
| "run_api cb n (Api_hook_hdata p m f) s = finished (hook_hdata s p m f)"
| "run_api cb n (Api_hook_command p m f) s = finished (hook_command s p (Some m) f)"
| "run_api cb n (Api_hook_command_run p m f) s = finished (hook_command_run s p (Some m) f)"
| "run_api cb n (Api_hook_timer p ck i a m f) s = finished (hook_timer s p ck i a m f)"
| "run_api cb n (Api_hook_fd p fd r w e f) s = finished (hook_fd s p fd r w e f)"
| "run_api cb n (Api_hook_set_subplugin a v) s = done_with (hook_set_subplugin s a v)"
| "run_api cb n (Api_unhook a) s = done_with (unhook s a)"
| "run_api cb n (Api_unhook_all_plugin p sub) s = done_with (unhook_all_plugin s p sub)"
| "run_api cb n Api_unhook_all s = done_with (unhook_all s)"
| "run_api cb n (Api_signal_send m) s = ignored (hook_signal_send cb n m s)"
| "run_api cb n (Api_hsignal_send m) s = ignored (hook_hsignal_send cb n m s)"
| "run_api cb n (Api_config_exec m v) s = ignored (hook_config_exec cb n m v s)"
| "run_api cb n (Api_completion_exec m) s = ignored (hook_completion_exec cb n m s)"
| "run_api cb n (Api_modifier_exec m d v) s = ignored (hook_modifier_exec cb n m d v s)"
| "run_api cb n (Api_info_get m v) s = ignored (hook_info_get cb n m v s)"
| "run_api cb n (Api_info_get_hashtable m) s = ignored (hook_info_get_hashtable cb n m s)"
| "run_api cb n (Api_infolist_get m v) s = ignored (hook_infolist_get cb n m v s)"
| "run_api cb n (Api_hdata_get k m) s = ignored (hook_hdata_get cb n k m s)"
| "run_api cb n (Api_timer_exec ck) s = ignored (hook_timer_exec cb n ck s)"
| "run_api cb n (Api_fd_exec ck bad e poll pend) s = ignored (hook_fd_exec cb n ck bad e poll pend s)"
| "run_api cb n (Api_command_exec allow any p str) s =
     ignored (hook_command_exec cb n allow any p (Some (takeWhile (\<lambda>c. c \<noteq> NUL) str)) s)"

text \<open>The calls that execute a command; the string of a command ends at its first \<open>NUL\<close>.\<close>

fun runs_command :: "api \<Rightarrow> bool" where
  "runs_command (Api_command_exec allow any p str) = True"
| "runs_command _ = False"

fun run_apis :: "callbacks \<Rightarrow> nat \<Rightarrow> api list \<Rightarrow> hooks \<Rightarrow> (hooks \<times> unit outcome) option" where
  "run_apis cb n [] s = Some (s, Returned ())"
| "run_apis cb n (a # as) s = do {
     (s, r) \<leftarrow> run_api cb n a s;
     case r of Running \<Rightarrow> Some (s, Running) | Returned _ \<Rightarrow> run_apis cb n as s }"

text \<open>
  A callback as a program: from its arguments and the state it decides which calls it makes and
  what it returns.  Its calls may run other callbacks, and itself; \<open>n\<close> bounds the depth of the calls
  and the steps of the loops.
\<close>

type_synonym behaviour = "nat \<Rightarrow> cstr list \<Rightarrow> hooks \<Rightarrow> api list \<times> reply"

fun run_script :: "behaviour \<Rightarrow> nat \<Rightarrow> callbacks" where
  "run_script beh 0 c args s = Some (s, Running)"
| "run_script beh (Suc n) c args s =
     (let (acts, v) = beh c args s in do {
        (s, r) \<leftarrow> run_apis (run_script beh n) n acts s;
        Some (s, map_outcome (\<lambda>_. v) r) })"

end
