(* ===== verification/Hook_Safety.thy ===== *)
theory Hook_Safety
  imports Hook_Api
begin

text \<open>
  The execution of the hooks is safe whatever the callbacks do: they may add and remove hooks and
  execute others, and no access to a freed hook is made.  The contract of a callback is a locale;
  its instance is any callback written as a program over the interface of the plugins.
\<close>

subsection \<open>How the hooks evolve while a callback is executed\<close>

definition hook_same :: "hook \<Rightarrow> hook \<Rightarrow> bool" where
  "hook_same a b \<longleftrightarrow>
     hk_type b = hk_type a \<and> hk_priority b = hk_priority a \<and> hk_callback b = hk_callback a \<and>
     hk_plugin b = hk_plugin a \<and> (hk_deleted a \<longrightarrow> hk_deleted b)"

text \<open>No hook goes, new ones may come between the others, the order of the others stays.\<close>

definition hooks_evolve :: "hooks \<Rightarrow> (hook_type \<Rightarrow> nat list) \<Rightarrow> hooks \<Rightarrow> (hook_type \<Rightarrow> nat list) \<Rightarrow> bool" where
  "hooks_evolve s ch s' ch' \<longleftrightarrow>
     hook_exec_recursion s' = hook_exec_recursion s \<and>
     (\<forall>t. filter (\<lambda>a. a \<in> set (ch t)) (ch' t) = ch t) \<and>
     (\<forall>a hk. hook_map s a = Some hk \<longrightarrow> (\<exists>hk'. hook_map s' a = Some hk' \<and> hook_same hk hk'))"

lemma hook_same_refl [simp]: "hook_same a a"
  by (simp add: hook_same_def)

lemma hook_same_trans: "hook_same a b \<Longrightarrow> hook_same b c \<Longrightarrow> hook_same a c"
  by (auto simp: hook_same_def)

lemma evolve_refl [simp]: "hooks_evolve s ch s ch"
  by (simp add: hooks_evolve_def)

lemma evolve_trans:
  assumes "hooks_evolve s ch s' ch'" "hooks_evolve s' ch' s'' ch''"
  shows "hooks_evolve s ch s'' ch''"
proof -
  have "filter (\<lambda>a. a \<in> set (ch t)) (ch'' t) = ch t" for t
  proof -
    have e: "filter (\<lambda>a. a \<in> set (ch t)) (ch' t) = ch t" "filter (\<lambda>a. a \<in> set (ch' t)) (ch'' t) = ch' t"
      using assms by (simp_all add: hooks_evolve_def)
    then have sub: "set (ch t) \<subseteq> set (ch' t)" by (metis filter_is_subset)
    have "ch t = filter (\<lambda>a. a \<in> set (ch t)) (filter (\<lambda>a. a \<in> set (ch' t)) (ch'' t))"
      by (simp only: e)
    also have "\<dots> = filter (\<lambda>a. a \<in> set (ch t)) (ch'' t)"
      using sub by (auto intro: filter_cong)
    finally show ?thesis by simp
  qed
  then show ?thesis
    using assms unfolding hooks_evolve_def by (metis hook_same_trans)
qed

lemma evolve_set: "hooks_evolve s ch s' ch' \<Longrightarrow> a \<in> set (ch t) \<Longrightarrow> a \<in> set (ch' t)"
  unfolding hooks_evolve_def by (metis (lifting) filter_is_subset subset_iff)

lemma evolve_hook:
  "hooks_evolve s ch s' ch' \<Longrightarrow> hook_map s a = Some hk \<Longrightarrow> \<exists>hk'. hook_map s' a = Some hk' \<and> hook_same hk hk'"
  by (simp add: hooks_evolve_def)

lemma evolve_rec: "hooks_evolve s ch s' ch' \<Longrightarrow> hook_exec_recursion s' = hook_exec_recursion s"
  by (simp add: hooks_evolve_def)

lemma evolve_same_map:
  "hook_exec_recursion s' = hook_exec_recursion s \<Longrightarrow> hook_map s' = (hook_map s)(a \<mapsto> f hk) \<Longrightarrow> hook_map s a = Some hk
    \<Longrightarrow> hook_same hk (f hk) \<Longrightarrow> hooks_evolve s ch s' ch"
  by (auto simp: hooks_evolve_def)

text \<open>
  An operation is sound when it makes no invalid access and keeps the invariant; while a callback
  is executed, it also lets the hooks evolve only as above.
\<close>

definition sound :: "hooks \<Rightarrow> (hook_type \<Rightarrow> nat list) \<Rightarrow> (hooks \<times> 'a outcome) option \<Rightarrow> bool" where
  "sound s ch res \<longleftrightarrow> (\<exists>s' r ch'. res = Some (s', r) \<and> hooks_ok s' ch' \<and>
     (\<forall>v. r = Returned v \<longrightarrow> hook_exec_recursion s' = hook_exec_recursion s \<and>
       (0 < hook_exec_recursion s \<longrightarrow> hooks_evolve s ch s' ch')))"

lemma sound_Some:
  "hooks_ok s' ch' \<Longrightarrow> hook_exec_recursion s' = hook_exec_recursion s \<Longrightarrow>
    (0 < hook_exec_recursion s \<Longrightarrow> hooks_evolve s ch s' ch') \<Longrightarrow> sound s ch (Some (s', r))"
  unfolding sound_def by blast

lemma sound_skip: "hooks_ok s ch \<Longrightarrow> sound s ch (Some (s, r))"
  by (rule sound_Some [of s ch]) simp_all

lemma sound_Running: "hooks_ok s' ch' \<Longrightarrow> sound s ch (Some (s', Running))"
  by (auto simp: sound_def)

lemma soundE:
  assumes "sound s ch res"
  obtains s' ch' where "res = Some (s', Running)" "hooks_ok s' ch'"
  | s' ch' v where "res = Some (s', Returned v)" "hooks_ok s' ch'"
    "hook_exec_recursion s' = hook_exec_recursion s" "0 < hook_exec_recursion s \<Longrightarrow> hooks_evolve s ch s' ch'"
  using assms unfolding sound_def by (metis outcome.exhaust)

lemma sound_after:
  assumes "hook_exec_recursion s' = hook_exec_recursion s" "0 < hook_exec_recursion s \<Longrightarrow> hooks_evolve s ch s' ch'"
    and "sound s' ch' res"
  shows "sound s ch res"
  using assms(3)
proof (cases rule: soundE)
  case (2 s'' ch'' v)
  then show ?thesis
    using assms(1,2) evolve_trans by (auto intro!: sound_Some [of s'' ch''])
qed (simp add: sound_Running)

lemma sound_bind:
  assumes "sound s ch res"
    and "\<And>s' ch' v. hooks_ok s' ch' \<Longrightarrow> hook_exec_recursion s' = hook_exec_recursion s \<Longrightarrow>
      (0 < hook_exec_recursion s \<Longrightarrow> hooks_evolve s ch s' ch') \<Longrightarrow> sound s' ch' (f s' v)"
  shows "sound s ch (Option.bind res (\<lambda>(s', r). case r of Running \<Rightarrow> Some (s', Running) | Returned v \<Rightarrow> f s' v))"
  using assms(1)
proof (cases rule: soundE)
  case (2 s' ch' v)
  then show ?thesis using assms(2) [OF 2(2,3,4), of v] sound_after [of s' s ch ch' "f s' v"] by simp
qed (simp add: sound_Running)

lemma sound_map: "sound s ch res \<Longrightarrow> sound s ch (map_option (\<lambda>(s, r). (s, map_outcome f r)) res)"
  by (erule soundE) (auto intro: sound_Running sound_Some)

lemma sound_ignored [simp]: "sound s ch (ignored res) = sound s ch res"
proof -
  have "sound s ch (ignored res) \<Longrightarrow> sound s ch res"
  proof (cases res)
    case (Some x)
    obtain s' r where x: "x = (s', r)" by (cases x)
    assume "sound s ch (ignored res)"
    then show ?thesis by (cases r) (auto simp: Some x ignored_def sound_def)
  qed (simp add: ignored_def sound_def)
  then show ?thesis using sound_map [of s ch res "\<lambda>_. ()"] by (auto simp: ignored_def)
qed

subsection \<open>The operations that call nothing\<close>

lemma update_sound:
  assumes ok: "hooks_ok s ch" and a: "hook_map s a = Some hk"
    and f: "hk_type (f hk) = hk_type hk" "hook_ok (f hk)" "hk_deleted (f hk) = hk_deleted hk"
      "hk_priority (f hk) = hk_priority hk" "hook_name (f hk) = hook_name hk"
      "hk_callback (f hk) = hk_callback hk" "hk_plugin (f hk) = hk_plugin hk"
  obtains s' where "hook_update s a f = Some s'" "hooks_ok s' ch" "hooks_evolve s ch s' ch"
    "hook_map s' = (hook_map s)(a \<mapsto> f hk)" "hook_exec_recursion s' = hook_exec_recursion s"
proof -
  obtain s' where s': "hook_update s a f = Some s'" "hooks_ok s' ch" "hook_map s' = (hook_map s)(a \<mapsto> f hk)"
    "hook_exec_recursion s' = hook_exec_recursion s"
    using hooks_ok_update [of s ch a hk f, OF ok a f(1-5)] by metis
  have "hooks_evolve s ch s' ch"
    by (rule evolve_same_map [of _ _ _ f hk, OF s'(4,3) a]) (use f in \<open>simp add: hook_same_def\<close>)
  then show ?thesis using s' that by blast
qed

lemma create_sound:
  assumes ok: "hooks_ok s ch" and hk: "hook_ok hk" "\<not> hk_deleted hk"
  shows "\<exists>s' a ch'. hook_create s hk = Some (s', a) \<and> hooks_ok s' ch' \<and> hooks_evolve s ch s' ch'"
proof -
  note l = hooks_okD(1) [OF ok]
  let ?a = "hooks_break s" and ?t = "hk_type hk"
  let ?ch = "ch(?t := chain_insert (hook_map s) hk ?a (ch ?t))"
  obtain s' where s': "hook_create s hk = Some (s', ?a)" "hooks_ok s' ?ch" "hook_map s' = (hook_map s)(?a \<mapsto> hk)"
    "hook_exec_recursion s' = hook_exec_recursion s"
    using hook_create_ok [OF ok hk] by metis
  have fresh: "hook_map s ?a = None"
  proof (cases "hook_map s ?a")
    case (Some q)
    then show ?thesis using hooks_okD(3) [OF ok Some] by simp
  qed simp
  then have "?a \<notin> set (ch t)" for t using linksD(2) [OF l, of ?a t] by auto
  then have "filter (\<lambda>b. b \<in> set (ch t)) (?ch t) = ch t" for t
    by (simp add: filter_chain_insert)
  then have "hooks_evolve s ch s' ?ch"
    using s'(3,4) fresh by (auto simp: hooks_evolve_def)
  then show ?thesis using s' by blast
qed

lemma removed_sound:
  assumes "hooks_ok s' (removed_chain (hook_exec_recursion s = 0) Q ch)"
    and "hook_map s' = removed_map (hook_exec_recursion s = 0) Q (hook_map s)"
    and "hook_exec_recursion s' = hook_exec_recursion s"
  shows "sound s ch (done_with (Some s'))"
proof -
  have "hooks_evolve s ch s' (removed_chain (hook_exec_recursion s = 0) Q ch)" if "0 < hook_exec_recursion s"
    using that assms(2,3) by (auto simp: hooks_evolve_def removed_chain_def removed_map_def hook_same_def)
  then show ?thesis
    unfolding done_with_def option.map by (intro sound_Some [OF assms(1,3)])
qed

lemma unhook_sound: "hooks_ok s ch \<Longrightarrow> sound s ch (done_with (unhook s p))"
  by (erule unhook_removed [of s ch p]) (simp only: removed_sound)

lemma unhook_all_plugin_sound: "hooks_ok s ch \<Longrightarrow> sound s ch (done_with (unhook_all_plugin s p sub))"
  by (erule unhook_all_plugin_ok [of s ch p sub]) (simp only: removed_sound)

lemma unhook_all_sound: "hooks_ok s ch \<Longrightarrow> sound s ch (done_with (unhook_all s))"
  by (erule unhook_all_ok [of s ch]) (simp only: removed_sound)

lemma hook_set_subplugin_sound:
  assumes ok: "hooks_ok s ch"
  shows "sound s ch (done_with (hook_set_subplugin s p v))"
proof (cases p)
  case None
  then show ?thesis using ok by (simp add: hook_set_subplugin_def hook_valid_None done_with_def sound_skip)
next
  case (Some a)
  show ?thesis
  proof (cases "\<exists>hk. hook_map s a = Some hk \<and> \<not> hk_deleted hk")
    case True
    then obtain hk where hk: "hook_map s a = Some hk" "\<not> hk_deleted hk" by blast
    let ?f = "\<lambda>hk. hk\<lparr>hk_subplugin := Some v\<rparr>"
    have "hook_ok hk" by (rule hooks_okD(4) [OF ok hk(1)])
    then have f: "hook_ok (?f hk)" using hk(2) by (auto simp: hook_ok_def split: option.splits)
    have n: "hook_name (?f hk) = hook_name hk" by (simp add: hook_name_def)
    obtain s' where "hook_update s a ?f = Some s'" "hooks_ok s' ch" "hooks_evolve s ch s' ch"
      using update_sound [of s ch a hk ?f] ok hk f n by auto
    then show ?thesis using True
      by (simp add: hook_set_subplugin_def Some hook_valid_ok [OF ok] done_with_def sound_Some evolve_rec)
  qed (use ok in \<open>auto simp: hook_set_subplugin_def Some hook_valid_ok [OF ok] done_with_def sound_skip\<close>)
qed

text \<open>Hooks of a type whose data is of the type.\<close>

lemma named_sound:
  assumes ok: "hooks_ok s ch" and d: "\<And>x. hook_data_ok t (mk x)"
  shows "sound s ch (finished (hook_named s p t (Some name) cb mk))"
proof -
  obtain pr nm where g: "hook_get_priority_and_name (Some name) = Some (pr, nm)"
    by (simp add: hook_get_priority_and_name_def) (metis surj_pair)
  let ?hk = "hook_init_data p t pr cb (mk nm)"
  have "hook_ok ?hk" "\<not> hk_deleted ?hk"
    using d by (simp_all add: hook_init_data_def hook_ok_def)
  from create_sound [OF ok this] obtain s' a ch' where
    "hook_create s ?hk = Some (s', a)" "hooks_ok s' ch'" "hooks_evolve s ch s' ch'" by blast
  then show ?thesis
    by (simp add: hook_named_def g finished_def sound_Some evolve_rec)
qed

lemma finished_None: "hooks_ok s ch \<Longrightarrow> sound s ch (finished (Some (s, x)))"
  by (simp add: finished_def sound_skip)

lemma creation_sound:
  assumes "hooks_ok s ch"
  shows "sound s ch (finished (hook_signal s p m f))" "sound s ch (finished (hook_hsignal s p m f))"
    "sound s ch (finished (hook_config s p (Some n) f))" "sound s ch (finished (hook_completion s p m f))"
    "sound s ch (finished (hook_modifier s p m f))" "sound s ch (finished (hook_info s p m f))"
    "sound s ch (finished (hook_info_hashtable s p m f))" "sound s ch (finished (hook_infolist s p m f))"
    "sound s ch (finished (hook_hdata s p m f))" "sound s ch (finished (hook_command_run s p (Some n) f))"
  using assms
  by (auto simp: hook_signal_def hook_hsignal_def hook_config_def hook_completion_def hook_modifier_def
    hook_info_def hook_info_hashtable_def hook_infolist_def hook_hdata_def hook_command_run_def
    intro!: named_sound finished_None split: option.splits)

lemma command_search_seg:
  assumes "seg h q xs None" "\<And>a. a \<in> set xs \<Longrightarrow> \<exists>hk. payload_map h a = Some hk \<and> hook_ok hk \<and> hk_type hk = HOOK_TYPE_COMMAND"
  shows "\<exists>r. hook_command_search_loop h (first_or xs None) p c = Some r"
  using assms
proof (induction xs arbitrary: q)
  case (Cons a xs)
  then obtain it where it: "h a = Some it" "next_item it = first_or xs None" and sg: "seg h (Some a) xs None"
    by auto
  have "\<exists>hk. payload_map h a = Some hk \<and> hook_ok hk \<and> hk_type hk = HOOK_TYPE_COMMAND" by (rule Cons.prems(2)) simp
  then have "hook_ok (payload it)" "hk_type (payload it) = HOOK_TYPE_COMMAND" using it by (auto simp: payload_map_def)
  then have c: "\<not> hk_deleted (payload it) \<Longrightarrow> HOOK_COMMAND (payload it) \<noteq> None"
    by (auto simp: hook_ok_def HOOK_COMMAND_def split: option.splits hook_data.splits)
  have IH: "\<exists>r. hook_command_search_loop h (first_or xs None) p c = Some r"
    by (rule Cons.IH [OF sg]) (use Cons.prems(2) in simp)
  show ?case
    using IH c by (subst hook_command_search_loop.simps) (auto simp: it)
qed (subst hook_command_search_loop.simps, simp)

lemma fd_search_seg:
  assumes "seg h q xs None" "\<And>a. a \<in> set xs \<Longrightarrow> \<exists>hk. payload_map h a = Some hk \<and> hook_ok hk \<and> hk_type hk = HOOK_TYPE_FD"
  shows "\<exists>r. hook_fd_search_loop h (first_or xs None) fd = Some r"
  using assms
proof (induction xs arbitrary: q)
  case (Cons a xs)
  then obtain it where it: "h a = Some it" "next_item it = first_or xs None" and sg: "seg h (Some a) xs None"
    by auto
  have "\<exists>hk. payload_map h a = Some hk \<and> hook_ok hk \<and> hk_type hk = HOOK_TYPE_FD" by (rule Cons.prems(2)) simp
  then have "hook_ok (payload it)" "hk_type (payload it) = HOOK_TYPE_FD" using it by (auto simp: payload_map_def)
  then have c: "\<not> hk_deleted (payload it) \<Longrightarrow> HOOK_FD (payload it) \<noteq> None"
    by (auto simp: hook_ok_def HOOK_FD_def split: option.splits hook_data.splits)
  have IH: "\<exists>r. hook_fd_search_loop h (first_or xs None) fd = Some r"
    by (rule Cons.IH [OF sg]) (use Cons.prems(2) in simp)
  show ?case
    using IH c by (subst hook_fd_search_loop.simps) (auto simp: it)
qed (subst hook_fd_search_loop.simps, simp)

lemma chain_hooks:
  assumes "hooks_ok s ch" "a \<in> set (ch t)"
  shows "\<exists>hk. hook_map s a = Some hk \<and> hook_ok hk \<and> hk_type hk = t"
  using linksD(2) [OF hooks_okD(1) [OF assms(1)] assms(2)] hooks_okD(4) [OF assms(1)] by blast

lemma chain_seg:
  assumes "hooks_ok s ch"
  shows "seg (hooks_heap s) None (ch t) None" "weechat_hooks s t = first_or (ch t) None"
  using linksD(1) [OF hooks_okD(1) [OF assms], of t] by (simp_all add: dlist_def)

lemma command_sound:
  assumes ok: "hooks_ok s ch"
  shows "sound s ch (finished (hook_command s p (Some n) f))"
proof (cases f)
  case (Some cb)
  obtain r where "hook_command_search s p (Some n) = Some r"
    using command_search_seg [of "hooks_heap s" None "ch HOOK_TYPE_COMMAND"] chain_seg [OF ok] chain_hooks [OF ok]
    unfolding hook_command_search_def by metis
  then show ?thesis
    using ok by (simp add: hook_command_def Some named_sound finished_None)
qed (use ok in \<open>simp add: hook_command_def finished_None\<close>)

lemma fd_sound:
  assumes ok: "hooks_ok s ch"
  shows "sound s ch (finished (hook_fd s p fd r w e f))"
proof -
  obtain q where q: "hook_fd_search s fd = Some q"
    using fd_search_seg [of "hooks_heap s" None "ch HOOK_TYPE_FD"] chain_seg [OF ok] chain_hooks [OF ok]
    unfolding hook_fd_search_def by metis
  have "sound s ch (finished (do { (s, a) \<leftarrow> hook_create s (hook_init_data p HOOK_TYPE_FD HOOK_PRIORITY_DEFAULT cb (Data_fd fd fl 0));
      Some (s, Some a) }))" for cb fl
  proof -
    have "hook_ok (hook_init_data p HOOK_TYPE_FD HOOK_PRIORITY_DEFAULT cb (Data_fd fd fl 0))"
      "\<not> hk_deleted (hook_init_data p HOOK_TYPE_FD HOOK_PRIORITY_DEFAULT cb (Data_fd fd fl 0))"
      by (simp_all add: hook_init_data_def hook_ok_def)
    from create_sound [OF ok this] show ?thesis
      by (auto simp: finished_def sound_Some evolve_rec)
  qed
  then show ?thesis
    using ok q by (auto simp: hook_fd_def finished_None Let_def split: option.splits)
qed

lemma timer_sound:
  assumes ok: "hooks_ok s ch"
  shows "sound s ch (finished (hook_timer s p ck i a m f))"
proof -
  have "sound s ch (finished (do { (s, a) \<leftarrow> hook_create s (hook_init_data p HOOK_TYPE_TIMER HOOK_PRIORITY_DEFAULT cb (Data_timer d));
      Some (s, Some a) }))" for cb d
  proof -
    have "hook_ok (hook_init_data p HOOK_TYPE_TIMER HOOK_PRIORITY_DEFAULT cb (Data_timer d))"
      "\<not> hk_deleted (hook_init_data p HOOK_TYPE_TIMER HOOK_PRIORITY_DEFAULT cb (Data_timer d))"
      by (simp_all add: hook_init_data_def hook_ok_def)
    from create_sound [OF ok this] show ?thesis
      by (auto simp: finished_def sound_Some evolve_rec)
  qed
  then show ?thesis
    using ok by (auto simp: hook_timer_def finished_None Let_def split: option.splits)
qed

lemma chain_item:
  assumes "hooks_ok s ch" "ch t = xs @ a # ys"
  obtains it where "hooks_heap s a = Some it" "next_item it = first_or ys None"
    "hook_map s a = Some (payload it)" "hook_ok (payload it)" "hk_type (payload it) = t"
proof -
  have d: "dlist (hooks_heap s) (weechat_hooks s t) (last_weechat_hook s t) (xs @ a # ys)"
    using linksD(1) [OF hooks_okD(1) [OF assms(1)], of t] assms(2) by simp
  then obtain it where it: "hooks_heap s a = Some it" "next_item it = first_or ys None" by (rule dlist_item)
  then show ?thesis
    using chain_hooks [OF assms(1), of a t] assms(2) that by (auto simp: payload_map_def)
qed

lemma timer_data:
  "hook_ok hk \<Longrightarrow> hk_type hk = HOOK_TYPE_TIMER \<Longrightarrow> \<not> hk_deleted hk \<Longrightarrow> \<exists>d. hk_data hk = Some (Data_timer d) \<and> HOOK_TIMER hk = Some d"
  by (cases "hk_data hk") (auto simp: hook_ok_def HOOK_TIMER_def split: hook_data.splits elim!: hook_data_ok.elims)

lemma timer_update_sound:
  assumes ok: "hooks_ok s ch" and a: "hook_map s a = Some hk" and t: "hk_type hk = HOOK_TYPE_TIMER" "\<not> hk_deleted hk"
  obtains s' where "timer_update s a f = Some s'" "hooks_ok s' ch" "hooks_evolve s ch s' ch"
    "\<exists>hk'. hook_map s' a = Some hk' \<and> \<not> hk_deleted hk' \<and> hk_type hk' = HOOK_TYPE_TIMER"
proof -
  have h: "hook_ok hk" by (rule hooks_okD(4) [OF ok a])
  obtain d where d: "hk_data hk = Some (Data_timer d)" "HOOK_TIMER hk = Some d"
    using timer_data [OF h t] by blast
  from a obtain it where it: "hooks_heap s a = Some it" "payload it = hk" by (auto dest: payload_map_SomeD)
  let ?f = "\<lambda>hk. hk\<lparr>hk_data := Some (Data_timer (f d))\<rparr>"
  have f: "hook_ok (?f hk)" using t by (simp add: hook_ok_def)
  have n: "hook_name (?f hk) = hook_name hk" using d by (simp add: hook_name_def)
  obtain s' where "hook_update s a ?f = Some s'" "hooks_ok s' ch" "hooks_evolve s ch s' ch"
    "hook_map s' = (hook_map s)(a \<mapsto> ?f hk)"
    using update_sound [of s ch a hk ?f] ok a f n by auto
  then show ?thesis
    using t by (intro that [of s']) (simp_all add: timer_update_def it d(2))
qed

lemma timer_reinit_sound:
  assumes "hooks_ok s ch" "ch HOOK_TYPE_TIMER = xs @ ys"
  shows "\<exists>s'. hook_timer_reinit_loop ck s (first_or ys None) = Some s' \<and> hooks_ok s' ch \<and> hooks_evolve s ch s' ch"
  using assms
proof (induction ys arbitrary: s xs)
  case (Cons a ys)
  obtain it where it: "hooks_heap s a = Some it" "next_item it = first_or ys None"
    "hook_map s a = Some (payload it)" "hook_ok (payload it)" "hk_type (payload it) = HOOK_TYPE_TIMER"
    by (rule chain_item [OF Cons.prems])
  have c: "ch HOOK_TYPE_TIMER = (xs @ [a]) @ ys" using Cons.prems(2) by simp
  show ?case
  proof (cases "hk_deleted (payload it)")
    case True
    then show ?thesis using Cons.IH [OF Cons.prems(1) c] it
      by (subst hook_timer_reinit_loop.simps) simp
  next
    case False
    obtain s1 where s1: "timer_update s a (hook_timer_init ck) = Some s1" "hooks_ok s1 ch" "hooks_evolve s ch s1 ch"
      by (rule timer_update_sound [OF Cons.prems(1) it(3) it(5) False])
    obtain it1 where it1: "hooks_heap s1 a = Some it1" "next_item it1 = first_or ys None"
      by (rule chain_item [OF s1(2) Cons.prems(2)])
    show ?thesis
      using Cons.IH [OF s1(2) c] evolve_trans [OF s1(3)] it s1(1) it1 False
      by (subst hook_timer_reinit_loop.simps) auto
  qed
qed (subst hook_timer_reinit_loop.simps, simp)

lemma hooks_ok_time [simp]: "hooks_ok (s\<lparr>hook_last_system_time := x\<rparr>) ch = hooks_ok s ch"
  by (simp add: hooks_ok_def hooks_links_def)

lemma evolve_time [simp]: "hooks_evolve s ch (s'\<lparr>hook_last_system_time := x\<rparr>) ch' = hooks_evolve s ch s' ch'"
  by (simp add: hooks_evolve_def)

lemma check_clock_sound:
  assumes ok: "hooks_ok s ch"
  obtains s' where "hook_timer_check_system_clock ck s = Some s'" "hooks_ok s' ch" "hooks_evolve s ch s' ch"
proof -
  have "ch HOOK_TYPE_TIMER = [] @ ch HOOK_TYPE_TIMER" by simp
  from timer_reinit_sound [OF ok this, of ck] obtain s1 where
    s1: "hook_timer_reinit_loop ck s (weechat_hooks s HOOK_TYPE_TIMER) = Some s1" "hooks_ok s1 ch" "hooks_evolve s ch s1 ch"
    using chain_seg(2) [OF ok, of HOOK_TYPE_TIMER] by auto
  show ?thesis
  proof (cases "ck_time ck - hook_last_system_time s \<le> - 10 \<or> ck_time ck - hook_last_system_time s \<ge> 10")
    case True
    then show ?thesis using s1
      by (intro that [of "s1\<lparr>hook_last_system_time := ck_time ck\<rparr>"]) (simp_all add: hook_timer_check_system_clock_def)
  next
    case False
    then show ?thesis using ok
      by (intro that [of "s\<lparr>hook_last_system_time := ck_time ck\<rparr>"]) (simp_all add: hook_timer_check_system_clock_def)
  qed
qed

lemma timer_next_sound:
  assumes ok: "hooks_ok s ch" and "ch HOOK_TYPE_TIMER = xs @ ys"
  shows "\<exists>r. hook_timer_next_loop (hooks_heap s) (first_or ys None) found = Some r"
  using assms(2)
proof (induction ys arbitrary: xs found)
  case (Cons a ys)
  obtain it where it: "hooks_heap s a = Some it" "next_item it = first_or ys None"
    "hook_map s a = Some (payload it)" "hook_ok (payload it)" "hk_type (payload it) = HOOK_TYPE_TIMER"
    by (rule chain_item [OF ok Cons.prems])
  have c: "ch HOOK_TYPE_TIMER = (xs @ [a]) @ ys" using Cons.prems by simp
  show ?case
    using Cons.IH [OF c] it timer_data [OF it(4,5)]
    by (subst hook_timer_next_loop.simps) auto
qed (subst hook_timer_next_loop.simps, simp)

text \<open>The timeout for \<open>poll\<close>: between 1 millisecond and 2 seconds.\<close>

lemma time_to_next_sound:
  assumes ok: "hooks_ok s ch"
  obtains s' r where "hook_timer_get_time_to_next ck s = Some (s', r)" "hooks_ok s' ch" "hooks_evolve s ch s' ch"
proof -
  obtain s1 where s1: "hook_timer_check_system_clock ck s = Some s1" "hooks_ok s1 ch" "hooks_evolve s ch s1 ch"
    by (rule check_clock_sound [OF ok])
  have "ch HOOK_TYPE_TIMER = [] @ ch HOOK_TYPE_TIMER" by simp
  from timer_next_sound [OF s1(2) this, of None] obtain r where
    "hook_timer_next_loop (hooks_heap s1) (weechat_hooks s1 HOOK_TYPE_TIMER) None = Some r"
    using chain_seg(2) [OF s1(2), of HOOK_TYPE_TIMER] by auto
  then show ?thesis using s1 that by (simp add: hook_timer_get_time_to_next_def Let_def)
qed

lemma fd_data:
  "hook_ok hk \<Longrightarrow> hk_type hk = HOOK_TYPE_FD \<Longrightarrow> \<not> hk_deleted hk \<Longrightarrow>
    \<exists>fd fl e. hk_data hk = Some (Data_fd fd fl e) \<and> HOOK_FD hk = Some (fd, fl, e)"
  by (cases "hk_data hk") (auto simp: hook_ok_def HOOK_FD_def split: hook_data.splits elim!: hook_data_ok.elims)

text \<open>The array for \<open>poll\<close> is large enough: it has an entry for each hook of the list.\<close>

lemma fd_poll_sound:
  assumes "hooks_ok s ch" "ch HOOK_TYPE_FD = xs @ ys" "length pfd \<le> length xs"
  shows "\<exists>s' l. hook_fd_poll_loop badfd ebadf s (first_or ys None) pfd = Some (s', l) \<and> hooks_ok s' ch \<and> hooks_evolve s ch s' ch"
  using assms
proof (induction ys arbitrary: s xs pfd)
  case (Cons a ys)
  obtain it where it: "hooks_heap s a = Some it" "next_item it = first_or ys None"
    "hook_map s a = Some (payload it)" "hook_ok (payload it)" "hk_type (payload it) = HOOK_TYPE_FD"
    by (rule chain_item [OF Cons.prems(1,2)])
  have c: "ch HOOK_TYPE_FD = (xs @ [a]) @ ys" using Cons.prems(2) by simp
  have cnt: "hook_fd_pollfd_count s = int (length xs) + 1 + int (length ys)"
    using hooks_okD(1) [OF Cons.prems(1)] Cons.prems(2) by (simp add: hooks_links_def)
  show ?case
  proof (cases "hk_deleted (payload it)")
    case True
    then show ?thesis using Cons.IH [OF Cons.prems(1) c, of pfd] Cons.prems(3) it
      by (subst hook_fd_poll_loop.simps) simp
  next
    case False
    obtain fd fl e where d: "hk_data (payload it) = Some (Data_fd fd fl e)" "HOOK_FD (payload it) = Some (fd, fl, e)"
      using fd_data [OF it(4,5) False] by blast
    show ?thesis
    proof (cases "badfd fd")
      case True
      let ?f = "\<lambda>hk. hk\<lparr>hk_data := Some (Data_fd fd fl ebadf)\<rparr>"
      have f: "hook_ok (?f (payload it))" using it(5) False by (simp add: hook_ok_def)
      have n: "hook_name (?f (payload it)) = hook_name (payload it)" using d by (simp add: hook_name_def)
      obtain s1 where s1: "hook_update s a ?f = Some s1" "hooks_ok s1 ch" "hooks_evolve s ch s1 ch"
        using update_sound [of s ch a "payload it" ?f] Cons.prems(1) it(3) f n by auto
      show ?thesis
        using Cons.IH [OF s1(2) c, of pfd] Cons.IH [OF Cons.prems(1) c, of pfd] Cons.prems(3)
          evolve_trans [OF s1(3)] it s1(1) False True d
        by (subst hook_fd_poll_loop.simps) auto
    next
      case ok: False
      have "int (length pfd) < hook_fd_pollfd_count s" using cnt Cons.prems(3) by simp
      then show ?thesis
        using Cons.IH [OF Cons.prems(1) c] Cons.prems(3) it False ok d
        by (subst hook_fd_poll_loop.simps) simp
    qed
  qed
qed (subst hook_fd_poll_loop.simps, simp)

subsection \<open>The contract of the callbacks\<close>

locale callbacks_ok =
  fixes cb :: callbacks
  assumes cb_sound: "hooks_ok s ch \<Longrightarrow> 0 < hook_exec_recursion s \<Longrightarrow> sound s ch (cb c args s)"
begin

lemma hook_call_sound:
  assumes ok: "hooks_ok s ch" and r: "0 < hook_exec_recursion s" and a: "hook_map s a = Some hk"
  shows "sound s ch (hook_call cb a args s)"
proof -
  from a obtain it where it: "hooks_heap s a = Some it" "payload it = hk" by (auto dest: payload_map_SomeD)
  have f: "hook_ok (hk\<lparr>hk_running := x\<rparr>)" "hook_name (hk\<lparr>hk_running := x\<rparr>) = hook_name hk"
    if "hook_ok hk" for hk x
    using that by (simp_all add: hook_ok_def hook_name_def split: option.splits)
  obtain s1 where s1: "hook_update s a (\<lambda>hk. hk\<lparr>hk_running := 1\<rparr>) = Some s1" "hooks_ok s1 ch" "hooks_evolve s ch s1 ch"
    by (rule update_sound [of s ch a hk "\<lambda>hk. hk\<lparr>hk_running := 1\<rparr>"]) (use ok a f hooks_okD(4) [OF ok a] in auto)
  have r1: "0 < hook_exec_recursion s1" using r evolve_rec [OF s1(3)] by simp
  have "sound s1 ch (Option.bind (cb (hk_callback hk) args s1) (\<lambda>(s, r). case r of Running \<Rightarrow> Some (s, Running)
      | Returned v \<Rightarrow> do { s \<leftarrow> hook_update s a (\<lambda>hk. hk\<lparr>hk_running := 0\<rparr>); Some (s, Returned v) }))"
  proof (rule sound_bind [OF cb_sound [OF s1(2) r1]])
    fix s2 ch2 v assume s2: "hooks_ok s2 ch2" "hook_exec_recursion s2 = hook_exec_recursion s1"
      "0 < hook_exec_recursion s1 \<Longrightarrow> hooks_evolve s1 ch s2 ch2"
    from evolve_trans [OF s1(3) s2(3) [OF r1]] a obtain hk2 where hk2: "hook_map s2 a = Some hk2"
      using evolve_hook by blast
    obtain s3 where "hook_update s2 a (\<lambda>hk. hk\<lparr>hk_running := 0\<rparr>) = Some s3" "hooks_ok s3 ch2" "hooks_evolve s2 ch2 s3 ch2"
      by (rule update_sound [of s2 ch2 a hk2 "\<lambda>hk. hk\<lparr>hk_running := 0\<rparr>"]) (use s2(1) hk2 f hooks_okD(4) [OF s2(1) hk2] in auto)
    then show "sound s2 ch2 (do { s \<leftarrow> hook_update s2 a (\<lambda>hk. hk\<lparr>hk_running := 0\<rparr>); Some (s, Returned v) })"
      by (simp add: sound_Some evolve_rec)
  qed
  then have "sound s1 ch (hook_call cb a args s)"
    by (simp add: hook_call_def it s1(1))
  then show ?thesis using s1(3) evolve_rec by (blast intro: sound_after)
qed

lemma call_body_sound:
  "hooks_ok s ch \<Longrightarrow> 0 < hook_exec_recursion s \<Longrightarrow> hook_map s a = Some hk \<Longrightarrow>
    sound s ch (call_body cb args f a acc s)"
  using sound_map [OF hook_call_sound, of s ch a hk "f acc" "args acc"]
  by (simp add: call_body_def map_option_case prod.case_distrib split: option.splits)

end

text \<open>The loop is safe when its test and its body are, on a hook of the list that is not deleted.\<close>

lemma hook_loop_sound:
  assumes ok: "hooks_ok s ch" and r: "0 < hook_exec_recursion s" and p: "\<And>a. ptr = Some a \<Longrightarrow> a \<in> set (ch t)"
    and sel: "\<And>hk. hook_ok hk \<Longrightarrow> hk_type hk = t \<Longrightarrow> \<not> hk_deleted hk \<Longrightarrow> sel hk \<noteq> None"
    and body: "\<And>s ch a hk acc. hooks_ok s ch \<Longrightarrow> 0 < hook_exec_recursion s \<Longrightarrow> hook_map s a = Some hk \<Longrightarrow>
      hk_type hk = t \<Longrightarrow> \<not> hk_deleted hk \<Longrightarrow> sound s ch (body a acc s)"
  shows "sound s ch (hook_loop sel body n s ptr acc)"
  using ok r p
proof (induction n arbitrary: s ch ptr acc)
  case 0
  then show ?case by (simp add: sound_skip)
next
  case (Suc n)
  show ?case
  proof (cases ptr)
    case None
    then show ?thesis using Suc.prems by (simp add: sound_skip)
  next
    case (Some a)
    then have a: "a \<in> set (ch t)" using Suc.prems(3) by simp
    then obtain xs ys where c: "ch t = xs @ a # ys" by (auto simp: in_set_conv_decomp)
    obtain it where it: "hooks_heap s a = Some it" "next_item it = first_or ys None"
      "hook_map s a = Some (payload it)" "hook_ok (payload it)" "hk_type (payload it) = t"
      by (rule chain_item [OF Suc.prems(1) c])
    have nx: "b \<in> set (ch t)" if "next_item it = Some b" for b
      using that it(2) c by (auto dest: first_or_mem)
    have skip: "sound s ch (hook_loop sel body n s (next_item it) acc)"
      by (rule Suc.IH [OF Suc.prems(1,2) nx])
    show ?thesis
    proof (cases "hk_deleted (payload it) \<or> hk_running (payload it) \<noteq> 0 \<or> sel (payload it) = Some False")
      case True
      then show ?thesis using skip by (auto simp: Some it)
    next
      case False
      then have s: "sel (payload it) = Some True" using sel [OF it(4,5)] by auto
      have b: "sound s ch (body a acc s)"
        using False by (intro body [OF Suc.prems(1,2) it(3) it(5)]) simp
      have "sound s ch (Option.bind (body a acc s) (\<lambda>(s, r). case r of Running \<Rightarrow> Some (s, Running)
          | Returned x \<Rightarrow> (\<lambda>s (acc, stop). if stop then Some (s, Returned acc) else hook_loop sel body n s (next_item it) acc) s x))"
      proof (rule sound_bind [OF b])
        fix s' ch' v assume s': "hooks_ok s' ch'" "hook_exec_recursion s' = hook_exec_recursion s"
          "0 < hook_exec_recursion s \<Longrightarrow> hooks_evolve s ch s' ch'"
        have "sound s' ch' (hook_loop sel body n s' (next_item it) acc)" for acc
          by (rule Suc.IH [OF s'(1)])
             (use s' Suc.prems(2) nx evolve_set [OF s'(3)] in auto)
        then show "sound s' ch' ((\<lambda>s (acc, stop). if stop then Some (s, Returned acc) else hook_loop sel body n s (next_item it) acc) s' v)"
          using s'(1) by (cases v) (simp add: sound_skip)
      qed
      moreover have "hook_loop sel body (Suc n) s (Some a) acc =
          (Option.bind (body a acc s) (\<lambda>(s, r). case r of Running \<Rightarrow> Some (s, Running)
          | Returned x \<Rightarrow> (\<lambda>s (acc, stop). if stop then Some (s, Returned acc) else hook_loop sel body n s (next_item it) acc) s x))"
        using False s by (simp add: it(1))
      ultimately show ?thesis by (simp add: Some)
    qed
  qed
qed

text \<open>What is sound after \<open>hook_exec_start\<close> is sound when \<open>hook_exec_end\<close> follows.\<close>

lemma exec_bracket_sound:
  assumes ok: "hooks_ok s ch" and res: "sound (hook_exec_start s) ch res"
  shows "sound s ch (Option.bind res (\<lambda>(s, r). case r of Running \<Rightarrow> Some (s, Running)
    | Returned v \<Rightarrow> do { s \<leftarrow> hook_exec_end s; Some (s, Returned v) }))"
proof -
  let ?s = "hook_exec_start s"
  have r: "hook_exec_recursion ?s = hook_exec_recursion s + 1" by (simp add: hook_exec_start_def)
  have pos: "0 < hook_exec_recursion ?s" using hooks_okD(6) [OF ok] r by simp
  have m: "hook_map ?s = hook_map s" by (simp add: hook_exec_start_def)
  from res show ?thesis
  proof (cases rule: soundE)
    case (1 s1 ch1)
    then show ?thesis by (simp add: sound_Running)
  next
    case (2 s1 ch1 v)
    have pos1: "0 < hook_exec_recursion s1" using 2(3) pos by simp
    obtain s2 where s2: "hook_exec_end s1 = Some s2" "hook_exec_recursion s2 = hook_exec_recursion s1 - 1"
      "hooks_ok s2 (if hook_exec_recursion s1 = 1 then \<lambda>u. filter (\<lambda>a. \<not> dead_in (hook_map s1) a) (ch1 u) else ch1)"
      "hook_map s2 = (if hook_exec_recursion s1 = 1 then without_dead (hook_map s1) else hook_map s1)"
      by (rule hook_exec_end_ok [OF 2(2) pos1])
    have "sound s ch (Some (s2, Returned v))"
    proof (cases "hook_exec_recursion s1 = 1")
      case True
      then show ?thesis using s2(2,3) 2(3) r
        by (intro sound_Some [of s2 "\<lambda>u. filter (\<lambda>a. \<not> dead_in (hook_map s1) a) (ch1 u)"]) simp_all
    next
      case False
      have "hooks_evolve s ch s2 ch1"
        using 2(4) [OF pos] s2(2,4) 2(3) r m False by (simp add: hooks_evolve_def)
      then show ?thesis using s2(2,3) 2(3) r False
        by (intro sound_Some [of s2 ch1]) simp_all
    qed
    then show ?thesis using 2(1) s2(1) by simp
  qed
qed

lemma hook_run_sound:
  assumes ok: "hooks_ok s ch"
    and sel: "\<And>hk. hook_ok hk \<Longrightarrow> hk_type hk = t \<Longrightarrow> \<not> hk_deleted hk \<Longrightarrow> sel hk \<noteq> None"
    and body: "\<And>s ch a hk acc. hooks_ok s ch \<Longrightarrow> 0 < hook_exec_recursion s \<Longrightarrow> hook_map s a = Some hk \<Longrightarrow>
      hk_type hk = t \<Longrightarrow> \<not> hk_deleted hk \<Longrightarrow> sound s ch (body a acc s)"
  shows "sound s ch (hook_run sel body n t acc s)"
proof -
  let ?s = "hook_exec_start s"
  have ok1: "hooks_ok ?s ch" by (rule hook_exec_start_ok [OF ok])
  have pos: "0 < hook_exec_recursion ?s" using hooks_okD(6) [OF ok] by (simp add: hook_exec_start_def)
  have w: "weechat_hooks ?s t = first_or (ch t) None" by (rule chain_seg(2) [OF ok1])
  have "sound ?s ch (hook_loop sel body n ?s (weechat_hooks ?s t) acc)"
    by (rule hook_loop_sound [OF ok1 pos _ sel body]) (use w in \<open>auto dest: first_or_mem\<close>)
  from exec_bracket_sound [OF ok this] show ?thesis by (simp add: hook_run_def Let_def)
qed

lemma timer_after_sound:
  assumes ok: "hooks_ok s ch" and r: "0 < hook_exec_recursion s" and a: "hook_map s a = Some hk" "hk_type hk = HOOK_TYPE_TIMER"
  shows "sound s ch (hook_timer_after ck a s)"
proof -
  from a obtain it where it: "hooks_heap s a = Some it" "payload it = hk" by (auto dest: payload_map_SomeD)
  show ?thesis
  proof (cases "hk_deleted hk")
    case True
    then show ?thesis using ok it by (simp add: hook_timer_after_def sound_skip)
  next
    case False
    obtain s1 where s1: "timer_update s a (\<lambda>d. d\<lparr>last_exec := ck_now ck,
        next_exec := util_timeval_add (next_exec d) (interval d * 1000)\<rparr>) = Some s1" "hooks_ok s1 ch" "hooks_evolve s ch s1 ch"
      and "\<exists>hk'. hook_map s1 a = Some hk' \<and> \<not> hk_deleted hk' \<and> hk_type hk' = HOOK_TYPE_TIMER"
      by (rule timer_update_sound [OF ok a False])
    then obtain hk1 where hk1: "hook_map s1 a = Some hk1" "\<not> hk_deleted hk1" "hk_type hk1 = HOOK_TYPE_TIMER" by blast
    from hk1 obtain it1 where it1: "hooks_heap s1 a = Some it1" "payload it1 = hk1" by (auto dest: payload_map_SomeD)
    obtain d where d: "HOOK_TIMER hk1 = Some d"
      using timer_data [OF hooks_okD(4) [OF s1(2) hk1(1)] hk1(3,2)] by blast
    obtain s2 where s2: "timer_update s1 a (\<lambda>d. d\<lparr>remaining_calls := remaining_calls d - 1\<rparr>) = Some s2"
      "hooks_ok s2 ch" "hooks_evolve s1 ch s2 ch"
      by (rule timer_update_sound [OF s1(2) hk1(1,3,2)])
    obtain s3 where s3: "unhook s2 (Some a) = Some s3" "sound s2 ch (done_with (Some s3))"
      using unhook_removed [OF s2(2), of "Some a"] unhook_sound [OF s2(2), of "Some a"] by metis
    have e2: "hooks_evolve s ch s2 ch" using evolve_trans [OF s1(3) s2(3)] .
    have r2: "0 < hook_exec_recursion s2" using r evolve_rec [OF e2] by simp
    obtain ch3 where ch3: "hooks_ok s3 ch3" "hooks_evolve s ch s3 ch3"
      using s3(2) r2 evolve_trans [OF e2] unfolding sound_def done_with_def by auto
    have res: "hook_timer_after ck a s = Some (if remaining_calls d > 0 then if remaining_calls d - 1 = 0 then s3 else s2 else s1, Returned ((), False))"
      using it it1 d False s1(1) s2(1) s3(1) by (simp add: hook_timer_after_def)
    have "sound s ch (Some (s1, Returned ((), False)))" "sound s ch (Some (s2, Returned ((), False)))"
      "sound s ch (Some (s3, Returned ((), False)))"
      using sound_Some [OF s1(2) evolve_rec [OF s1(3)] s1(3)] sound_Some [OF s2(2) evolve_rec [OF e2] e2]
        sound_Some [OF ch3(1) evolve_rec [OF ch3(2)] ch3(2)] by blast+
    then show ?thesis by (simp add: res)
  qed
qed

lemma type_data:
  assumes "hook_ok hk" "\<not> hk_deleted hk"
  shows "hk_type hk = HOOK_TYPE_SIGNAL \<Longrightarrow> HOOK_SIGNAL hk \<noteq> None"
    "hk_type hk = HOOK_TYPE_HSIGNAL \<Longrightarrow> HOOK_HSIGNAL hk \<noteq> None"
    "hk_type hk = HOOK_TYPE_CONFIG \<Longrightarrow> HOOK_CONFIG hk \<noteq> None"
    "hk_type hk = HOOK_TYPE_COMPLETION \<Longrightarrow> HOOK_COMPLETION hk \<noteq> None"
    "hk_type hk = HOOK_TYPE_MODIFIER \<Longrightarrow> HOOK_MODIFIER hk \<noteq> None"
    "hk_type hk = HOOK_TYPE_INFO \<Longrightarrow> HOOK_INFO hk \<noteq> None"
    "hk_type hk = HOOK_TYPE_INFO_HASHTABLE \<Longrightarrow> HOOK_INFO_HASHTABLE hk \<noteq> None"
    "hk_type hk = HOOK_TYPE_INFOLIST \<Longrightarrow> HOOK_INFOLIST hk \<noteq> None"
    "hk_type hk = HOOK_TYPE_HDATA \<Longrightarrow> HOOK_HDATA hk \<noteq> None"
    "hk_type hk = HOOK_TYPE_COMMAND_RUN \<Longrightarrow> HOOK_COMMAND_RUN hk \<noteq> None"
    "hk_type hk = HOOK_TYPE_TIMER \<Longrightarrow> HOOK_TIMER hk \<noteq> None"
    "hk_type hk = HOOK_TYPE_FD \<Longrightarrow> HOOK_FD hk \<noteq> None"
  using assms unfolding hook_ok_def
  by (auto simp: HOOK_SIGNAL_def HOOK_HSIGNAL_def HOOK_CONFIG_def HOOK_COMPLETION_def HOOK_MODIFIER_def
    HOOK_INFO_def HOOK_INFO_HASHTABLE_def HOOK_INFOLIST_def HOOK_HDATA_def HOOK_COMMAND_RUN_def HOOK_TIMER_def
    HOOK_FD_def split: option.splits hook_data.splits)

context callbacks_ok
begin

lemma timer_body_sound:
  assumes "hooks_ok s ch" "0 < hook_exec_recursion s" "hook_map s a = Some hk" "hk_type hk = HOOK_TYPE_TIMER" "\<not> hk_deleted hk"
  shows "sound s ch (hook_timer_body cb ck a acc s)"
proof -
  from assms(3) obtain it where it: "hooks_heap s a = Some it" "payload it = hk" by (auto dest: payload_map_SomeD)
  obtain d where d: "HOOK_TIMER hk = Some d" using type_data(11) [OF hooks_okD(4) [OF assms(1,3)] assms(5,4)] by blast
  have "sound s ch (Option.bind (hook_call cb a [string_of_int (if remaining_calls d > 0 then remaining_calls d - 1 else - 1)] s)
      (\<lambda>(s, r). case r of Running \<Rightarrow> Some (s, Running) | Returned v \<Rightarrow> hook_timer_after ck a s))"
  proof (rule sound_bind [OF hook_call_sound [OF assms(1-3)]])
    fix s' ch' v assume s': "hooks_ok s' ch'" "hook_exec_recursion s' = hook_exec_recursion s"
      "0 < hook_exec_recursion s \<Longrightarrow> hooks_evolve s ch s' ch'"
    obtain hk' where "hook_map s' a = Some hk'" "hook_same hk hk'"
      using evolve_hook [OF s'(3) assms(3)] assms(2) by blast
    then show "sound s' ch' (hook_timer_after ck a s')"
      using s' assms(2,4) by (intro timer_after_sound [of s' ch' a hk']) (auto simp: hook_same_def)
  qed
  then show ?thesis by (simp add: hook_timer_body_def it d)
qed

lemma exec_sound:
  assumes ok: "hooks_ok s ch"
  shows "sound s ch (hook_signal_send cb n x s)" "sound s ch (hook_hsignal_send cb n x s)"
    "sound s ch (hook_config_exec cb n x y s)" "sound s ch (hook_completion_exec cb n x s)"
    "sound s ch (hook_info_get cb n m x s)" "sound s ch (hook_info_get_hashtable cb n m s)"
    "sound s ch (hook_infolist_get cb n m x s)" "sound s ch (hook_hdata_get cb n k m s)"
proof -
  note run = hook_run_sound [OF ok _ call_body_sound]
  show "sound s ch (hook_signal_send cb n x s)" unfolding hook_signal_send_def
    by (rule run) (auto dest: type_data)
  show "sound s ch (hook_hsignal_send cb n x s)" unfolding hook_hsignal_send_def
    by (rule run) (auto dest: type_data)
  show "sound s ch (hook_config_exec cb n x y s)" unfolding hook_config_exec_def
    by (rule run) (auto dest: type_data)
  show "sound s ch (hook_completion_exec cb n x s)" unfolding hook_completion_exec_def
    by (auto intro!: run sound_skip ok dest: type_data)
  show "sound s ch (hook_info_get cb n m x s)" unfolding hook_info_get_def
    by (auto intro!: run sound_skip ok dest: type_data split: option.split)
  show "sound s ch (hook_info_get_hashtable cb n m s)" unfolding hook_info_get_hashtable_def
    by (auto intro!: run sound_skip ok dest: type_data split: option.split)
  show "sound s ch (hook_infolist_get cb n m x s)" unfolding hook_infolist_get_def
    by (auto intro!: run sound_skip ok dest: type_data split: option.split)
  show "sound s ch (hook_hdata_get cb n k m s)" unfolding hook_hdata_get_def
    by (auto intro!: run sound_skip ok dest: type_data split: option.split)
qed

lemma modifier_sound:
  assumes ok: "hooks_ok s ch"
  shows "sound s ch (hook_modifier_exec cb n m x y s)"
proof (cases m)
  case (Some c)
  let ?run = "hook_run (\<lambda>hk. do { d \<leftarrow> HOOK_MODIFIER hk; Some (string_strcasecmp (Some d) (Some c) = 0) })
              (call_body cb (\<lambda>message. [c, x, message])
                (\<lambda>message v. case rp_text v of
                   None \<Rightarrow> (message, False)
                 | Some new_msg \<Rightarrow> (new_msg, new_msg = [])))
              n HOOK_TYPE_MODIFIER y s"
  have "sound s ch ?run"
    by (rule hook_run_sound [OF ok _ call_body_sound]) (auto dest: type_data)
  then have "sound s ch (map_option (\<lambda>(s, r). (s, map_outcome Some r)) ?run)" by (rule sound_map)
  moreover have "map_option (\<lambda>(s, r). (s, map_outcome Some r)) ?run = do { (s, r) \<leftarrow> ?run; Some (s, map_outcome Some r) }"
    by (cases ?run) auto
  ultimately show ?thesis using ok by (simp add: hook_modifier_exec_def Some sound_skip)
qed (use ok in \<open>simp add: hook_modifier_exec_def sound_skip\<close>)

lemma timer_exec_sound:
  assumes ok: "hooks_ok s ch"
  shows "sound s ch (hook_timer_exec cb n ck s)"
proof (cases "weechat_hooks s HOOK_TYPE_TIMER = None")
  case False
  obtain s1 where s1: "hook_timer_check_system_clock ck s = Some s1" "hooks_ok s1 ch" "hooks_evolve s ch s1 ch"
    by (rule check_clock_sound [OF ok])
  have "sound s1 ch (hook_run (\<lambda>hk. do { d \<leftarrow> HOOK_TIMER hk;
        Some (util_timeval_cmp (Some (next_exec d)) (Some (ck_now ck)) \<le> 0) })
      (hook_timer_body cb ck) n HOOK_TYPE_TIMER () s1)"
    by (rule hook_run_sound [OF s1(2) _ timer_body_sound]) (auto dest: type_data)
  then have "sound s ch (hook_run (\<lambda>hk. do { d \<leftarrow> HOOK_TIMER hk;
        Some (util_timeval_cmp (Some (next_exec d)) (Some (ck_now ck)) \<le> 0) })
      (hook_timer_body cb ck) n HOOK_TYPE_TIMER () s1)"
    using s1(3) evolve_rec by (blast intro: sound_after)
  then show ?thesis
    by (simp only: hook_timer_exec_def if_not_P [OF False] s1(1) Option.bind.bind_lunit)
qed (use ok in \<open>simp add: hook_timer_exec_def sound_skip\<close>)

lemma fd_exec_sound:
  assumes ok: "hooks_ok s ch"
  shows "sound s ch (hook_fd_exec cb n ck badfd ebadf poll pend s)"
proof (cases "weechat_hooks s HOOK_TYPE_FD = None")
  case False
  have "ch HOOK_TYPE_FD = [] @ ch HOOK_TYPE_FD" by simp
  from fd_poll_sound [OF ok this, of "[]" badfd ebadf] obtain s1 l where
    s1: "hook_fd_poll_loop badfd ebadf s (weechat_hooks s HOOK_TYPE_FD) [] = Some (s1, l)" "hooks_ok s1 ch" "hooks_evolve s ch s1 ch"
    using chain_seg(2) [OF ok, of HOOK_TYPE_FD] by auto
  obtain s2 tmo where s2: "hook_timer_get_time_to_next ck s1 = Some (s2, tmo)" "hooks_ok s2 ch" "hooks_evolve s1 ch s2 ch"
    by (rule time_to_next_sound [OF s1(2)])
  have e: "hooks_evolve s ch s2 ch" by (rule evolve_trans [OF s1(3) s2(3)])
  have "sound s2 ch (hook_run (\<lambda>hk. do { (fd, _) \<leftarrow> HOOK_FD hk; Some (list_ex (\<lambda>((f, _), r). f = fd \<and> r) (zip l revents)) })
      (call_body cb (\<lambda>_. []) (\<lambda>_ _. ((), False))) n HOOK_TYPE_FD () s2)" for revents
    by (rule hook_run_sound [OF s2(2) _ call_body_sound]) (auto dest: type_data)
  then have "sound s ch (hook_run (\<lambda>hk. do { (fd, _) \<leftarrow> HOOK_FD hk; Some (list_ex (\<lambda>((f, _), r). f = fd \<and> r) (zip l revents)) })
      (call_body cb (\<lambda>_. []) (\<lambda>_ _. ((), False))) n HOOK_TYPE_FD () s2)" for revents
    using e evolve_rec by (blast intro: sound_after)
  moreover have "sound s ch (Some (s2, r))" for r :: "unit outcome"
    by (rule sound_Some [OF s2(2) evolve_rec [OF e] e])
  ultimately show ?thesis
    unfolding hook_fd_exec_def if_not_P [OF False] s1(1) by (simp add: s2(1) split: option.split)
qed (use ok in \<open>simp add: hook_fd_exec_def sound_skip\<close>)

text \<open>The loop of \<open>hook_command_run_exec\<close> relies on its caller: it must be inside an execution.\<close>

lemma command_run_sound:
  assumes ok: "hooks_ok s ch" and r: "0 < hook_exec_recursion s" and c: "command \<noteq> []"
  shows "sound s ch (hook_command_run_exec cb n command s)"
proof -
  have "sound s ch (hook_loop (\<lambda>hk. do { c \<leftarrow> HOOK_COMMAND_RUN hk; Some (hook_command_run_matches x c) })
          (call_body cb args f) n s (weechat_hooks s HOOK_TYPE_COMMAND_RUN) acc)" for x args f acc
    by (rule hook_loop_sound [OF ok r _ _ call_body_sound])
       (use chain_seg(2) [OF ok, of HOOK_TYPE_COMMAND_RUN] in \<open>auto dest: first_or_mem type_data\<close>)
  then show ?thesis
    unfolding hook_command_run_exec_def Let_def using sound_skip [OF ok] c by auto
qed

end

end
