(* ===== verification/Hook_Command.thy ===== *)
theory Hook_Command
  imports Hook_Safety
begin

text \<open>
The command that \<open>hook_command_exec\<close> (src/core/hook/wee-hook-command.c) finds, the safety of its
execution inside another execution, and the contract of callbacks written as programs.
\<close>

subsection \<open>Which command is executed\<close>

text \<open>The loop over a list of hooks, deleted hooks apart.\<close>

fun command_found_list ::
  "bool \<Rightarrow> nat option \<Rightarrow> cstr \<Rightarrow> bool \<Rightarrow> (nat \<times> hook) list \<Rightarrow> command_found \<Rightarrow> command_found option" where
  "command_found_list any plugin name allow [] f = Some f"
| "command_found_list any plugin name allow ((a, hk) # xs) f = do {
     f \<leftarrow> command_found_step any plugin name allow a hk f;
     command_found_list any plugin name allow xs f }"

text \<open>The hooks of a list that are not deleted, with their addresses.\<close>

definition alive_at :: "(nat \<Rightarrow> hook option) \<Rightarrow> nat list \<Rightarrow> (nat \<times> hook) list" where
  "alive_at m xs = filter (\<lambda>(a, hk). \<not> hk_deleted hk) (map (\<lambda>a. (a, the (m a))) xs)"

lemma alive_at_simps [simp]:
  "alive_at m [] = []"
  "alive_at m (a # xs) = (if hk_deleted (the (m a)) then alive_at m xs else (a, the (m a)) # alive_at m xs)"
  by (simp_all add: alive_at_def)

lemma map_snd_alive_at: "map snd (alive_at m xs) = alive m xs"
  by (induction xs) (simp_all add: alive_def)

lemma find_loop_seg:
  assumes "seg h q xs None" "\<And>a. a \<in> set xs \<Longrightarrow> payload_map h a \<noteq> None"
  shows "hook_command_find_loop any plugin name allow h (first_or xs None) f =
    command_found_list any plugin name allow (alive_at (payload_map h) xs) f"
  using assms
proof (induction xs arbitrary: q f)
  case (Cons a xs)
  then obtain it where it: "h a = Some it" "next_item it = first_or xs None" and sg: "seg h (Some a) xs None"
    by auto
  have m: "payload_map h a = Some (payload it)" using it(1) by (simp add: payload_map_def)
  have IH: "hook_command_find_loop any plugin name allow h (first_or xs None) f =
      command_found_list any plugin name allow (alive_at (payload_map h) xs) f" for f
    by (rule Cons.IH [OF sg]) (use Cons.prems(2) in simp)
  show ?case
    by (subst hook_command_find_loop.simps; cases "command_found_step any plugin name allow a (payload it) f")
      (simp_all add: it m IH)
qed (subst hook_command_find_loop.simps, simp)

text \<open>The candidates: commands of the name for the plugin, for other plugins, and commands of which it is a start.\<close>

definition command_own :: "nat option \<Rightarrow> cstr \<Rightarrow> (nat \<times> hook) list \<Rightarrow> (nat \<times> hook) list" where
  "command_own plugin name = filter (\<lambda>(a, hk).
     string_strcasecmp (Some name) (Some (hook_name hk)) = 0 \<and> hk_plugin hk = plugin)"

definition command_other :: "bool \<Rightarrow> nat option \<Rightarrow> cstr \<Rightarrow> (nat \<times> hook) list \<Rightarrow> (nat \<times> hook) list" where
  "command_other any plugin name = filter (\<lambda>(a, hk).
     string_strcasecmp (Some name) (Some (hook_name hk)) = 0 \<and> hk_plugin hk \<noteq> plugin \<and> any)"

definition command_incomplete :: "bool \<Rightarrow> cstr \<Rightarrow> (nat \<times> hook) list \<Rightarrow> (nat \<times> hook) list" where
  "command_incomplete allow name = filter (\<lambda>(a, hk).
     string_strcasecmp (Some name) (Some (hook_name hk)) \<noteq> 0 \<and> allow \<and>
     string_strncasecmp (Some name) (Some (hook_name hk)) (int (length name)) = 0)"

definition first_at :: "(nat \<times> hook) list \<Rightarrow> nat option" where
  "first_at xs = (case xs of [] \<Rightarrow> None | (a, _) # _ \<Rightarrow> Some a)"

definition found_of :: "(nat \<times> hook) list \<Rightarrow> (nat \<times> hook) list \<Rightarrow> (nat \<times> hook) list \<Rightarrow> command_found" where
  "found_of own other inc =
     \<lparr>hook_plugin = first_at own, hook_other_plugin = first_at other, hook_other_plugin2 = first_at (tl other),
      hook_incomplete_command = first_at (rev inc), count_other_plugin = int (length other),
      count_incomplete_commands = int (length inc)\<rparr>"

lemma first_at_simps [simp]:
  "first_at [] = None" "first_at ((a, hk) # xs) = Some a" "first_at xs = None \<longleftrightarrow> xs = []"
  by (auto simp: first_at_def split: list.splits)

lemma first_at_append: "first_at (xs @ ys) = (if xs = [] then first_at ys else first_at xs)"
  by (cases xs) (auto simp: first_at_def)

lemma command_found_list_of:
  assumes "\<forall>(a, hk)\<in>set xs. HOOK_COMMAND hk = Some (hook_name hk)"
  shows "command_found_list any plugin name allow xs (found_of own other inc) =
    Some (found_of (own @ command_own plugin name xs) (other @ command_other any plugin name xs)
      (inc @ command_incomplete allow name xs))"
  using assms
proof (induction xs arbitrary: own other inc)
  case Nil
  then show ?case by (simp add: command_own_def command_other_def command_incomplete_def)
next
  case (Cons x xs)
  obtain a hk where x: "x = (a, hk)" by (cases x)
  have "command_found_step any plugin name allow a hk (found_of own other inc) =
      Some (found_of (own @ command_own plugin name [x]) (other @ command_other any plugin name [x])
        (inc @ command_incomplete allow name [x]))"
    using Cons.prems x
    by (cases other; cases "tl other")
       (auto simp: command_found_step_def found_of_def command_own_def command_other_def command_incomplete_def
        first_at_append Let_def)
  then show ?case
    using Cons x by (simp add: command_own_def command_other_def command_incomplete_def)
qed

lemma first_at_set: "first_at xs = Some a \<Longrightarrow> \<exists>hk ys. xs = (a, hk) # ys"
  by (auto simp: first_at_def split: list.splits)

lemma alive_at_commands:
  assumes ok: "hooks_ok s ch" and x: "(a, hk) \<in> set (alive_at (hook_map s) (ch HOOK_TYPE_COMMAND))"
  shows "HOOK_COMMAND hk = Some (hook_name hk)" "hook_map s a = Some hk" "hk_type hk = HOOK_TYPE_COMMAND" "\<not> hk_deleted hk"
    "hook_priority_at (hooks_heap s) (Some a) = Some (hk_priority hk)"
proof -
  from x have a: "a \<in> set (ch HOOK_TYPE_COMMAND)" "hk = the (hook_map s a)" "\<not> hk_deleted hk"
    by (auto simp: alive_at_def)
  with chain_hooks [OF ok a(1)] have hk: "hook_map s a = Some hk" "hook_ok hk" "hk_type hk = HOOK_TYPE_COMMAND" by auto
  then show "HOOK_COMMAND hk = Some (hook_name hk)" using a(3)
    by (auto simp: HOOK_COMMAND_def hook_name_def hook_ok_def split: option.splits hook_data.splits)
  from hk(1) obtain it where "hooks_heap s a = Some it" "payload it = hk" by (auto dest: payload_map_SomeD)
  then show "hook_priority_at (hooks_heap s) (Some a) = Some (hk_priority hk)" by (simp add: hook_priority_at_def)
qed (use x chain_hooks [OF ok] in \<open>force simp: alive_at_def\<close>)+

lemma find_loop_candidates:
  assumes ok: "hooks_ok s ch"
  defines "L \<equiv> alive_at (hook_map s) (ch HOOK_TYPE_COMMAND)"
  shows "hook_command_find_loop any plugin name allow (hooks_heap s) (weechat_hooks s HOOK_TYPE_COMMAND) command_found_init =
    Some (found_of (command_own plugin name L) (command_other any plugin name L) (command_incomplete allow name L))"
proof -
  have i: "command_found_init = found_of [] [] []" by (simp add: command_found_init_def found_of_def)
  have "\<forall>(a, hk)\<in>set L. HOOK_COMMAND hk = Some (hook_name hk)"
    using alive_at_commands(1) [OF ok] by (auto simp: L_def)
  from command_found_list_of [OF this, of any plugin name allow "[]" "[]" "[]"] show ?thesis
    using find_loop_seg [OF chain_seg(1) [OF ok], of HOOK_TYPE_COMMAND any plugin name allow "found_of [] [] []"]
      chain_seg(2) [OF ok, of HOOK_TYPE_COMMAND] chain_hooks [OF ok, of _ HOOK_TYPE_COMMAND]
    by (simp add: L_def i) blast
qed

text \<open>Among hooks of the same name the first one of the list has the highest priority.\<close>

lemma candidates_sorted:
  assumes ok: "hooks_ok s ch"
    and same: "\<And>a hk. P (a, hk) \<Longrightarrow> string_strcasecmp (Some name) (Some (hook_name hk)) = 0"
  shows "sorted_wrt (\<lambda>x y. hk_priority (snd x) \<ge> hk_priority (snd y))
    (filter P (alive_at (hook_map s) (ch HOOK_TYPE_COMMAND)))"
proof -
  let ?L = "alive_at (hook_map s) (ch HOOK_TYPE_COMMAND)"
  have "sorted_wrt (\<lambda>a b. hook_cmp a b \<le> 0) (map snd ?L)"
    using hooks_okD(8) [OF ok, of HOOK_TYPE_COMMAND] by (simp add: map_snd_alive_at cmp_ordered_def)
  then have "sorted_wrt (\<lambda>x y. hook_cmp (snd x) (snd y) \<le> 0) (filter P ?L)"
    by (simp add: sorted_wrt_map sorted_wrt_filter)
  then show ?thesis
  proof (rule sorted_wrt_mono_rel [rotated])
    fix x y assume "x \<in> set (filter P ?L)" "y \<in> set (filter P ?L)" and c: "hook_cmp (snd x) (snd y) \<le> 0"
    then have "string_strcasecmp (Some name) (Some (hook_name (snd x))) = 0" "string_strcasecmp (Some name) (Some (hook_name (snd y))) = 0"
      using same [of "fst x" "snd x"] same [of "fst y" "snd y"] by auto
    then have "string_strcasecmp (Some (hook_name (snd x))) (Some (hook_name (snd y))) = 0"
      using strcasecmp.cmp_0_iff strcasecmp.cmp_eq_trans by metis
    then show "hk_priority (snd x) \<ge> hk_priority (snd y)" using c by (simp add: hook_cmp_def)
  qed
qed

subsection \<open>Safety\<close>

lemma choose_in:
  assumes "\<And>a hk. (a, hk) \<in> set L \<Longrightarrow> hook_priority_at h (Some a) = Some (hk_priority hk)"
    and "set own \<subseteq> set L" "set other \<subseteq> set L" "set inc \<subseteq> set L"
  shows "\<exists>rc p. hook_command_choose h (found_of own other inc) = Some (rc, p) \<and> (\<forall>a. p = Some a \<longrightarrow> a \<in> fst ` set L)"
proof -
  have mem: "first_at xs = Some a \<Longrightarrow> set xs \<subseteq> set L \<Longrightarrow> a \<in> fst ` set L" for xs a
    by (force simp: first_at_def split: list.splits)
  consider "own = []" "other = []" | a hk ys where "own = (a, hk) # ys" "other = []"
    | b q zs where "own = []" "other = (b, q) # zs" | a hk ys b q zs where "own = (a, hk) # ys" "other = (b, q) # zs"
    by (metis list.exhaust surj_pair)
  then show ?thesis
  proof cases
    case 1
    then show ?thesis using mem [of "rev inc"] assms(4) by (auto simp: hook_command_choose_def found_of_def)
  next
    case (2 a hk ys)
    then show ?thesis using mem [of own] assms(2) by (auto simp: hook_command_choose_def found_of_def)
  next
    case (3 b q zs)
    then have b: "b \<in> fst ` set L" using assms(3) by force
    have "hook_priority_at h (Some b) = Some (hk_priority q)" using 3 assms(1,3) by simp
    moreover have "hook_priority_at h (first_at zs) \<noteq> None" if "zs \<noteq> []"
      using that 3 assms(1,3) by (cases zs) auto
    ultimately show ?thesis using 3 b by (cases "zs = []"; cases "hook_priority_at h (first_at zs)") (simp_all add: hook_command_choose_def found_of_def)
  next
    case (4 a hk ys b q zs)
    then have "hook_priority_at h (Some a) = Some (hk_priority hk)" "hook_priority_at h (Some b) = Some (hk_priority q)"
      using assms(1-3) by simp_all
    then show ?thesis using 4 mem [of own] mem [of other] assms(2,3) by (simp add: hook_command_choose_def found_of_def)
  qed
qed

context callbacks_ok
begin

lemma command_call_sound:
  assumes ok: "hooks_ok s ch" and r: "0 < hook_exec_recursion s" and a: "hook_map s a = Some hk"
  shows "sound s ch (hook_command_call cb a args s)"
proof -
  from a obtain it where it: "hooks_heap s a = Some it" "payload it = hk" by (auto dest: payload_map_SomeD)
  have f: "hook_ok (hk\<lparr>hk_running := x\<rparr>)" "hook_name (hk\<lparr>hk_running := x\<rparr>) = hook_name hk"
    if "hook_ok hk" for hk x
    using that by (simp_all add: hook_ok_def hook_name_def split: option.splits)
  let ?inc = "\<lambda>hk. hk\<lparr>hk_running := hk_running hk + 1\<rparr>"
  let ?dec = "\<lambda>hk. hk\<lparr>hk_running := hk_running hk - 1\<rparr>"
  let ?rc = "\<lambda>v. if rp_rc v = WHOREIRC_RC_ERROR then HOOK_COMMAND_EXEC_ERROR else HOOK_COMMAND_EXEC_OK"
  obtain s1 where s1: "hook_update s a ?inc = Some s1" "hooks_ok s1 ch" "hooks_evolve s ch s1 ch"
    by (rule update_sound [of s ch a hk ?inc]) (use ok a f hooks_okD(4) [OF ok a] in auto)
  have r1: "0 < hook_exec_recursion s1" using r evolve_rec [OF s1(3)] by simp
  have "sound s1 ch (Option.bind (cb (hk_callback hk) args s1) (\<lambda>(s, r). case r of Running \<Rightarrow> Some (s, Running)
      | Returned v \<Rightarrow> do { s \<leftarrow> hook_update s a ?dec; Some (s, Returned (?rc v)) }))"
  proof (rule sound_bind [OF cb_sound [OF s1(2) r1]])
    fix s2 ch2 v assume s2: "hooks_ok s2 ch2" "hook_exec_recursion s2 = hook_exec_recursion s1"
      "0 < hook_exec_recursion s1 \<Longrightarrow> hooks_evolve s1 ch s2 ch2"
    from evolve_trans [OF s1(3) s2(3) [OF r1]] a obtain hk2 where hk2: "hook_map s2 a = Some hk2"
      using evolve_hook by blast
    obtain s3 where "hook_update s2 a ?dec = Some s3" "hooks_ok s3 ch2" "hooks_evolve s2 ch2 s3 ch2"
      by (rule update_sound [of s2 ch2 a hk2 ?dec]) (use s2(1) hk2 f hooks_okD(4) [OF s2(1) hk2] in auto)
    then show "sound s2 ch2 (do { s \<leftarrow> hook_update s2 a ?dec; Some (s, Returned (?rc v)) })"
      by (simp add: sound_Some evolve_rec)
  qed
  then have "sound s ch (Option.bind (cb (hk_callback hk) args s1) (\<lambda>(s, r). case r of Running \<Rightarrow> Some (s, Running)
      | Returned v \<Rightarrow> do { s \<leftarrow> hook_update s a ?dec; Some (s, Returned (?rc v)) }))"
    using s1(3) evolve_rec by (blast intro: sound_after)
  then show ?thesis using it s1(1) by (simp add: hook_command_call_def sound_skip ok)
qed

lemma command_find_exec_sound:
  assumes ok: "hooks_ok s ch" and r: "0 < hook_exec_recursion s"
  shows "sound s ch (hook_command_find_exec cb allow any plugin name args s)"
proof -
  let ?L = "alive_at (hook_map s) (ch HOOK_TYPE_COMMAND)"
  have "\<exists>rc p. hook_command_choose (hooks_heap s) (found_of (command_own plugin name ?L) (command_other any plugin name ?L)
      (command_incomplete allow name ?L)) = Some (rc, p) \<and> (\<forall>a. p = Some a \<longrightarrow> a \<in> fst ` set ?L)"
    by (rule choose_in) (use alive_at_commands(5) [OF ok] in
      \<open>auto simp: command_own_def command_other_def command_incomplete_def\<close>)
  then obtain rc p where p: "hook_command_choose (hooks_heap s) (found_of (command_own plugin name ?L)
      (command_other any plugin name ?L) (command_incomplete allow name ?L)) = Some (rc, p)"
    "\<forall>a. p = Some a \<longrightarrow> a \<in> fst ` set ?L" by blast
  have "sound s ch (hook_command_call cb a args s)" if "p = Some a" for a
    using p(2) that alive_at_commands(2) [OF ok] command_call_sound [OF ok r] by force
  then show ?thesis
    using p(1) by (simp add: hook_command_find_exec_def find_loop_candidates [OF ok] sound_skip ok split: option.split)
qed

lemma command_exec_sound:
  assumes ok: "hooks_ok s ch" and r: "0 < hook_exec_recursion s" and c: "\<And>str. string = Some str \<Longrightarrow> cstr_ok str"
  shows "sound s ch (hook_command_exec cb n allow any plugin string s)"
proof (cases "string = None \<or> string = Some []")
  case False
  then obtain str where str: "string = Some str" "str \<noteq> []" by auto
  let ?w = "{STRIP_LEFT, STRIP_RIGHT, COLLAPSE_SEPS}" and ?e = "{STRIP_LEFT, STRIP_RIGHT, COLLAPSE_SEPS, KEEP_EOL}"
  have t: "split_stripped ?e '' '' str = split_stripped ?w '' '' str" by (simp add: split_stripped_def)
  obtain xs where xs: "string_split (Some str) (Some '' '') None ?w 0 =
      (if split_stripped ?w '' '' str = [] then Some (None, 0) else Some (Some xs, int (length xs)))" "xs \<noteq> []"
    using string_split_words [OF c [OF str(1)], of "'' ''" 0 ?w None] by auto
  obtain ys where ys: "string_split (Some str) (Some '' '') None ?e 0 =
      (if split_stripped ?w '' '' str = [] then Some (None, 0) else Some (Some ys, int (length ys)))"
    using string_split_words [OF c [OF str(1)], of "'' ''" 0 ?e None] unfolding t by auto
  obtain x xs' where x: "xs = x # xs'" using xs(2) by (cases xs) auto
  have "sound s ch (Option.bind (hook_command_run_exec cb n str s) (\<lambda>(s, r). case r of Running \<Rightarrow> Some (s, Running)
      | Returned rc \<Rightarrow> (\<lambda>s rc. if rc = WHOREIRC_RC_OK_EAT then Some (s, Returned HOOK_COMMAND_EXEC_OK)
          else if split_stripped ?w '' '' str = [] then Some (s, Returned HOOK_COMMAND_EXEC_NOT_FOUND)
          else Option.bind (hook_command_find_exec cb allow any plugin (utf8_skip x) (xs @ ys) (hook_exec_start s))
            (\<lambda>(s, r). case r of Running \<Rightarrow> Some (s, Running) | Returned rc \<Rightarrow> do { s \<leftarrow> hook_exec_end s; Some (s, Returned rc) })) s rc))"
  proof (rule sound_bind [OF command_run_sound [OF ok r str(2)]])
    fix s' ch' rc assume s': "hooks_ok s' ch'"
    have ok': "hooks_ok (hook_exec_start s') ch'" by (rule hook_exec_start_ok [OF s'])
    have "0 < hook_exec_recursion (hook_exec_start s')" using hooks_okD(6) [OF s'] by (simp add: hook_exec_start_def)
    from exec_bracket_sound [OF s' command_find_exec_sound [OF ok' this]]
    show "sound s' ch' ((\<lambda>s rc. if rc = WHOREIRC_RC_OK_EAT then Some (s, Returned HOOK_COMMAND_EXEC_OK)
          else if split_stripped ?w '' '' str = [] then Some (s, Returned HOOK_COMMAND_EXEC_NOT_FOUND)
          else Option.bind (hook_command_find_exec cb allow any plugin (utf8_skip x) (xs @ ys) (hook_exec_start s))
            (\<lambda>(s, r). case r of Running \<Rightarrow> Some (s, Running) | Returned rc \<Rightarrow> do { s \<leftarrow> hook_exec_end s; Some (s, Returned rc) })) s' rc)"
      by (simp add: sound_skip s')
  qed
  moreover have "hook_command_exec cb n allow any plugin string s =
      Option.bind (hook_command_run_exec cb n str s) (\<lambda>(s, r). case r of Running \<Rightarrow> Some (s, Running)
      | Returned rc \<Rightarrow> (\<lambda>s rc. if rc = WHOREIRC_RC_OK_EAT then Some (s, Returned HOOK_COMMAND_EXEC_OK)
          else if split_stripped ?w '' '' str = [] then Some (s, Returned HOOK_COMMAND_EXEC_NOT_FOUND)
          else Option.bind (hook_command_find_exec cb allow any plugin (utf8_skip x) (xs @ ys) (hook_exec_start s))
            (\<lambda>(s, r). case r of Running \<Rightarrow> Some (s, Running) | Returned rc \<Rightarrow> do { s \<leftarrow> hook_exec_end s; Some (s, Returned rc) })) s rc)"
    unfolding hook_command_exec_def using str x
    by (cases "hook_command_run_exec cb n str s") (auto simp: xs(1) ys Let_def split: outcome.split)
  ultimately show ?thesis by simp
qed (auto simp: hook_command_exec_def sound_skip ok)

lemma run_api_sound:
  assumes "hooks_ok s ch" "runs_command a \<longrightarrow> 0 < hook_exec_recursion s"
  shows "sound s ch (run_api cb n a s)"
proof (cases a)
  case (Api_command_exec allow any p str)
  have "cstr_ok (takeWhile (\<lambda>c. c \<noteq> NUL) str)" by (auto simp: cstr_ok_def dest: set_takeWhileD)
  then have "sound s ch (hook_command_exec cb n allow any p (Some (takeWhile (\<lambda>c. c \<noteq> NUL) str)) s)"
    using assms by (intro command_exec_sound) (auto simp: Api_command_exec)
  then show ?thesis using Api_command_exec by simp
qed (use assms(1) in \<open>simp_all add: creation_sound command_sound fd_sound timer_sound hook_set_subplugin_sound unhook_sound
    unhook_all_plugin_sound unhook_all_sound exec_sound modifier_sound timer_exec_sound fd_exec_sound\<close>)

lemma run_apis_sound:
  "hooks_ok s ch \<Longrightarrow> 0 < hook_exec_recursion s \<Longrightarrow> sound s ch (run_apis cb n as s)"
proof (induction as arbitrary: s ch)
  case (Cons a as)
  have "sound s ch (Option.bind (run_api cb n a s) (\<lambda>(s, r). case r of Running \<Rightarrow> Some (s, Running) | Returned v \<Rightarrow> run_apis cb n as s))"
    by (rule sound_bind [OF run_api_sound]) (use Cons in auto)
  then show ?case by simp
qed (simp add: sound_skip)

end

lemma run_script_contract: "callbacks_ok (run_script beh n)"
proof (induction n)
  case 0
  show ?case by standard (simp add: sound_Running)
next
  case (Suc n)
  show ?case
  proof
    fix s ch c args assume ok: "hooks_ok s ch" and r: "0 < hook_exec_recursion s"
    obtain acts v where b: "beh c args s = (acts, v)" by (metis surj_pair)
    have "sound s ch (map_option (\<lambda>(s, r). (s, map_outcome (\<lambda>_. v) r)) (run_apis (run_script beh n) n acts s))"
      by (rule sound_map [OF callbacks_ok.run_apis_sound [OF Suc ok r]])
    moreover have "run_script beh (Suc n) c args s =
        map_option (\<lambda>(s, r). (s, map_outcome (\<lambda>_. v) r)) (run_apis (run_script beh n) n acts s)"
      by (cases "run_apis (run_script beh n) n acts s") (auto simp: b)
    ultimately show "sound s ch (run_script beh (Suc n) c args s)" by simp
  qed
qed

interpretation scripts: callbacks_ok "run_script beh n" for beh n
  by (rule run_script_contract)

end
