(* ===== verification/Hook_Props.thy ===== *)
theory Hook_Props
  imports Hook_Command
begin

text \<open>
Properties of the hooks: safety of every call whatever the callbacks do, consistency of the lists,
freeing of the removed hooks, the order of the modifiers, termination, and the flaws found.
\<close>

subsection \<open>Safety\<close>

text \<open>
  The states between two calls of a program that only uses the interface, its callbacks included;
  the program ends its calls.  Its callbacks make any call, the execution of commands included; the program
  itself executes a command only from a callback, since \<open>hook_command_run_exec\<close> is not safe elsewhere
  (\<open>hook_command_run_use_after_free\<close>).
\<close>

inductive hook_reachable :: "behaviour \<Rightarrow> hooks \<Rightarrow> bool" for beh where
  hook_reachable_init: "hook_reachable beh (hook_init now)"
| hook_reachable_call: "hook_reachable beh s \<Longrightarrow> \<not> runs_command a \<Longrightarrow> run_api (run_script beh n) n a s = Some (s', Returned ())
    \<Longrightarrow> hook_reachable beh s'"

lemma hook_reachable_ok:
  "hook_reachable beh s \<Longrightarrow> (\<exists>ch. hooks_ok s ch) \<and> hook_exec_recursion s = 0"
proof (induction rule: hook_reachable.induct)
  case (hook_reachable_init now)
  then show ?case using hooks_ok_init by (auto simp: hook_init_def)
next
  case (hook_reachable_call s a n s')
  then obtain ch where "hooks_ok s ch" by blast
  then have "sound s ch (run_api (run_script beh n) n a s)" by (rule scripts.run_api_sound) (use hook_reachable_call in simp)
  then show ?case using hook_reachable_call by (auto simp: sound_def)
qed

text \<open>
  A program for the examples: callback 0 unhooks the first hook created, every callback returns its
  number and leaves a message as it is.
\<close>

definition example_beh :: behaviour where
  "example_beh c args s =
     (if c = 0 then [Api_unhook (Some 0)] else [], \<lparr>rp_rc = 0, rp_text = None, rp_pointer = Some c\<rparr>)"

lemma hook_reachable_apis:
  "hook_reachable beh s \<Longrightarrow> \<forall>a\<in>set as. \<not> runs_command a \<Longrightarrow> run_apis (run_script beh n) n as s = Some (s', Returned ()) \<Longrightarrow>
    hook_reachable beh s'"
proof (induction as arbitrary: s)
  case (Cons a as)
  obtain s1 r where a: "run_api (run_script beh n) n a s = Some (s1, r)"
    using Cons.prems(3) by (auto simp: bind_eq_Some_conv)
  with Cons.prems(3) have r: "r = Returned ()" "run_apis (run_script beh n) n as s1 = Some (s', Returned ())"
    by (auto split: outcome.splits)
  show ?case
    by (rule Cons.IH [OF hook_reachable_call [OF Cons.prems(1) _ a [unfolded r(1)]] _ r(2)]) (use Cons.prems(2) in auto)
qed simp

text \<open>The states of the examples: hooks created one after the other.\<close>

definition state_after :: "api list \<Rightarrow> hooks" where
  "state_after as = (case run_apis (run_script example_beh 2) 2 as (hook_init 0) of Some (s, _) \<Rightarrow> s | None \<Rightarrow> hook_init 0)"

lemma state_after_reachable:
  assumes "map_option snd (run_apis (run_script example_beh 2) 2 as (hook_init 0)) = Some (Returned ())" "\<forall>a\<in>set as. \<not> runs_command a"
  shows "hook_reachable example_beh (state_after as)"
  by (rule hook_reachable_apis [OF hook_reachable_init assms(2)])
    (use assms(1) in \<open>auto simp: state_after_def\<close>)

definition example_state :: hooks where
  "example_state = state_after [Api_hook_hdata None (Some ''a'') (Some 1), Api_hook_hdata (Some 7) (Some ''2000|a'') (Some 0)]"

lemma example_state_reachable: "hook_reachable example_beh example_state"
  unfolding example_state_def by (rule state_after_reachable) (code_simp, simp)

text \<open>The hooks of a list are found by following its pointers.\<close>

lemma chain_walk:
  assumes "hooks_ok s ch" "ch t = xs @ ys" "first_or ys None = Some a"
  shows "\<exists>zs. ch t = (xs @ [a]) @ zs \<and> map_option next_item (hooks_heap s a) = Some (first_or zs None)"
proof -
  obtain zs where zs: "ys = a # zs" using assms(3) by (cases ys) auto
  obtain it where "hooks_heap s a = Some it" "next_item it = first_or zs None"
    by (rule chain_item [OF assms(1)]) (use assms(2) zs in auto)
  then show ?thesis using assms(2) zs by simp
qed

lemma chain_two:
  assumes "hooks_ok s ch" "weechat_hooks s t = Some a" "map_option next_item (hooks_heap s a) = Some (Some b)"
    and "map_option next_item (hooks_heap s b) = Some None"
  shows "ch t = [a, b]"
proof -
  have "ch t = [] @ ch t" "first_or (ch t) None = Some a" using chain_seg(2) [OF assms(1), of t] assms(2) by simp_all
  from chain_walk [OF assms(1) this] assms(3) obtain ys where y: "ch t = [a] @ ys" "first_or ys None = Some b" by auto
  from chain_walk [OF assms(1) y] assms(4) obtain zs where "ch t = ([a] @ [b]) @ zs" "first_or zs None = None" by fastforce
  then show ?thesis by (cases zs) auto
qed



text \<open>
  Claim C20.  Between two calls every list is consistent: its pointers form a doubly linked list of
  hooks of its type, sorted by priority (by name first for the commands), of the length that is
  counted; no removed hook is left and the memory holds no other hook.
\<close>

theorem hook_lists_consistent:
  assumes "hook_reachable beh s"
  shows "\<exists>ch. (\<forall>t. dlist (hooks_heap s) (weechat_hooks s t) (last_weechat_hook s t) (ch t) \<and>
      hooks_count s t = int (length (ch t)) \<and>
      sorted_wrt (\<lambda>a b. hook_cmp a b \<le> 0) (map (\<lambda>a. payload (the (hooks_heap s a))) (ch t)) \<and>
      (\<forall>a\<in>set (ch t). hk_type (payload (the (hooks_heap s a))) = t \<and> \<not> hk_deleted (payload (the (hooks_heap s a))))) \<and>
    dom (hooks_heap s) = (\<Union>t. set (ch t)) \<and> hook_fd_pollfd_count s = hooks_count s HOOK_TYPE_FD"
proof -
  obtain ch where ok: "hooks_ok s ch" and r: "hook_exec_recursion s = 0"
    using hook_reachable_ok [OF assms] by blast
  note l = hooks_okD(1) [OF ok]
  have at: "hook_map s a = Some (payload (the (hooks_heap s a)))" if "a \<in> set (ch t)" for a t
    using linksD(2) [OF l that] by (auto simp: payload_map_def)
  have ty: "hk_type (payload (the (hooks_heap s a))) = t" if "a \<in> set (ch t)" for a t
    using linksD(2) [OF l that] at [OF that] by simp
  have nd: "\<not> hk_deleted (payload (the (hooks_heap s a)))" if "a \<in> set (ch t)" for a t
    using hooks_okD(5,7) [OF ok] at [OF that] r by fastforce
  have "alive (hook_map s) (ch t) = map (\<lambda>a. payload (the (hooks_heap s a))) (ch t)" for t
    using at nd by (simp add: alive_map cong: filter_cong map_cong)
  then have "sorted_wrt (\<lambda>a b. hook_cmp a b \<le> 0) (map (\<lambda>a. payload (the (hooks_heap s a))) (ch t))" for t
    using hooks_okD(8) [OF ok, of t] by (simp add: cmp_ordered_def)
  moreover have "dom (hooks_heap s) = (\<Union>t. set (ch t))"
    using in_chain_iff [OF ok] by (auto simp: payload_map_def)
  moreover have "hook_fd_pollfd_count s = hooks_count s HOOK_TYPE_FD" using l by (simp add: hooks_links_def)
  ultimately show ?thesis
    using linksD(1,3) [OF l] ty nd by (intro exI [of _ ch]) blast
qed

theorem hook_lists_consistent_witness:
  "\<exists>xs. dlist (hooks_heap example_state) (weechat_hooks example_state HOOK_TYPE_HDATA)
      (last_weechat_hook example_state HOOK_TYPE_HDATA) xs \<and> int (length xs) = 2"
proof -
  have "hooks_count example_state HOOK_TYPE_HDATA = 2" by code_simp
  then show ?thesis using hook_lists_consistent [OF example_state_reachable] by metis
qed

text \<open>
  Claim C21.  The removal of a hook during an execution is only delayed: the end of the outermost
  execution frees all the hooks that were removed and no other.
\<close>

theorem hook_exec_end_frees:
  assumes "hooks_ok s ch" "hook_exec_recursion s = 1"
  shows "\<exists>s'. hook_exec_end s = Some s' \<and> hook_exec_recursion s' = 0 \<and> \<not> real_delete_pending s' \<and>
    (\<forall>a hk. hook_map s' a = Some hk \<longleftrightarrow> hook_map s a = Some hk \<and> \<not> hk_deleted hk)"
proof -
  have r: "0 < hook_exec_recursion s" using assms(2) by simp
  obtain s' where s': "hook_exec_end s = Some s'" "hook_exec_recursion s' = hook_exec_recursion s - 1"
    "hooks_ok s' (if hook_exec_recursion s = 1 then \<lambda>u. filter (\<lambda>a. \<not> dead_in (hook_map s) a) (ch u) else ch)"
    "hook_map s' = (if hook_exec_recursion s = 1 then without_dead (hook_map s) else hook_map s)"
    by (rule hook_exec_end_ok [OF assms(1) r])
  have "\<not> real_delete_pending s'"
    using hooks_okD(7) [OF s'(3)] s'(2) assms(2) by auto
  then show ?thesis
    using s' assms(2) by (auto simp: without_dead_def split: option.splits if_splits)
qed

theorem hook_exec_end_frees_witness:
  "\<exists>s2 s'. unhook (hook_exec_start example_state) (Some 0) = Some s2 \<and> map_option hk_deleted (hook_map s2 0) = Some True \<and>
    hook_exec_end s2 = Some s' \<and> hook_map s' 0 = None \<and> hook_map s' 1 \<noteq> None"
proof -
  let ?s = "hook_exec_start example_state"
  obtain ch where ok: "hooks_ok example_state ch" and r: "hook_exec_recursion example_state = 0"
    using hook_reachable_ok [OF example_state_reachable] by blast
  have r1: "hook_exec_recursion ?s = 1" "hook_map ?s = hook_map example_state" using r by (simp_all add: hook_exec_start_def)
  obtain s2 where s2: "unhook ?s (Some 0) = Some s2" "hooks_ok s2 (removed_chain (hook_exec_recursion ?s = 0) (\<lambda>a. Some a = Some 0) ch)"
    "hook_map s2 = removed_map (hook_exec_recursion ?s = 0) (\<lambda>a. Some a = Some 0) (hook_map ?s)"
    "hook_exec_recursion s2 = hook_exec_recursion ?s"
    by (rule unhook_removed [OF hook_exec_start_ok [OF ok], of "Some 0"])
  have ex: "map_option hk_deleted (hook_map example_state 0) = Some False" "map_option hk_deleted (hook_map example_state 1) = Some False"
    by code_simp+
  then have d: "map_option hk_deleted (hook_map s2 0) = Some True" "map_option hk_deleted (hook_map s2 1) = Some False"
    using r1 by (auto simp: s2(3) removed_map_def)
  obtain s' where "hook_exec_end s2 = Some s'" "\<forall>a hk. hook_map s' a = Some hk \<longleftrightarrow> hook_map s2 a = Some hk \<and> \<not> hk_deleted hk"
    using hook_exec_end_frees [OF s2(2)] s2(4) r1(1) by auto
  moreover from this(2) d have "hook_map s' 0 = None" "hook_map s' 1 \<noteq> None" by (cases "hook_map s' 0"; auto)+
  ultimately show ?thesis using s2(1) d(1) by blast
qed

text \<open>
  After the hooks of a plugin are removed no hook of the plugin is active, and the hooks
  of the others are as they were.
\<close>

theorem unhook_all_plugin_removes:
  assumes "hooks_ok s ch"
  shows "\<exists>s'. unhook_all_plugin s plugin None = Some s' \<and>
    (\<forall>a hk. hook_map s' a = Some hk \<and> \<not> hk_deleted hk \<longleftrightarrow> hook_map s a = Some hk \<and> \<not> hk_deleted hk \<and> hk_plugin hk \<noteq> plugin)"
proof -
  obtain s' where s': "unhook_all_plugin s plugin None = Some s'"
    "hook_map s' = removed_map (hook_exec_recursion s = 0) (\<lambda>a. hook_map s a \<noteq> None \<and>
      hk_plugin (the (hook_map s a)) = plugin) (hook_map s)"
    by (rule unhook_all_plugin_ok [OF assms, of plugin None]) (simp only: option.case simp_thms)
  have "hook_map s' a = Some hk \<and> \<not> hk_deleted hk \<longleftrightarrow>
      hook_map s a = Some hk \<and> \<not> hk_deleted hk \<and> hk_plugin hk \<noteq> plugin" for a hk
    by (cases "hook_map s a") (auto simp: s'(2) removed_map_def)
  then show ?thesis using s'(1) by blast
qed

theorem unhook_all_plugin_removes_witness:
  "\<exists>s'. unhook_all_plugin (hook_init 0) None None = Some s'"
  using unhook_all_plugin_removes [OF hooks_ok_init, of 0 None] by blast

subsection \<open>What the execution of the hooks computes\<close>

text \<open>Callbacks that leave the hooks alone: only what they return matters.\<close>

definition plain_callbacks :: "(nat \<Rightarrow> cstr list \<Rightarrow> reply) \<Rightarrow> callbacks" where
  "plain_callbacks rep c args s = Some (s, Returned (rep c args))"

fun fold_stop :: "('a \<Rightarrow> 'b \<Rightarrow> 'a \<times> bool) \<Rightarrow> 'a \<Rightarrow> 'b list \<Rightarrow> 'a" where
  "fold_stop f acc [] = acc"
| "fold_stop f acc (x # xs) = (let (acc', stop) = f acc x in if stop then acc' else fold_stop f acc' xs)"

lemma update_same: "hooks_heap s a = Some it \<Longrightarrow> s\<lparr>hooks_heap := (hooks_heap s)(a \<mapsto> it)\<rparr> = s"
  by (simp add: fun_upd_idem)

lemma hook_call_plain:
  assumes "hooks_heap s a = Some it" "hk_running (payload it) = 0"
  shows "hook_call (plain_callbacks rep) a args s = Some (s, Returned (rep (hk_callback (payload it)) args))"
proof -
  have "(payload it)\<lparr>hk_running := 0\<rparr> = payload it" using assms(2) by (metis hook.surjective hook.update_convs(5))
  then have "it\<lparr>payload := (payload it)\<lparr>hk_running := 0\<rparr>\<rparr> = it" by simp
  then show ?thesis using assms
    by (simp add: hook_call_def hook_update_def plain_callbacks_def update_same)
qed

lemma hook_loop_plain:
  assumes "seg (hooks_heap s) p ys None" "length ys < n"
    and "\<And>a. a \<in> set ys \<Longrightarrow> \<not> hk_deleted (the (hook_map s a)) \<Longrightarrow> sel (the (hook_map s a)) \<noteq> None"
  shows "hook_loop sel (call_body (plain_callbacks rep) args f) n s (first_or ys None) acc =
    Some (s, Returned (fold_stop (\<lambda>acc hk. f acc (rep (hk_callback hk) (args acc))) acc
      (filter (\<lambda>hk. hk_running hk = 0 \<and> sel hk = Some True) (alive (hook_map s) ys))))"
  using assms
proof (induction ys arbitrary: p n acc)
  case Nil
  then show ?case by (cases n) simp_all
next
  case (Cons a ys)
  then obtain m where n: "n = Suc m" "length ys < m" by (cases n) auto
  from Cons.prems(1) obtain it where it: "hooks_heap s a = Some it" "next_item it = first_or ys None"
    and sg: "seg (hooks_heap s) (Some a) ys None" by auto
  have m: "hook_map s a = Some (payload it)" using it by (simp add: payload_map_def)
  have IH: "hook_loop sel (call_body (plain_callbacks rep) args f) m s (first_or ys None) acc =
    Some (s, Returned (fold_stop (\<lambda>acc hk. f acc (rep (hk_callback hk) (args acc))) acc
      (filter (\<lambda>hk. hk_running hk = 0 \<and> sel hk = Some True) (alive (hook_map s) ys))))" for acc
    by (rule Cons.IH [OF sg n(2)]) (use Cons.prems(3) in simp)
  have s: "\<not> hk_deleted (payload it) \<Longrightarrow> sel (payload it) \<noteq> None"
    using Cons.prems(3) [of a] m by simp
  show ?case
  proof (cases "\<not> hk_deleted (payload it) \<and> hk_running (payload it) = 0 \<and> sel (payload it) = Some True")
    case True
    then have "call_body (plain_callbacks rep) args f a acc s =
        Some (s, Returned (f acc (rep (hk_callback (payload it)) (args acc))))"
      by (simp add: call_body_def hook_call_plain it(1))
    then show ?thesis
      using True IH m it by (simp add: n split: prod.split)
  next
    case False
    have "(if hk_deleted (payload it) \<or> hk_running (payload it) \<noteq> 0 then Some False else sel (payload it)) = Some False"
      using False s by (cases "sel (payload it)") auto
    then have "hook_loop sel (call_body (plain_callbacks rep) args f) n s (first_or (a # ys) None) acc =
      hook_loop sel (call_body (plain_callbacks rep) args f) m s (first_or ys None) acc"
      by (simp add: n it)
    then show ?thesis unfolding IH using False m by auto
  qed
qed

lemma hook_run_plain:
  assumes ok: "hooks_ok s ch" and n: "length (ch t) < n"
    and sel: "\<And>hk. hook_ok hk \<Longrightarrow> hk_type hk = t \<Longrightarrow> \<not> hk_deleted hk \<Longrightarrow> sel hk \<noteq> None"
  shows "hook_run sel (call_body (plain_callbacks rep) args f) n t acc s =
    Some (s, Returned (fold_stop (\<lambda>acc hk. f acc (rep (hk_callback hk) (args acc))) acc
      (filter (\<lambda>hk. hk_running hk = 0 \<and> sel hk = Some True) (alive (hook_map s) (ch t)))))"
proof -
  let ?s = "hook_exec_start s"
  have ok1: "hooks_ok ?s ch" by (rule hook_exec_start_ok [OF ok])
  have m: "hook_map ?s = hook_map s" by (simp add: hook_exec_start_def)
  have sl: "sel (the (hook_map ?s a)) \<noteq> None" if "a \<in> set (ch t)" "\<not> hk_deleted (the (hook_map ?s a))" for a
    using chain_hooks [OF ok1 that(1)] that(2) sel by auto
  note loop = hook_loop_plain [of ?s None "ch t" n sel rep args f acc, OF chain_seg(1) [OF ok1] n sl]
  have "0 \<le> hook_exec_recursion s" by (rule hooks_okD(6) [OF ok])
  moreover have "hook_exec_recursion s = 0 \<Longrightarrow> \<not> real_delete_pending s" using hooks_okD(7) [OF ok] by auto
  ultimately have "hook_exec_end ?s = Some s"
    by (simp add: hook_exec_end_def hook_exec_start_def Let_def hook_remove_deleted_def)
  then show ?thesis
    using loop chain_seg(2) [OF ok1, of t] by (simp add: hook_run_def Let_def m)
qed

lemma alive_priority:
  assumes ok: "hooks_ok s ch" and t: "t \<noteq> HOOK_TYPE_COMMAND"
  shows "sorted_wrt (\<lambda>a b. hk_priority a \<ge> hk_priority b) (alive (hook_map s) (ch t))"
proof -
  have "sorted_wrt (\<lambda>a b. hook_cmp a b \<le> 0) (alive (hook_map s) (ch t))"
    using hooks_okD(8) [OF ok, of t] by (simp add: cmp_ordered_def)
  then show ?thesis
  proof (rule sorted_wrt_mono_rel [rotated])
    fix a b assume ab: "a \<in> set (alive (hook_map s) (ch t))" "b \<in> set (alive (hook_map s) (ch t))" "hook_cmp a b \<le> 0"
    have nm: "hook_name x = []" if x: "x \<in> set (alive (hook_map s) (ch t))" for x
    proof -
      from x obtain y where y: "y \<in> set (ch t)" "x = the (hook_map s y)" by (auto simp: set_alive)
      from chain_hooks [OF ok y(1)] y(2) have "hook_ok x" "hk_type x = t" by auto
      then show ?thesis using t by (auto simp: hook_name_def hook_ok_def split: option.splits hook_data.splits)
    qed
    have "string_strcasecmp (Some []) (Some []) = 0" by (rule strcasecmp.cmp_refl)
    then show "hk_priority a \<ge> hk_priority b" using ab(3) nm [OF ab(1)] nm [OF ab(2)] by (simp add: hook_cmp_def)
  qed
qed

text \<open>What becomes of a message that goes through modifiers: an empty message ends it.\<close>

fun modifier_chain :: "(cstr \<Rightarrow> cstr option) list \<Rightarrow> cstr \<Rightarrow> cstr" where
  "modifier_chain [] msg = msg"
| "modifier_chain (f # fs) msg =
     (case f msg of
        None \<Rightarrow> modifier_chain fs msg
      | Some new_msg \<Rightarrow> if new_msg = [] then [] else modifier_chain fs new_msg)"

lemma fold_stop_modifier:
  "fold_stop (\<lambda>message hk. case g hk message of None \<Rightarrow> (message, False) | Some new_msg \<Rightarrow> (new_msg, new_msg = [])) msg hs =
    modifier_chain (map g hs) msg"
  by (induction hs arbitrary: msg) (auto split: option.split)

text \<open>
  Claim C22.  With callbacks that only compute their result, a modifier gives the message to the callbacks
  hooked on it that are not running, the highest priority first, each getting what the previous one
  made of it, until one makes the message empty; the hooks are left as they were.
\<close>

theorem hook_modifier_exec_chain:
  assumes "hooks_ok s ch" "m \<noteq> []" "length (ch HOOK_TYPE_MODIFIER) < n"
  defines "hs \<equiv> filter (\<lambda>hk. hk_running hk = 0 \<and> (\<exists>c. HOOK_MODIFIER hk = Some c \<and> string_strcasecmp (Some c) (Some m) = 0))
    (alive (hook_map s) (ch HOOK_TYPE_MODIFIER))"
  shows "hook_modifier_exec (plain_callbacks rep) n (Some m) data message s =
      Some (s, Returned (Some (modifier_chain (map (\<lambda>hk msg. rp_text (rep (hk_callback hk) [m, data, msg])) hs) message))) \<and>
    sorted_wrt (\<lambda>a b. hk_priority a \<ge> hk_priority b) hs"
proof -
  let ?sel = "\<lambda>hk. do { c \<leftarrow> HOOK_MODIFIER hk; Some (string_strcasecmp (Some c) (Some m) = 0) }"
  have f: "filter (\<lambda>hk. hk_running hk = 0 \<and> ?sel hk = Some True) (alive (hook_map s) (ch HOOK_TYPE_MODIFIER)) = hs"
    unfolding hs_def by (rule filter_cong) (auto split: option.splits simp: bind_eq_Some_conv)
  have sel: "?sel hk \<noteq> None" if "hook_ok hk" "hk_type hk = HOOK_TYPE_MODIFIER" "\<not> hk_deleted hk" for hk
    using type_data(5) [OF that(1,3,2)] by auto
  have "hook_modifier_exec (plain_callbacks rep) n (Some m) data message s =
      Some (s, Returned (Some (modifier_chain (map (\<lambda>hk msg. rp_text (rep (hk_callback hk) [m, data, msg])) hs) message)))"
    using assms(2)
    by (simp add: hook_modifier_exec_def hook_run_plain [of s ch HOOK_TYPE_MODIFIER n ?sel, OF assms(1,3) sel] f
      fold_stop_modifier [of "\<lambda>hk message. rp_text (rep (hk_callback hk) [m, data, message])"])
  moreover have "sorted_wrt (\<lambda>a b. hk_priority a \<ge> hk_priority b) hs"
    using alive_priority [OF assms(1), of HOOK_TYPE_MODIFIER] by (simp add: hs_def sorted_wrt_filter)
  ultimately show ?thesis by blast
qed

definition modifier_state :: hooks where
  "modifier_state = state_after [Api_hook_modifier None (Some ''m'') (Some 1), Api_hook_modifier None (Some ''2000|m'') (Some 2)]"

definition append_callback :: "nat \<Rightarrow> cstr list \<Rightarrow> reply" where
  "append_callback c args = \<lparr>rp_rc = 0, rp_text = Some (last args @ (if c = 1 then ''1'' else ''2'')), rp_pointer = None\<rparr>"

lemma modifier_state_hooks:
  "hook_reachable example_beh modifier_state"
  "\<And>ch. hooks_ok modifier_state ch \<Longrightarrow> ch HOOK_TYPE_MODIFIER = [1, 0]"
  "map_option (\<lambda>hk. (HOOK_MODIFIER hk, hk_running hk, hk_deleted hk, hk_callback hk)) (hook_map modifier_state 0) = Some (Some ''m'', 0, False, 1)"
  "map_option (\<lambda>hk. (HOOK_MODIFIER hk, hk_running hk, hk_deleted hk, hk_callback hk)) (hook_map modifier_state 1) = Some (Some ''m'', 0, False, 2)"
proof -
  show "hook_reachable example_beh modifier_state"
    unfolding modifier_state_def by (rule state_after_reachable) (code_simp, simp)
  have "weechat_hooks modifier_state HOOK_TYPE_MODIFIER = Some 1" "map_option next_item (hooks_heap modifier_state 1) = Some (Some 0)"
    "map_option next_item (hooks_heap modifier_state 0) = Some None" by code_simp+
  then show "\<And>ch. hooks_ok modifier_state ch \<Longrightarrow> ch HOOK_TYPE_MODIFIER = [1, 0]" using chain_two by blast
qed code_simp+

theorem hook_modifier_exec_chain_witness:
  "hook_modifier_exec (plain_callbacks append_callback) 3 (Some ''m'') [] ''x'' modifier_state =
    Some (modifier_state, Returned (Some ''x21''))"
proof -
  obtain ch where ok: "hooks_ok modifier_state ch" using hook_reachable_ok [OF modifier_state_hooks(1)] by blast
  note ch = modifier_state_hooks(2) [OF ok]
  obtain h0 where h0: "hook_map modifier_state 0 = Some h0" "HOOK_MODIFIER h0 = Some ''m''" "hk_running h0 = 0" "\<not> hk_deleted h0" "hk_callback h0 = 1"
    using modifier_state_hooks(3) by auto
  obtain h1 where h1: "hook_map modifier_state (Suc 0) = Some h1" "HOOK_MODIFIER h1 = Some ''m''" "hk_running h1 = 0" "\<not> hk_deleted h1" "hk_callback h1 = 2"
    using modifier_state_hooks(4) unfolding One_nat_def by auto
  have "alive (hook_map modifier_state) (ch HOOK_TYPE_MODIFIER) = [h1, h0]" by (simp add: ch [unfolded One_nat_def] h0(1,4) h1(1,4))
  moreover have "length (ch HOOK_TYPE_MODIFIER) < 3" by (simp add: ch)
  ultimately show ?thesis
    using hook_modifier_exec_chain [OF ok, of "''m''" 3 append_callback "[]" "''x''"] h0 h1
    by (simp add: strcasecmp.cmp_refl append_callback_def)
qed

subsection \<open>Termination\<close>

text \<open>Callbacks that end and create no hook: they may only unhook.\<close>

locale quiet_callbacks =
  fixes cb :: callbacks
  assumes cb_quiet: "hooks_ok s ch \<Longrightarrow> 0 < hook_exec_recursion s \<Longrightarrow>
    \<exists>s' v. cb c args s = Some (s', Returned v) \<and> hooks_ok s' ch \<and> hooks_evolve s ch s' ch"
begin

lemma quiet_call:
  assumes ok: "hooks_ok s ch" and r: "0 < hook_exec_recursion s" and a: "hook_map s a = Some hk"
  shows "\<exists>s' v. hook_call cb a args s = Some (s', Returned v) \<and> hooks_ok s' ch \<and> hooks_evolve s ch s' ch"
proof -
  from a obtain it where it: "hooks_heap s a = Some it" "payload it = hk" by (auto dest: payload_map_SomeD)
  have f: "hook_ok (hk\<lparr>hk_running := x\<rparr>)" "hook_name (hk\<lparr>hk_running := x\<rparr>) = hook_name hk"
    if "hook_ok hk" for hk x
    using that by (simp_all add: hook_ok_def hook_name_def split: option.splits)
  obtain s1 where s1: "hook_update s a (\<lambda>hk. hk\<lparr>hk_running := 1\<rparr>) = Some s1" "hooks_ok s1 ch" "hooks_evolve s ch s1 ch"
    by (rule update_sound [of s ch a hk "\<lambda>hk. hk\<lparr>hk_running := 1\<rparr>"]) (use ok a f hooks_okD(4) [OF ok a] in auto)
  have "0 < hook_exec_recursion s1" using r evolve_rec [OF s1(3)] by simp
  from cb_quiet [OF s1(2) this, of "hk_callback hk" args] obtain s2 v where
    s2: "cb (hk_callback hk) args s1 = Some (s2, Returned v)" "hooks_ok s2 ch" "hooks_evolve s1 ch s2 ch" by blast
  have e2: "hooks_evolve s ch s2 ch" by (rule evolve_trans [OF s1(3) s2(3)])
  obtain hk2 where hk2: "hook_map s2 a = Some hk2" using evolve_hook [OF e2 a] by blast
  obtain s3 where "hook_update s2 a (\<lambda>hk. hk\<lparr>hk_running := 0\<rparr>) = Some s3" "hooks_ok s3 ch" "hooks_evolve s2 ch s3 ch"
    by (rule update_sound [of s2 ch a hk2 "\<lambda>hk. hk\<lparr>hk_running := 0\<rparr>"]) (use s2(2) hk2 f hooks_okD(4) [OF s2(2) hk2] in auto)
  then show ?thesis using it s1(1) s2(1) evolve_trans [OF e2]
    by (auto simp: hook_call_def)
qed

lemma quiet_loop:
  assumes "hooks_ok s ch" "0 < hook_exec_recursion s" "ch t = xs @ ys" "length ys < n"
    and sel: "\<And>hk. hook_ok hk \<Longrightarrow> hk_type hk = t \<Longrightarrow> \<not> hk_deleted hk \<Longrightarrow> sel hk \<noteq> None"
  shows "\<exists>s' v. hook_loop sel (call_body cb args f) n s (first_or ys None) acc = Some (s', Returned v) \<and>
    hooks_ok s' ch \<and> hooks_evolve s ch s' ch"
  using assms(1-4)
proof (induction ys arbitrary: s xs n acc)
  case Nil
  then show ?case by (cases n) auto
next
  case (Cons a ys)
  then obtain m where n: "n = Suc m" "length ys < m" by (cases n) auto
  obtain it where it: "hooks_heap s a = Some it" "next_item it = first_or ys None"
    "hook_map s a = Some (payload it)" "hook_ok (payload it)" "hk_type (payload it) = t"
    by (rule chain_item [OF Cons.prems(1,3)])
  have c: "ch t = (xs @ [a]) @ ys" using Cons.prems(3) by simp
  show ?case
  proof (cases "hk_deleted (payload it) \<or> hk_running (payload it) \<noteq> 0 \<or> sel (payload it) = Some False")
    case True
    then have "hook_loop sel (call_body cb args f) n s (first_or (a # ys) None) acc =
        hook_loop sel (call_body cb args f) m s (first_or ys None) acc"
      by (auto simp: n it)
    then show ?thesis using Cons.IH [OF Cons.prems(1,2) c n(2)] by simp
  next
    case False
    then have sl: "sel (payload it) = Some True" using sel [OF it(4,5)] by auto
    obtain s1 v where s1: "hook_call cb a (args acc) s = Some (s1, Returned v)" "hooks_ok s1 ch" "hooks_evolve s ch s1 ch"
      using quiet_call [OF Cons.prems(1,2) it(3)] by blast
    obtain acc' stop where r: "f acc v = (acc', stop)" by (cases "f acc v")
    have "hook_loop sel (call_body cb args f) n s (first_or (a # ys) None) acc =
        (if stop then Some (s1, Returned acc') else hook_loop sel (call_body cb args f) m s1 (first_or ys None) acc')"
      using False sl by (simp add: n it call_body_def s1(1) r)
    moreover have "0 < hook_exec_recursion s1" using Cons.prems(2) evolve_rec [OF s1(3)] by simp
    ultimately show ?thesis
      using s1 Cons.IH [OF s1(2) _ c n(2), of acc'] evolve_trans [OF s1(3)] by auto
  qed
qed

lemma quiet_run:
  assumes ok: "hooks_ok s ch" and n: "length (ch t) < n"
    and sel: "\<And>hk. hook_ok hk \<Longrightarrow> hk_type hk = t \<Longrightarrow> \<not> hk_deleted hk \<Longrightarrow> sel hk \<noteq> None"
  shows "\<exists>s' v. hook_run sel (call_body cb args f) n t acc s = Some (s', Returned v)"
proof -
  let ?s = "hook_exec_start s"
  have ok1: "hooks_ok ?s ch" by (rule hook_exec_start_ok [OF ok])
  have pos: "0 < hook_exec_recursion ?s"
    using hooks_okD(6) [OF ok] by (simp add: hook_exec_start_def)
  have e: "ch t = [] @ ch t" by simp
  have "\<exists>s1 v. hook_loop sel (call_body cb args f) n ?s (first_or (ch t) None) acc = Some (s1, Returned v) \<and>
      hooks_ok s1 ch \<and> hooks_evolve ?s ch s1 ch"
    by (rule quiet_loop [where t = t and xs = "[]", OF ok1 pos e n]) (rule sel)
  then obtain s1 v where
    s1: "hook_loop sel (call_body cb args f) n ?s (weechat_hooks ?s t) acc = Some (s1, Returned v)"
      "hooks_ok s1 ch" "hooks_evolve ?s ch s1 ch"
    unfolding chain_seg(2) [OF ok1, of t] by blast
  have "0 < hook_exec_recursion s1" using pos evolve_rec [OF s1(3)] by simp
  then obtain s2 where "hook_exec_end s1 = Some s2" using hook_exec_end_ok [OF s1(2)] by metis
  then show ?thesis using s1(1) by (simp add: hook_run_def Let_def)
qed

end

text \<open>Callbacks that unhook what they want and return what they want.\<close>

definition unhooking :: "(nat \<Rightarrow> cstr list \<Rightarrow> hooks \<Rightarrow> nat option list) \<Rightarrow> (nat \<Rightarrow> cstr list \<Rightarrow> reply) \<Rightarrow> behaviour" where
  "unhooking us rep c args s = (map Api_unhook (us c args s), rep c args)"

lemma unhooks_quiet:
  "hooks_ok s ch \<Longrightarrow> 0 < hook_exec_recursion s \<Longrightarrow>
    \<exists>s'. run_apis cb n (map Api_unhook us) s = Some (s', Returned ()) \<and> hooks_ok s' ch \<and> hooks_evolve s ch s' ch"
proof (induction us arbitrary: s)
  case (Cons u us)
  obtain s1 where s1: "unhook s u = Some s1" "hooks_ok s1 (removed_chain (hook_exec_recursion s = 0) (\<lambda>a. Some a = u) ch)"
    "hook_map s1 = removed_map (hook_exec_recursion s = 0) (\<lambda>a. Some a = u) (hook_map s)"
    "hook_exec_recursion s1 = hook_exec_recursion s"
    using unhook_removed [OF Cons.prems(1), of u] by metis
  have eq: "removed_chain (hook_exec_recursion s = 0) (\<lambda>a. Some a = u) ch = ch"
    using Cons.prems(2) by (simp add: removed_chain_def fun_eq_iff)
  have e: "hooks_evolve s ch s1 ch"
    using s1(3,4) Cons.prems(2) by (auto simp: hooks_evolve_def removed_map_def hook_same_def)
  have "0 < hook_exec_recursion s1" using Cons.prems(2) s1(4) by simp
  from Cons.IH [OF s1(2) [unfolded eq] this] show ?case
    using s1(1) evolve_trans [OF e] by (auto simp: done_with_def)
qed simp

lemma unhooking_contract: "quiet_callbacks (run_script (unhooking us rep) (Suc n))"
proof
  fix s ch c args assume "hooks_ok s ch" "0 < hook_exec_recursion s"
  from unhooks_quiet [OF this, of "run_script (unhooking us rep) n" n "us c args s"]
  show "\<exists>s' v. run_script (unhooking us rep) (Suc n) c args s = Some (s', Returned v) \<and> hooks_ok s' ch \<and> hooks_evolve s ch s' ch"
    by (auto simp: unhooking_def)
qed

interpretation unhooking: quiet_callbacks "run_script (unhooking us rep) (Suc n)" for us rep n
  by (rule unhooking_contract)

text \<open>
  Claim C23.  Sending a signal returns, after at most one step for each hook of the list, when the
  callbacks make no call but to unhook, whatever they unhook and return.  (With callbacks that hook the
  signal again the loop need not end.)
\<close>

theorem hook_signal_send_returns:
  assumes "hook_reachable beh s" "int n > hooks_count s HOOK_TYPE_SIGNAL"
  shows "\<exists>s' rc. hook_signal_send (run_script (unhooking us rep) (Suc m)) n signal s = Some (s', Returned rc)"
proof -
  obtain ch where ok: "hooks_ok s ch" using hook_reachable_ok [OF assms(1)] by blast
  have "length (ch HOOK_TYPE_SIGNAL) < n"
    using assms(2) linksD(3) [OF hooks_okD(1) [OF ok], of HOOK_TYPE_SIGNAL] by simp
  show ?thesis
    unfolding hook_signal_send_def
    by (rule unhooking.quiet_run [OF ok \<open>length (ch HOOK_TYPE_SIGNAL) < n\<close>])
      (use type_data(1) in \<open>auto simp: bind_eq_None_conv\<close>)
qed

definition signal_state :: hooks where
  "signal_state = state_after [Api_hook_signal None (Some ''s'') (Some 0), Api_hook_signal None (Some ''s'') (Some 1)]"

theorem hook_signal_send_returns_witness:
  "\<exists>s' rc. hook_signal_send (run_script (unhooking (\<lambda>c args s. [Some 0, Some 1]) (\<lambda>c args. \<lparr>rp_rc = 1, rp_text = None, rp_pointer = None\<rparr>)) (Suc 0))
    3 ''s'' signal_state = Some (s', Returned rc)"
proof -
  have "hook_reachable example_beh signal_state"
    unfolding signal_state_def by (rule state_after_reachable) (code_simp, simp)
  moreover have "hooks_count signal_state HOOK_TYPE_SIGNAL = 2" by code_simp
  ultimately show ?thesis by (intro hook_signal_send_returns) simp_all
qed

subsection \<open>Flaws\<close>

text \<open>Hooks that do not match are passed over.\<close>

lemma hook_loop_skip:
  assumes "hooks_ok s ch" "ch t = pre @ xs @ ys"
    and "\<forall>b\<in>set xs. let hk = the (hook_map s b) in hk_deleted hk \<or> hk_running hk \<noteq> 0 \<or> sel hk = Some False"
  shows "hook_loop sel body (length xs + n) s (first_or (xs @ ys) None) acc = hook_loop sel body n s (first_or ys None) acc"
  using assms(2,3)
proof (induction xs arbitrary: pre)
  case (Cons b xs)
  obtain it where it: "hooks_heap s b = Some it" "next_item it = first_or (xs @ ys) None" "hook_map s b = Some (payload it)"
    by (rule chain_item [OF assms(1)]) (use Cons.prems(1) in auto)
  have "(if hk_deleted (payload it) \<or> hk_running (payload it) \<noteq> 0 then Some False else sel (payload it)) = Some False"
    using Cons.prems(2) it(3) by (auto simp: Let_def)
  then show ?case using it Cons.IH [of "pre @ [b]"] Cons.prems by simp
qed simp

text \<open>The hooks that \<open>hook_command_run_exec\<close> calls for a command.\<close>

definition runs_for :: "cstr \<Rightarrow> hook \<Rightarrow> bool" where
  "runs_for command hk \<longleftrightarrow> hk_running hk = 0 \<and>
     (case HOOK_COMMAND_RUN hk of None \<Rightarrow> False | Some c \<Rightarrow> hook_command_run_matches command c)"

text \<open>
  Claim C24.  The loop of \<open>hook_command_run_exec\<close> is not inside an execution: when no other execution is
  running and the first hook that matches the command has a callback that unhooks it, the callback
  frees the hook, and the loop then writes to the freed hook.
\<close>

theorem hook_command_run_use_after_free:
  assumes ok: "hooks_ok s ch" and r: "hook_exec_recursion s = 0" and c: "ch HOOK_TYPE_COMMAND_RUN = xs @ a # ys"
    and command: "hd command = CHR ''/''" "command \<noteq> []"
    and first: "\<forall>b\<in>set xs. \<not> runs_for command (the (hook_map s b))" "hook_map s a = Some hk" "runs_for command hk"
    and callback: "\<forall>s'. beh (hk_callback hk) [command] s' = ([Api_unhook (Some a)], v)"
  shows "(\<exists>s1 s2. hook_update s a (\<lambda>hk. hk\<lparr>hk_running := 1\<rparr>) = Some s1 \<and>
      run_script beh (Suc m) (hk_callback hk) [command] s1 = Some (s2, Returned v) \<and> hooks_heap s2 a = None) \<and>
    hook_command_run_exec (run_script beh (Suc m)) (length xs + Suc n) command s = None"
proof -
  let ?sel = "\<lambda>hk. do { c \<leftarrow> HOOK_COMMAND_RUN hk; Some (hook_command_run_matches command c) }"
  let ?set = "\<lambda>hk. hk\<lparr>hk_running := 1\<rparr>"
  let ?f = "\<lambda>(_ :: int) v. if rp_rc v = WHOREIRC_RC_OK_EAT then (rp_rc v, True) else (WHOREIRC_RC_OK, False)"
  obtain it where it: "hooks_heap s a = Some it" "payload it = hk" using first(2) by (auto dest: payload_map_SomeD)
  have f: "hook_ok (hk\<lparr>hk_running := 1\<rparr>)" "hook_name (hk\<lparr>hk_running := 1\<rparr>) = hook_name hk" if "hook_ok hk"
    using that by (simp_all add: hook_ok_def hook_name_def split: option.splits)
  obtain s1 where s1: "hook_update s a ?set = Some s1" "hooks_ok s1 ch" "hooks_evolve s ch s1 ch"
    by (rule update_sound [of s ch a hk ?set]) (use ok first(2) f hooks_okD(4) [OF ok first(2)] in auto)
  have r1: "hook_exec_recursion s1 = 0" using r evolve_rec [OF s1(3)] by simp
  obtain s2 where s2: "unhook s1 (Some a) = Some s2"
    "hook_map s2 = removed_map (hook_exec_recursion s1 = 0) (\<lambda>b. Some b = Some a) (hook_map s1)"
    by (rule unhook_removed [OF s1(2), of "Some a"])
  have freed: "hooks_heap s2 a = None" using s2(2) r1 by (simp add: removed_map_def flip: payload_map_None)
  have run: "run_script beh (Suc m) (hk_callback hk) [command] s1 = Some (s2, Returned v)"
    using callback s2(1) by (simp add: done_with_def)
  have "hook_call (run_script beh (Suc m)) a [command] s = None"
    using it s1(1) run freed by (simp add: hook_call_def hook_update_def)
  then have body: "call_body (run_script beh (Suc m)) (\<lambda>_. [command]) ?f a WHOREIRC_RC_OK s = None"
    by (simp add: call_body_def)
  have nd: "\<not> hk_deleted hk" using hooks_okD(5,7) [OF ok] first(2) r by fastforce
  have skip: "\<forall>b\<in>set xs. let hk = the (hook_map s b) in hk_deleted hk \<or> hk_running hk \<noteq> 0 \<or> ?sel hk = Some False"
  proof
    fix b assume b: "b \<in> set xs"
    obtain k where k: "hook_map s b = Some k" "hook_ok k" "hk_type k = HOOK_TYPE_COMMAND_RUN"
      using chain_hooks [OF ok, of b HOOK_TYPE_COMMAND_RUN] b c by auto
    moreover have "\<not> hk_deleted k \<Longrightarrow> HOOK_COMMAND_RUN k \<noteq> None" using type_data [OF k(2)] k(3) by auto
    ultimately show "let hk = the (hook_map s b) in hk_deleted hk \<or> hk_running hk \<noteq> 0 \<or> ?sel hk = Some False"
      using first(1) b by (cases "hk_deleted k") (auto simp: runs_for_def Let_def split: option.splits)
  qed
  have "hook_loop ?sel (call_body (run_script beh (Suc m)) (\<lambda>_. [command]) ?f) (length xs + Suc n) s
      (first_or (xs @ a # ys) None) WHOREIRC_RC_OK = None"
    by (subst hook_loop_skip [OF ok _ skip, of HOOK_TYPE_COMMAND_RUN "[]"])
      (use c first(3) it nd body in \<open>auto simp: runs_for_def split: option.splits\<close>)
  moreover have "weechat_hooks s HOOK_TYPE_COMMAND_RUN = first_or (xs @ a # ys) None" using chain_seg(2) [OF ok] c by simp
  moreover have "bat command 0 = byte (CHR ''/'')" "weechat_hooks s HOOK_TYPE_COMMAND_RUN \<noteq> None"
    using command calculation(2) by (cases command; cases xs; simp)+
  ultimately show ?thesis
    using s1(1) run freed command(2) by (simp add: hook_command_run_exec_def)
qed

definition command_run_state :: hooks where
  "command_run_state = state_after [Api_hook_command_run None ''/b'' (Some 1), Api_hook_command_run None ''1|*'' (Some 2)]"

theorem hook_command_run_use_after_free_witness:
  "hook_command_run_exec (run_script (\<lambda>c args s. ([Api_unhook (Some 1)], \<lparr>rp_rc = 0, rp_text = None, rp_pointer = None\<rparr>)) 1) 2 ''/a'' command_run_state = None"
proof -
  have "hook_reachable example_beh command_run_state"
    unfolding command_run_state_def by (rule state_after_reachable) (code_simp, simp)
  then obtain ch where ok: "hooks_ok command_run_state ch" "hook_exec_recursion command_run_state = 0"
    using hook_reachable_ok by blast
  have "weechat_hooks command_run_state HOOK_TYPE_COMMAND_RUN = Some 0" "map_option next_item (hooks_heap command_run_state 0) = Some (Some 1)"
    "map_option next_item (hooks_heap command_run_state 1) = Some None" by code_simp+
  then have c: "ch HOOK_TYPE_COMMAND_RUN = [0] @ 1 # []" using chain_two [OF ok(1)] by simp
  have m: "map_option (runs_for ''/a'') (hook_map command_run_state 0) = Some False"
    "map_option (runs_for ''/a'') (hook_map command_run_state 1) = Some True" by code_simp+
  then obtain h0 h1 where "hook_map command_run_state 0 = Some h0" "\<not> runs_for ''/a'' h0"
    "hook_map command_run_state 1 = Some h1" "runs_for ''/a'' h1" by auto
  then show ?thesis
    using hook_command_run_use_after_free [OF ok c, of "''/a''" h1
      "\<lambda>c args s. ([Api_unhook (Some 1)], \<lparr>rp_rc = 0, rp_text = None, rp_pointer = None\<rparr>)" _ 0 0] by (simp add: numeral_2_eq_2)
qed

text \<open>The name of a \<open>NULL\<close> option or command is read although the code provides for \<open>NULL\<close>.\<close>

lemma hook_config_null: "hook_config s plugin None (Some cb) = None"
  by (simp add: hook_config_def hook_named_def hook_get_priority_and_name_def)

text \<open>
  A command with a priority in its name is not compared with the commands that exist: the same
  name can be hooked twice for a plugin.
\<close>

lemma hook_command_twice:
  "map_option (\<lambda>(s, r). hooks_count s HOOK_TYPE_COMMAND) (run_apis (run_script example_beh 2) 2
     [Api_hook_command None ''5|a'' (Some 1), Api_hook_command None ''5|a'' (Some 1)] (hook_init 0)) = Some 2 \<and>
   map_option (\<lambda>(s, r). hooks_count s HOOK_TYPE_COMMAND) (run_apis (run_script example_beh 2) 2
     [Api_hook_command None ''a'' (Some 1), Api_hook_command None ''a'' (Some 1)] (hook_init 0)) = Some 1"
  by code_simp

end
