(* ===== verification/Hook_Command_Props.thy ===== *)
theory Hook_Command_Props
  imports Hook_Props
begin

text \<open>
Properties of \<open>hook_command_exec\<close>: the choice of the command among the plugins, and the absence of
invalid accesses when it is called inside an execution.
\<close>

subsection \<open>The choice of the command\<close>

text \<open>
  Claim C28.  Of the commands of the name, one of the highest priority is chosen, one of
  the plugin itself if there is one of that priority; when no command of the name is of the plugin itself, the one that is
  chosen has a higher priority than all others, and two commands of the highest priority are ambiguous.  Only without a command of the name, a name that starts a single command stands
  for it.
\<close>

theorem hook_command_choice:
  fixes any allow :: bool and plugin :: "nat option" and name :: cstr
  assumes "hooks_ok s ch"
  defines "L \<equiv> alive_at (hook_map s) (ch HOOK_TYPE_COMMAND)"
  defines "own \<equiv> command_own plugin name L"
  defines "other \<equiv> command_other any plugin name L"
  defines "inc \<equiv> command_incomplete allow name L"
  shows "\<exists>f rc p. hook_command_find_loop any plugin name allow (hooks_heap s) (weechat_hooks s HOOK_TYPE_COMMAND)
        command_found_init = Some f \<and>
      hook_command_choose (hooks_heap s) f = Some (rc, p) \<and>
      (case p of
         Some a \<Rightarrow> \<exists>hk. (a, hk) \<in> set L \<and>
           (if own @ other = [] then inc = [(a, hk)]
            else (a, hk) \<in> set (own @ other) \<and> (\<forall>(b, q)\<in>set (own @ other). hk_priority q \<le> hk_priority hk) \<and>
              (\<forall>(b, q)\<in>set own. hk_priority q = hk_priority hk \<longrightarrow> (a, hk) \<in> set own) \<and>
              (own = [] \<longrightarrow> (\<forall>(b, q)\<in>set other. b = a \<or> hk_priority q < hk_priority hk)))
       | None \<Rightarrow>
           if own @ other = [] then rc = (if inc = [] then HOOK_COMMAND_EXEC_NOT_FOUND else HOOK_COMMAND_EXEC_AMBIGUOUS_INCOMPLETE) \<and> length inc \<noteq> 1
           else rc = HOOK_COMMAND_EXEC_AMBIGUOUS_PLUGINS \<and> own = [] \<and> length other \<ge> 2 \<and>
             hk_priority (snd (other ! 0)) = hk_priority (snd (other ! 1)))"
proof -
  note ok = assms(1)
  let ?h = "hooks_heap s"
  let ?ge = "\<lambda>x y. hk_priority (snd x) \<ge> hk_priority (snd y)"
  have prio: "hook_priority_at ?h (Some a) = Some (hk_priority hk)" if "(a, hk) \<in> set L" for a hk
    using alive_at_commands(5) [OF ok] that by (simp add: L_def)
  have sub: "set own \<subseteq> set L" "set other \<subseteq> set L" "set inc \<subseteq> set L"
    by (auto simp: own_def other_def inc_def command_own_def command_other_def command_incomplete_def)
  have s_own: "sorted_wrt ?ge own" unfolding own_def command_own_def L_def
    by (rule candidates_sorted [OF ok, of _ name]) simp
  have s_other: "sorted_wrt ?ge other" unfolding other_def command_other_def L_def
    by (rule candidates_sorted [OF ok, of _ name]) simp
  have max: "\<forall>(b, q)\<in>set xs. hk_priority q \<le> hk_priority hk" if "sorted_wrt ?ge xs" "xs = (a, hk) # ys" for xs a hk ys
    using that by auto
  define f where "f = found_of own other inc"
  have f: "hook_command_find_loop any plugin name allow ?h (weechat_hooks s HOOK_TYPE_COMMAND) command_found_init = Some f"
    unfolding f_def own_def other_def inc_def L_def by (rule find_loop_candidates [OF ok])
  consider "own = []" "other = []" | a hk ys where "own = (a, hk) # ys" "other = []"
    | b q zs where "own = []" "other = (b, q) # zs" | a hk ys b q zs where "own = (a, hk) # ys" "other = (b, q) # zs"
    by (metis list.exhaust surj_pair)
  then show ?thesis
  proof cases
    case 1
    then have c: "hook_command_choose ?h f = Some (if length inc = 1 then (HOOK_COMMAND_EXEC_NOT_FOUND, first_at inc)
        else (if inc = [] then HOOK_COMMAND_EXEC_NOT_FOUND else HOOK_COMMAND_EXEC_AMBIGUOUS_INCOMPLETE, None))"
      by (cases inc) (auto simp: hook_command_choose_def f_def found_of_def)
    show ?thesis
    proof (cases "length inc = 1")
      case True
      then obtain a hk where "inc = [(a, hk)]" by (cases inc) auto
      then show ?thesis using f c 1 sub(3) by auto
    qed (use f c 1 in auto)
  next
    case (2 a hk ys)
    then have "hook_command_choose ?h f = Some (HOOK_COMMAND_EXEC_NOT_FOUND, Some a)"
      by (simp add: hook_command_choose_def f_def found_of_def)
    then show ?thesis using f 2 sub(1) max [OF s_own 2(1)] by auto
  next
    case (3 b q zs)
    show ?thesis
    proof (cases zs)
      case Nil
      then have "hook_command_choose ?h f = Some (HOOK_COMMAND_EXEC_NOT_FOUND, Some b)"
        using 3 by (simp add: hook_command_choose_def f_def found_of_def)
      then show ?thesis using f 3 sub(2) Nil by auto
    next
      case (Cons z zs')
      obtain b' q' where z: "z = (b', q')" by (cases z)
      have p: "hook_priority_at ?h (Some b) = Some (hk_priority q)" "hook_priority_at ?h (Some b') = Some (hk_priority q')"
        using prio sub(2) 3 Cons z by auto
      have "hook_command_choose ?h f =
          Some (if hk_priority q = hk_priority q' then (HOOK_COMMAND_EXEC_AMBIGUOUS_PLUGINS, None) else (HOOK_COMMAND_EXEC_NOT_FOUND, Some b))"
        using 3 Cons z p by (simp add: hook_command_choose_def f_def found_of_def)
      moreover have "hk_priority q'' < hk_priority q" if "hk_priority q \<noteq> hk_priority q'" "(b'', q'') \<in> set zs" for b'' q''
        using that s_other unfolding 3(2) Cons z by fastforce
      ultimately show ?thesis using f 3 sub(2) Cons z max [OF s_other 3(2)] by (cases "hk_priority q = hk_priority q'") auto
    qed
  next
    case (4 a hk ys b q zs)
    have p: "hook_priority_at ?h (Some a) = Some (hk_priority hk)" "hook_priority_at ?h (Some b) = Some (hk_priority q)"
      using prio sub 4 by auto
    have "hook_command_choose ?h f = Some (HOOK_COMMAND_EXEC_NOT_FOUND, Some (if hk_priority q > hk_priority hk then b else a))"
      using 4 p by (simp add: hook_command_choose_def f_def found_of_def)
    then show ?thesis using f 4 sub max [OF s_own 4(1)] max [OF s_other 4(2)] by fastforce
  qed
qed

subsection \<open>Safety\<close>

text \<open>
  A command executed from a callback makes no invalid access, whatever its callback and
  those of the \<open>command_run\<close> hooks do.
\<close>

theorem hook_command_exec_safe:
  assumes "hook_reachable beh s" "cstr_ok command"
  shows "hook_command_exec (run_script beh n) m allow any plugin (Some command) (hook_exec_start s) \<noteq> None"
proof -
  obtain ch where ok: "hooks_ok s ch" using hook_reachable_ok [OF assms(1)] by blast
  then have "hooks_ok (hook_exec_start s) ch" by (rule hook_exec_start_ok)
  moreover have "0 < hook_exec_recursion (hook_exec_start s)" using hooks_okD(6) [OF ok] by (simp add: hook_exec_start_def)
  ultimately show ?thesis
    using scripts.command_exec_sound [of "hook_exec_start s" ch "Some command"] assms(2) unfolding sound_def by fastforce
qed

text \<open>A state with a command of two plugins.\<close>

definition command_state :: hooks where
  "command_state = state_after [Api_hook_command None ''a'' (Some 1), Api_hook_command (Some 7) ''2000|a'' (Some 2)]"

lemma command_state_reachable: "hook_reachable example_beh command_state"
  unfolding command_state_def by (rule state_after_reachable) (code_simp, simp)

theorem hook_command_exec_safe_witness:
  "hook_command_exec (run_script example_beh 3) 4 False True None (Some ''/a b'') (hook_exec_start command_state) \<noteq> None"
  by (rule hook_command_exec_safe [OF command_state_reachable]) simp

theorem hook_command_choice_witness:
  "\<exists>f rc p. hook_command_find_loop True None ''a'' False (hooks_heap command_state)
      (weechat_hooks command_state HOOK_TYPE_COMMAND) command_found_init = Some f \<and>
    hook_command_choose (hooks_heap command_state) f = Some (rc, p)"
proof -
  obtain ch where ok: "hooks_ok command_state ch" using hook_reachable_ok [OF command_state_reachable] by blast
  show ?thesis using hook_command_choice [OF ok, of True None "''a''" False] by blast
qed

text \<open>
  The number of bytes of an incomplete name is taken for a number of chars: a name with a char of
  several bytes never stands for a longer command.
\<close>

lemma hook_command_incomplete_multibyte:
  assumes "utf8_strlen (Some s) < length s" "utf8_strlen (Some s) < utf8_strlen (Some t)"
  shows "string_strncasecmp (Some s) (Some t) (int (length s)) \<noteq> 0"
proof -
  have l: "length (fold_keys r x) = utf8_strlen_loop x" for r x
    by (induction x rule: utf8_strlen_loop.induct) simp_all
  have "take (length s) (fold_keys 26 s) \<noteq> take (length s) (fold_keys 26 t)"
  proof
    assume "take (length s) (fold_keys 26 s) = take (length s) (fold_keys 26 t)"
    then have "length (take (length s) (fold_keys 26 s)) = length (take (length s) (fold_keys 26 t))" by simp
    then show False using assms by (simp add: l utf8_strlen_def min_def split: if_splits)
  qed
  then show ?thesis
    by (simp add: string_strncasecmp_def string_strncasecmp_loop_26 string_strncasecmp_range_loop_keys list_cmp_0)
qed

text \<open>The command of the higher priority is chosen, although the other one is of the plugin itself.\<close>

lemma hook_command_chosen:
  "map_option snd (Option.bind (hook_command_find_loop True None ''a'' False (hooks_heap command_state)
      (weechat_hooks command_state HOOK_TYPE_COMMAND) command_found_init) (hook_command_choose (hooks_heap command_state))) =
   Some (Some 1)"
  by code_simp

end
