(* ===== verification/Irc_Message.thy ===== *)
theory Irc_Message
  imports String_Split Numbers "HOL-Library.AList"
begin

text \<open>
The messages of IRC, \<open>src/plugins/irc/irc-message.c\<close>: data and parsing; the split is in the theory
Irc_Split.  The functions of the core that the plugin calls through
its interface (\<open>weechat_strndup\<close>, \<open>weechat_string_split\<close>, \<open>weechat_strcasecmp\<close> and others)
are the models of those functions.
\<close>

subsection \<open>Data\<close>

text \<open>What the functions on messages read of a server.\<close>

record irc_server =
  srv_split_msg_max_length :: int
  srv_nick_max_length :: int
  srv_chantypes :: "cstr option"

text \<open>A table of strings, as an association list.\<close>

type_synonym table = "(cstr \<times> cstr) list"

text \<open>What \<open>snprintf\<close> leaves in a buffer of \<open>n\<close> bytes.\<close>

definition fits :: "nat \<Rightarrow> cstr \<Rightarrow> cstr" where
  "fits n s = take (n - 1) s"

definition skip_spaces :: "cstr \<Rightarrow> cstr" where
  "skip_spaces s = dropWhile (\<lambda>c. c = CHR '' '') s"

definition IRC_CHANNEL_DEFAULT_CHANTYPES :: cstr where
  "IRC_CHANNEL_DEFAULT_CHANTYPES = ''#&+!''"

text \<open>For an empty string the char looked for is NUL: nothing is found.\<close>

definition irc_channel_is_channel :: "irc_server option \<Rightarrow> cstr option \<Rightarrow> bool" where
  "irc_channel_is_channel server string =
     (case string of
        None \<Rightarrow> False
      | Some s \<Rightarrow>
          strpbrk (take 1 s)
            (case server of
               Some srv \<Rightarrow> (case srv_chantypes srv of Some ct \<Rightarrow> ct | None \<Rightarrow> IRC_CHANNEL_DEFAULT_CHANTYPES)
             | None \<Rightarrow> IRC_CHANNEL_DEFAULT_CHANTYPES) \<noteq> None)"


subsection \<open>Parsing\<close>

text \<open>The results of \<open>irc_message_parse\<close>; all pointers for results are given.\<close>

record irc_parsed =
  msg_tags :: "cstr option"
  msg_message_without_tags :: "cstr option"
  msg_nick :: "cstr option"
  msg_host :: "cstr option"
  msg_command :: "cstr option"
  msg_channel :: "cstr option"
  msg_arguments :: "cstr option"
  msg_text :: "cstr option"
  msg_pos_command :: int
  msg_pos_arguments :: int
  msg_pos_channel :: int
  msg_pos_text :: int

definition irc_parsed_init :: irc_parsed where
  "irc_parsed_init =
     \<lparr>msg_tags = None, msg_message_without_tags = None, msg_nick = None, msg_host = None, msg_command = None,
      msg_channel = None, msg_arguments = None, msg_text = None, msg_pos_command = - 1, msg_pos_arguments = - 1,
      msg_pos_channel = - 1, msg_pos_text = - 1\<rparr>"

text \<open>
  A pointer into the message is the suffix that starts there; its index is the difference of the
  lengths.  \<open>up_to p q\<close> is the string between two pointers.
\<close>

definition up_to :: "cstr \<Rightarrow> cstr \<Rightarrow> cstr" where
  "up_to p q = take (length p - length q) p"

definition index_in :: "cstr \<Rightarrow> cstr \<Rightarrow> int" where
  "index_in message p = int (length message) - int (length p)"

text \<open>The tags before the message.\<close>

definition irc_parse_tags :: "cstr \<Rightarrow> irc_parsed \<Rightarrow> irc_parsed \<times> cstr" where
  "irc_parse_tags ptr_message r =
     (if bat ptr_message 0 = byte (CHR ''@'') then
        (case strchr ptr_message (CHR '' '') of
           None \<Rightarrow> (r, ptr_message)
         | Some pos \<Rightarrow> (r\<lparr>msg_tags := Some (up_to (tl ptr_message) pos)\<rparr>, skip_spaces (tl pos)))
      else (r, ptr_message))"

text \<open>The prefix with the nick and the host.\<close>

definition irc_parse_prefix :: "cstr \<Rightarrow> irc_parsed \<Rightarrow> irc_parsed \<times> cstr" where
  "irc_parse_prefix ptr_message r =
     (if bat ptr_message 0 = byte (CHR '':'') then
        (let pos3 = strchr ptr_message (CHR ''@'');
             pos2 = strchr ptr_message (CHR ''!'');
             pos = strchr ptr_message (CHR '' '');
             pos2 = (case pos2 of
                       None \<Rightarrow> pos3
                     | Some p2 \<Rightarrow> (case pos of None \<Rightarrow> pos2 | Some p \<Rightarrow> if length p2 < length p then pos3 else pos2));
             r = (case pos2 of
                    Some p2 \<Rightarrow>
                      (case pos of
                         None \<Rightarrow> r\<lparr>msg_nick := Some (up_to (tl ptr_message) p2)\<rparr>
                       | Some p \<Rightarrow> r\<lparr>msg_nick := Some (up_to (tl ptr_message) (if length p < length p2 then p2 else p))\<rparr>)
                  | None \<Rightarrow>
                      (case pos of
                         None \<Rightarrow> r
                       | Some p \<Rightarrow> r\<lparr>msg_nick := Some (up_to (tl ptr_message) p)\<rparr>))
         in (case pos of
               Some p \<Rightarrow> (r\<lparr>msg_host := Some (up_to (tl ptr_message) p)\<rparr>, skip_spaces (tl p))
             | None \<Rightarrow> (r\<lparr>msg_host := Some (tl ptr_message)\<rparr>, [])))
      else (r, ptr_message))"

text \<open>A channel and the text after it.\<close>

definition irc_parse_channel :: "cstr \<Rightarrow> cstr \<Rightarrow> irc_parsed \<Rightarrow> irc_parsed" where
  "irc_parse_channel message pos r =
     (let pos2 = strchr pos (CHR '' '');
          r = r\<lparr>msg_channel := Some (case pos2 of Some p2 \<Rightarrow> up_to pos p2 | None \<Rightarrow> pos),
                msg_pos_channel := index_in message pos\<rparr>
      in (case pos2 of
            None \<Rightarrow> r
          | Some p2 \<Rightarrow>
              let p2 = skip_spaces p2;
                  p2 = (if bat p2 0 = byte (CHR '':'') then tl p2 else p2)
              in r\<lparr>msg_text := Some p2, msg_pos_text := index_in message p2\<rparr>))"

text \<open>The arguments: a text, a channel, or a nick that may be followed by a channel.\<close>

definition irc_parse_arguments :: "irc_server option \<Rightarrow> cstr \<Rightarrow> cstr \<Rightarrow> irc_parsed \<Rightarrow> irc_parsed" where
  "irc_parse_arguments server message pos r =
     (if bat pos 0 = byte (CHR '':'') then
        r\<lparr>msg_text := Some (tl pos), msg_pos_text := index_in message pos + 1\<rparr>
      else if irc_channel_is_channel server (Some pos) then irc_parse_channel message pos r
      else
        (let pos2 = strchr pos (CHR '' '');
             r = (if msg_nick r = None then
                    r\<lparr>msg_nick := Some (case pos2 of Some p2 \<Rightarrow> up_to pos p2 | None \<Rightarrow> pos)\<rparr>
                  else r)
         in (case pos2 of
               None \<Rightarrow> r
             | Some pos3 \<Rightarrow>
                 let p2 = skip_spaces (tl pos3)
                 in if irc_channel_is_channel server (Some p2) then irc_parse_channel message p2 r
                    else
                      (let r = r\<lparr>msg_channel := Some (up_to pos pos3), msg_pos_channel := index_in message pos\<rparr>;
                           p4 = skip_spaces pos3;
                           p4 = (if bat p4 0 = byte (CHR '':'') then tl p4 else p4)
                       in r\<lparr>msg_text := Some p4, msg_pos_text := index_in message p4\<rparr>))))"

definition irc_parse_command :: "irc_server option \<Rightarrow> cstr \<Rightarrow> cstr \<Rightarrow> irc_parsed \<Rightarrow> irc_parsed" where
  "irc_parse_command server message ptr_message r =
     (if ptr_message = [] then r
      else (case strchr ptr_message (CHR '' '') of
         None \<Rightarrow> r\<lparr>msg_command := Some ptr_message, msg_pos_command := index_in message ptr_message\<rparr>
       | Some p \<Rightarrow>
           let pos = skip_spaces (tl p);
               r = r\<lparr>msg_command := Some (up_to ptr_message p), msg_pos_command := index_in message ptr_message,
                     msg_arguments := Some pos, msg_pos_arguments := index_in message pos\<rparr>;
               pos = (if bat pos 0 = byte (CHR '':'') \<and>
                         (take 5 ptr_message = ''JOIN '' \<or> take 5 ptr_message = ''PART '')
                      then tl pos else pos)
           in irc_parse_arguments server message pos r))"

definition irc_message_parse :: "irc_server option \<Rightarrow> cstr option \<Rightarrow> irc_parsed" where
  "irc_message_parse server message =
     (case message of
        None \<Rightarrow> irc_parsed_init
      | Some m \<Rightarrow>
          let (r, ptr_message) = irc_parse_tags m irc_parsed_init;
              r = r\<lparr>msg_message_without_tags := Some ptr_message\<rparr>;
              (r, ptr_message) = irc_parse_prefix ptr_message r
          in irc_parse_command server m ptr_message r)"

definition irc_message_parse_to_hashtable :: "irc_server option \<Rightarrow> cstr option \<Rightarrow> table" where
  "irc_message_parse_to_hashtable server message =
     (let r = irc_message_parse server message; str = (\<lambda>x. case x of None \<Rightarrow> [] | Some s \<Rightarrow> s)
      in fold (\<lambda>(k, v). AList.update k v)
        [(''tags'', str (msg_tags r)), (''message_without_tags'', str (msg_message_without_tags r)),
         (''nick'', str (msg_nick r)), (''host'', str (msg_host r)), (''command'', str (msg_command r)),
         (''channel'', str (msg_channel r)), (''arguments'', str (msg_arguments r)), (''text'', str (msg_text r)),
         (''pos_command'', string_of_int (msg_pos_command r)), (''pos_arguments'', string_of_int (msg_pos_arguments r)),
         (''pos_channel'', string_of_int (msg_pos_channel r)), (''pos_text'', string_of_int (msg_pos_text r))] [])"


subsection \<open>Properties of the parser\<close>

lemma bat_head: "c \<noteq> NUL \<Longrightarrow> bat s 0 = byte c \<longleftrightarrow> (\<exists>t. s = c # t)"
  by (cases s) (auto simp only: bat_Cons_0 of_char_eq_iff list.simps bat_0_Nil byte_0_iff eq_commute [of 0])

lemma strchr_append [simp]: "c \<notin> set a \<Longrightarrow> strchr (a @ c # b) c = Some (c # b)"
  by (induction a) (auto simp: strpbrk_def Let_def)

lemma strchr_None [simp]: "c \<notin> set a \<Longrightarrow> strchr a c = None"
  by (simp add: strpbrk_def Let_def) 

lemma strchr_suffix: "strchr s c = Some p \<Longrightarrow> suffix p s \<and> p \<noteq> [] \<and> hd p = c"
  using suffix_dropWhile [of "\<lambda>d. d \<notin> set [c]" s] hd_dropWhile [of "\<lambda>d. d \<notin> set [c]" s]
  by (auto simp: strpbrk_def Let_def simp del: dropWhile_eq_Nil_conv split: if_splits)

lemma skip_spaces_suffix: "suffix (skip_spaces s) s"
  by (simp add: skip_spaces_def suffix_dropWhile)

lemma skip_spaces_simps [simp]:
  "skip_spaces [] = []" "skip_spaces (c # s) = (if c = CHR '' '' then skip_spaces s else c # s)"
  by (simp_all add: skip_spaces_def)

lemma up_to_append [simp]: "up_to (a @ b) b = a"
  by (simp add: up_to_def)

lemma tl_suffix: "suffix p m \<Longrightarrow> suffix (tl p) m"
  by (cases p) (auto intro: suffix_ConsD)

lemma suffix_index: "suffix p m \<Longrightarrow> drop (nat (index_in m p)) m = p \<and> 0 \<le> index_in m p \<and> index_in m p \<le> int (length m)"
  by (auto simp: suffix_def index_in_def nat_diff_distrib)

text \<open>What the indexes stand for.\<close>

definition found_at :: "cstr \<Rightarrow> int \<Rightarrow> cstr \<Rightarrow> bool" where
  "found_at m i x \<longleftrightarrow> 0 \<le> i \<and> i \<le> int (length m) \<and> take (length x) (drop (nat i) m) = x"

definition rest_at :: "cstr \<Rightarrow> int \<Rightarrow> cstr \<Rightarrow> bool" where
  "rest_at m i x \<longleftrightarrow> 0 \<le> i \<and> i \<le> int (length m) \<and> drop (nat i) m = x"

definition indexed_by :: "(int \<Rightarrow> cstr \<Rightarrow> bool) \<Rightarrow> int \<Rightarrow> cstr option \<Rightarrow> bool" where
  "indexed_by at i x = (case x of None \<Rightarrow> i = - 1 | Some s \<Rightarrow> at i s)"

lemma indexed_by_simps [simp]: "indexed_by at i None = (i = - 1)" "indexed_by at i (Some s) = at i s"
  by (simp_all add: indexed_by_def)

definition indexed :: "cstr \<Rightarrow> irc_parsed \<Rightarrow> bool" where
  "indexed m r \<longleftrightarrow>
     indexed_by (found_at m) (msg_pos_command r) (msg_command r) \<and>
     indexed_by (rest_at m) (msg_pos_arguments r) (msg_arguments r) \<and>
     indexed_by (found_at m) (msg_pos_channel r) (msg_channel r) \<and>
     indexed_by (rest_at m) (msg_pos_text r) (msg_text r)"

lemma found_up_to: "suffix p m \<Longrightarrow> found_at m (index_in m p) (up_to p q)"
  using suffix_index [of p m] by (simp add: found_at_def up_to_def min_def)

lemma found_whole: "suffix p m \<Longrightarrow> found_at m (index_in m p) p"
  using suffix_index [of p m] by (simp add: found_at_def)

lemma rest_suffix: "suffix p m \<Longrightarrow> rest_at m (index_in m p) p"
  using suffix_index [of p m] by (simp add: rest_at_def)

lemma suffix_space: "strchr p c = Some q \<Longrightarrow> suffix p m \<Longrightarrow> suffix q m"
  using strchr_suffix suffix_order.trans by blast

lemma suffix_skip: "suffix p m \<Longrightarrow> suffix (skip_spaces p) m"
  using skip_spaces_suffix suffix_order.trans by blast

lemmas suffix_rules = suffix_skip tl_suffix suffix_space

lemma indexed_fields [simp]:
  "indexed m (r\<lparr>msg_tags := a\<rparr>) = indexed m r" "indexed m (r\<lparr>msg_nick := a\<rparr>) = indexed m r"
  "indexed m (r\<lparr>msg_host := a\<rparr>) = indexed m r" "indexed m (r\<lparr>msg_message_without_tags := a\<rparr>) = indexed m r"
  by (simp_all add: indexed_def)

lemma parse_channel_indexed: "indexed m r \<Longrightarrow> msg_text r = None \<Longrightarrow> msg_pos_text r = - 1 \<Longrightarrow> suffix pos m \<Longrightarrow> indexed m (irc_parse_channel m pos r)"
  by (auto simp: irc_parse_channel_def indexed_def Let_def intro!: found_up_to found_whole rest_suffix
    intro: suffix_rules split: option.split)

lemma parse_arguments_indexed:
  assumes "indexed m r" "msg_text r = None" "msg_channel r = None" "suffix pos m"
  shows "indexed m (irc_parse_arguments server m pos r)"
proof -
  have t: "msg_pos_text r = - 1" using assms(1,2) by (simp add: indexed_def)
  show ?thesis
  proof (cases "bat pos 0 = byte (CHR '':'')")
    case True
    then obtain t' where p: "pos = CHR '':'' # t'" using bat_head [of "CHR '':''"] by auto
    then have "suffix t' m" using tl_suffix [OF assms(4)] by simp
    moreover have "index_in m pos + 1 = index_in m t'" by (simp add: p index_in_def)
    ultimately show ?thesis
      using assms(1) rest_suffix [of t' m] p by (simp add: irc_parse_arguments_def indexed_def)
  next
    case False
    show ?thesis
      using assms t False unfolding irc_parse_arguments_def Let_def
      by (auto intro!: parse_channel_indexed intro: suffix_rules split: option.split)
         (auto simp: indexed_def intro!: found_up_to rest_suffix intro: suffix_rules)
  qed
qed

text \<open>
  Claim C32.  The indexes that \<open>irc_message_parse\<close> returns point to the command, the arguments, the
  channel and the text in the message, for every message.
\<close>

theorem irc_message_parse_indexes: "indexed m (irc_message_parse server (Some m))"
proof -
  have init: "indexed m irc_parsed_init" by (simp add: indexed_def irc_parsed_init_def)
  obtain r1 p1 where t: "irc_parse_tags m irc_parsed_init = (r1, p1)" by (cases "irc_parse_tags m irc_parsed_init")
  have 1: "indexed m r1" "msg_text r1 = None" "msg_channel r1 = None" "msg_command r1 = None" "msg_arguments r1 = None" "suffix p1 m"
    using t init by (auto simp: irc_parse_tags_def irc_parsed_init_def indexed_def intro: suffix_rules split: if_splits option.splits)
  let ?r1 = "r1\<lparr>msg_message_without_tags := Some p1\<rparr>"
  obtain r2 p2 where p: "irc_parse_prefix p1 ?r1 = (r2, p2)" by (cases "irc_parse_prefix p1 ?r1")
  have 2: "indexed m r2" "msg_text r2 = None" "msg_channel r2 = None" "suffix p2 m"
    using p 1 by (auto simp: irc_parse_prefix_def Let_def intro: suffix_rules split: if_splits option.splits)
  have "indexed m (irc_parse_command server m p2 r2)"
    using 2 by (auto simp: irc_parse_command_def Let_def intro!: parse_arguments_indexed intro: suffix_rules split: option.split)
      (auto simp: indexed_def intro!: found_up_to found_whole rest_suffix intro: suffix_rules)
  then show ?thesis by (simp add: irc_message_parse_def t p)
qed

theorem irc_message_parse_indexes_witness:
  "indexed '':a!b@c PRIVMSG #d :e'' (irc_message_parse None (Some '':a!b@c PRIVMSG #d :e''))"
  by (rule irc_message_parse_indexes)

text \<open>A message as a server sends it.\<close>

definition irc_message_of :: "cstr option \<Rightarrow> cstr \<Rightarrow> cstr \<Rightarrow> cstr \<Rightarrow> cstr \<Rightarrow> cstr" where
  "irc_message_of tags nick address command arguments =
     (case tags of None \<Rightarrow> [] | Some t \<Rightarrow> CHR ''@'' # t @ '' '') @
     CHR '':'' # nick @ CHR ''!'' # address @ CHR '' '' # command @ CHR '' '' # arguments"

lemma strchr_skip:
  assumes "c \<notin> set a"
  shows "strchr (a @ b) c = strchr b c"
proof -
  have "dropWhile (\<lambda>d. d \<notin> set [c]) (a @ b) = dropWhile (\<lambda>d. d \<notin> set [c]) b"
    by (rule dropWhile_append2) (use assms in auto)
  then show ?thesis unfolding strpbrk_def by (simp only:)
qed

lemma strchr_Cons: "strchr (d # s) c = (if d = c then Some (d # s) else strchr s c)"
  by (simp add: strpbrk_def Let_def del: dropWhile_eq_Nil_conv)

text \<open>
  Claim C33.  A message written from its parts is parsed into the same parts: the tags, the nick,
  the host, the command, the channel and the text.
\<close>

theorem irc_message_parse_roundtrip:
  fixes body :: cstr
  assumes "CHR '' '' \<notin> set (case tags of None \<Rightarrow> [] | Some t \<Rightarrow> t)" "CHR '' '' \<notin> set nick" "CHR ''!'' \<notin> set nick"
    and "CHR '' '' \<notin> set address" "CHR '' '' \<notin> set command" "command \<noteq> []"
    and "irc_channel_is_channel server (Some channel)" "CHR '' '' \<notin> set channel" "hd channel \<noteq> CHR '':''"
  defines "r \<equiv> irc_message_parse server (Some (irc_message_of tags nick address command (channel @ '' :'' @ body)))"
  shows "msg_tags r = tags \<and> msg_nick r = Some nick \<and> msg_host r = Some (nick @ CHR ''!'' # address) \<and>
    msg_command r = Some command \<and> msg_channel r = Some channel \<and> msg_text r = Some body \<and>
    msg_arguments r = Some (channel @ '' :'' @ body)"
proof -
  let ?args = "channel @ CHR '' '' # CHR '':'' # body"
  let ?cmd = "command @ CHR '' '' # ?args"
  let ?rest = "address @ CHR '' '' # ?cmd"
  let ?m1 = "CHR '':'' # nick @ CHR ''!'' # ?rest"
  let ?m = "irc_message_of tags nick address command ?args"
  obtain c cs where ch: "channel = c # cs" "c \<noteq> CHR '':''" "c \<noteq> CHR '' ''"
    using assms(7-9) by (cases channel) (auto simp: irc_channel_is_channel_def strpbrk_def)
  obtain d ds where cmd: "command = d # ds" "d \<noteq> CHR '' ''" using assms(5,6) by (cases command) auto
  define r0 where "r0 = irc_parsed_init\<lparr>msg_tags := tags\<rparr>"
  have t: "irc_parse_tags ?m irc_parsed_init = (r0, ?m1)"
    using assms(1) by (cases tags) (auto simp: irc_parse_tags_def irc_message_of_def r0_def irc_parsed_init_def
      strchr_Cons up_to_def strchr_skip)
  define r1 where "r1 = r0\<lparr>msg_message_without_tags := Some ?m1\<rparr>"
  have bang: "strchr ?m1 (CHR ''!'') = Some (CHR ''!'' # ?rest)"
    using assms(3) by (simp add: strchr_Cons strchr_skip)
  have space: "strchr ?m1 (CHR '' '') = Some (CHR '' '' # ?cmd)"
    using assms(2,4) by (simp add: strchr_Cons strchr_skip)
  define r2 where "r2 = r1\<lparr>msg_nick := Some nick, msg_host := Some (nick @ CHR ''!'' # address)\<rparr>"
  have p: "irc_parse_prefix ?m1 r1 = (r2, ?cmd)"
    unfolding irc_parse_prefix_def bang space using cmd by (simp add: up_to_def r2_def)
  have is_ch: "irc_channel_is_channel server (Some ?args)"
    using assms(7) ch(1) by (simp add: irc_channel_is_channel_def)
  have a: "strchr ?args (CHR '' '') = Some (CHR '' '' # CHR '':'' # body)" using assms(8) by (simp add: strchr_skip strchr_Cons)
  have c1: "strchr ?cmd (CHR '' '') = Some (CHR '' '' # ?args)" using assms(5) by (simp add: strchr_skip strchr_Cons)
  have b: "bat ?args 0 \<noteq> byte (CHR '':'')" using bat_head [of "CHR '':''" ?args] ch by auto
  have "irc_parse_command server ?m ?cmd r2 = irc_parse_channel ?m ?args
      (r2\<lparr>msg_command := Some command, msg_pos_command := index_in ?m ?cmd, msg_arguments := Some ?args, msg_pos_arguments := index_in ?m ?args\<rparr>)"
    unfolding irc_parse_command_def c1 irc_parse_arguments_def
    using cmd(1) ch(1,3) b is_ch by (simp add: up_to_def Let_def)
  moreover have "r = irc_parse_command server ?m ?cmd r2"
    unfolding r_def append_Cons append_Nil irc_message_parse_def option.case t prod.case Let_def r1_def [symmetric] p ..
  ultimately show ?thesis
    by (simp add: irc_parse_channel_def a up_to_def r2_def r1_def r0_def Let_def irc_parsed_init_def)
qed

theorem irc_message_parse_roundtrip_witness:
  "msg_text (irc_message_parse None (Some (irc_message_of (Some ''time=1'') ''nick'' ''user@host'' ''PRIVMSG'' (''#chan'' @ '' :'' @ ''hi all'')))) =
    Some ''hi all''"
  using irc_message_parse_roundtrip [of "Some ''time=1''" "''nick''" "''user@host''" "''PRIVMSG''" None "''#chan''" "''hi all''"]
  by (simp add: irc_channel_is_channel_def strpbrk_def IRC_CHANNEL_DEFAULT_CHANTYPES_def)

subsection \<open>Charset, hosts and variables\<close>

text \<open>The modifier is an argument; \<open>pos_start\<close> is in the message.\<close>

definition irc_message_convert_charset ::
  "(cstr \<Rightarrow> cstr option \<Rightarrow> cstr \<Rightarrow> cstr option) \<Rightarrow> cstr \<Rightarrow> nat \<Rightarrow> cstr \<Rightarrow> cstr option \<Rightarrow> cstr option" where
  "irc_message_convert_charset hook_modifier_exec message pos_start modifier modifier_data =
     (case hook_modifier_exec modifier modifier_data (drop pos_start message) of
        None \<Rightarrow> None
      | Some t \<Rightarrow> Some (take pos_start message @ t))"

text \<open>The host up to a space, in a buffer of \<open>n\<close> bytes, without a colon before it.\<close>

definition irc_host_start :: "nat \<Rightarrow> cstr \<Rightarrow> cstr" where
  "irc_host_start n host =
     (let ptr_host = (case strchr host (CHR '' '') of
            Some pos_space \<Rightarrow>
              if length (up_to host pos_space) < n then up_to host pos_space else fits n host
          | None \<Rightarrow> host)
      in if bat ptr_host 0 = byte (CHR '':'') then tl ptr_host else ptr_host)"

definition irc_message_get_nick_from_host :: "cstr option \<Rightarrow> cstr option" where
  "irc_message_get_nick_from_host host =
     (case host of
        None \<Rightarrow> None
      | Some h \<Rightarrow>
          let ptr_host = irc_host_start 128 h
          in (case strchr ptr_host (CHR ''!'') of
                Some pos \<Rightarrow> if length (up_to ptr_host pos) < 128 then Some (up_to ptr_host pos) else Some (fits 128 ptr_host)
              | None \<Rightarrow> Some (fits 128 ptr_host)))"

definition irc_message_get_address_from_host :: "cstr option \<Rightarrow> cstr" where
  "irc_message_get_address_from_host host =
     (case host of
        None \<Rightarrow> []
      | Some h \<Rightarrow>
          let ptr_host = irc_host_start 256 h
          in fits 256 (case strchr ptr_host (CHR ''!'') of Some pos \<Rightarrow> tl pos | None \<Rightarrow> ptr_host))"

text \<open>The nick and the name of the server are arguments; the outer \<open>None\<close> is that of \<open>string_replace\<close>.\<close>

definition irc_message_replace_vars ::
  "(cstr option \<times> cstr) option \<Rightarrow> cstr option \<Rightarrow> cstr option \<Rightarrow> cstr option option" where
  "irc_message_replace_vars server channel_name string =
     (let var_nick = (case server of Some (Some nick, _) \<Rightarrow> nick | _ \<Rightarrow> []);
          var_channel = (case channel_name of Some c \<Rightarrow> c | None \<Rightarrow> []);
          var_server = (case server of Some (_, name) \<Rightarrow> name | None \<Rightarrow> []);
          replace = (\<lambda>search by s. map_option fst (string_replace s (Some search) (Some by)))
      in do {
           temp \<leftarrow> replace ''$nick'' var_nick string;
           temp \<leftarrow> replace ''$channel'' var_channel temp;
           replace ''$server'' var_server temp })"

text \<open>Nicks and addresses of a message of a server that fit in the buffers are found.\<close>

lemma strchr_up_to:
  assumes "c \<notin> set a"
  shows "strchr (a @ c # b) c = Some (c # b)" "up_to (a @ c # b) (c # b) = a"
  using assms by simp_all

lemma irc_message_get_nick:
  assumes "CHR '' '' \<notin> set (nick @ address)" "CHR ''!'' \<notin> set nick" "length nick < 128"
    and "length (nick @ address) + 2 < 128" "nick \<noteq> []" "hd nick \<noteq> CHR '':''"
  shows "irc_message_get_nick_from_host (Some (CHR '':'' # nick @ CHR ''!'' # address @ CHR '' '' # rest)) = Some nick"
    "irc_message_get_address_from_host (Some (CHR '':'' # nick @ CHR ''!'' # address @ CHR '' '' # rest)) = address"
proof -
  let ?pre = "CHR '':'' # nick @ CHR ''!'' # address"
  have sp: "strchr (?pre @ CHR '' '' # rest) (CHR '' '') = Some (CHR '' '' # rest)"
    using assms(1) by (intro strchr_append) auto
  have start: "irc_host_start n (?pre @ CHR '' '' # rest) = nick @ CHR ''!'' # address" if "128 \<le> n" for n
    using that assms(4) by (simp only: irc_host_start_def sp option.case up_to_append Let_def) simp
  have "strchr (nick @ CHR ''!'' # address) (CHR ''!'') = Some (CHR ''!'' # address)" using assms(2) by simp
  then show "irc_message_get_nick_from_host (Some (CHR '':'' # nick @ CHR ''!'' # address @ CHR '' '' # rest)) = Some nick"
    "irc_message_get_address_from_host (Some (CHR '':'' # nick @ CHR ''!'' # address @ CHR '' '' # rest)) = address"
    using start [of 128] start [of 256] assms(3,4)
    by (simp_all add: irc_message_get_nick_from_host_def irc_message_get_address_from_host_def fits_def)
qed

end
