(* ===== verification/Irc_Split.thy ===== *)
theory Irc_Split
  imports Irc_Message
begin

text \<open>
The splitting of the IRC messages that are longer than what a server accepts
(\<open>irc_message_split\<close> and the functions it calls, in \<open>src/plugins/irc/irc-message.c\<close>), and what it
shows: the parts give the arguments back, the length of the messages, and when the split returns.
\<close>

subsection \<open>Splitting\<close>

text \<open>A message and its arguments are added to the table with their number.\<close>

definition irc_message_split_add :: "int \<Rightarrow> cstr option \<Rightarrow> cstr option \<Rightarrow> cstr option \<Rightarrow> table \<Rightarrow> table" where
  "irc_message_split_add number tags message arguments t =
     (let t = (case message of
                 None \<Rightarrow> t
               | Some m \<Rightarrow> AList.update (''msg'' @ string_of_int number) ((case tags of None \<Rightarrow> [] | Some x \<Rightarrow> x) @ m) t);
          t = (case arguments of
                 None \<Rightarrow> t
               | Some a \<Rightarrow> AList.update (''args'' @ string_of_int number) a t)
      in AList.update ''count'' (string_of_int number) t)"

text \<open>
  The end of the part of the arguments that fits, with the last delimiter seen, as indexes.  The
  lengths are those of the code; \<open>n\<close> is \<open>pos - arguments\<close>.
\<close>

fun split_part_end :: "char \<Rightarrow> int \<Rightarrow> cstr \<Rightarrow> nat \<Rightarrow> nat option \<Rightarrow> nat \<times> nat option" where
  "split_part_end delimiter max_length [] n last_delim = (n, last_delim)"
| "split_part_end delimiter max_length (c # s) n last_delim =
     (let last_delim = (if c = delimiter then Some n else last_delim);
          k = utf8_char_size (Some (c # s))
      in if int (n + k) > max_length then (n, last_delim)
         else split_part_end delimiter max_length (utf8_skip (c # s)) (n + k) last_delim)"

text \<open>The length of a part and of what is consumed.\<close>

definition split_part :: "char \<Rightarrow> int \<Rightarrow> cstr \<Rightarrow> nat \<times> nat" where
  "split_part delimiter max_length arguments =
     (let (n, last_delim) = split_part_end delimiter max_length arguments 0 None;
          pos = (case last_delim of Some d \<Rightarrow> if n < length arguments then d else n | None \<Rightarrow> n)
      in (pos, if Some pos = last_delim then pos + 1 else pos))"

text \<open>The message with a part, in a buffer of 8192 bytes.\<close>

definition split_message :: "cstr option \<Rightarrow> cstr \<Rightarrow> cstr option \<Rightarrow> cstr option \<Rightarrow> cstr \<Rightarrow> cstr option \<Rightarrow> cstr" where
  "split_message host command target pre part suf =
     (let str = (\<lambda>x. case x of None \<Rightarrow> [] | Some s \<Rightarrow> s)
      in fits 8192 (str host @ (if host \<noteq> None then '' '' else []) @ command @ '' '' @ str target @
           (if str target \<noteq> [] then '' '' else []) @ str pre @ part @ str suf))"

text \<open>The loop does not return when a part is empty and nothing is consumed.\<close>

partial_function (option) split_parts_loop ::
  "char \<Rightarrow> int \<Rightarrow> (cstr \<Rightarrow> cstr) \<Rightarrow> cstr option \<Rightarrow> cstr \<Rightarrow> int \<Rightarrow> table \<Rightarrow> table option" where
  "split_parts_loop delimiter max_length build tags arguments number t =
     (if arguments = [] then Some t
      else let (pos, next) = split_part delimiter max_length arguments;
               part = take pos arguments
           in split_parts_loop delimiter max_length build tags (drop next arguments) (number + 1)
                (irc_message_split_add number tags (Some (build part)) (Some part) t))"

declare split_parts_loop.simps [code]

definition split_room :: "cstr option \<Rightarrow> cstr \<Rightarrow> cstr option \<Rightarrow> cstr option \<Rightarrow> cstr option \<Rightarrow> int \<Rightarrow> int \<Rightarrow> int" where
  "split_room host command target pre suf max_length_host max_length =
     (let len = (\<lambda>x. case x of None \<Rightarrow> 0 | Some s \<Rightarrow> int (length s))
      in max_length - 2 - (if max_length_host \<ge> 0 then max_length_host else if host \<noteq> None then len host + 1 else 0)
         - (int (length command) + 1) - len target - len pre - len suf)"

text \<open>The table and the returned code; \<open>None\<close> when the function does not return.\<close>

definition irc_message_split_string ::
  "table \<Rightarrow> cstr option \<Rightarrow> cstr option \<Rightarrow> cstr \<Rightarrow> cstr option \<Rightarrow> cstr option \<Rightarrow> cstr option \<Rightarrow> cstr option \<Rightarrow>
   char \<Rightarrow> int \<Rightarrow> int \<Rightarrow> (table \<times> bool) option" where
  "irc_message_split_string t tags host command target pre arguments suf delimiter max_length_host max_length =
     (let room = split_room host command target pre suf max_length_host max_length;
          build = (\<lambda>part. split_message host command target pre part suf)
      in if room < 2 then Some (t, False)
         else case arguments of
           None \<Rightarrow> Some (irc_message_split_add 1 tags (Some (build [])) (Some []) t, True)
         | Some args \<Rightarrow>
             if args = [] then Some (irc_message_split_add 1 tags (Some (build [])) (Some []) t, True)
             else map_option (\<lambda>t. (t, True)) (split_parts_loop delimiter room build tags args 1 t))"

text \<open>
  The channels of a JOIN, with their keys.  The buffers for the message and for the keys have
  16384 bytes; the function is \<open>None\<close> when \<open>strcat\<close> writes beyond the first.
\<close>

definition JOIN_BUFFER :: nat where "JOIN_BUFFER = 16384"

definition strcat_join :: "cstr \<Rightarrow> cstr \<Rightarrow> cstr option" where
  "strcat_join a b = (if length a + length b < JOIN_BUFFER then Some (a @ b) else None)"

definition join_start :: "cstr option \<Rightarrow> cstr" where
  "join_start host = fits JOIN_BUFFER ((case host of None \<Rightarrow> [] | Some h \<Rightarrow> h @ '' '') @ ''JOIN'')"

text \<open>The arguments start after the command and a char: beyond the end of a message without channel.\<close>

definition join_arguments :: "cstr option \<Rightarrow> cstr \<Rightarrow> cstr option" where
  "join_arguments host msg =
     (let n = length (join_start host) + 1 in if n \<le> length msg then Some (drop n msg) else None)"

text \<open>The state: the message, its length with the keys, the keys, the number of the message.\<close>

function split_join_loop ::
  "cstr option \<Rightarrow> cstr option \<Rightarrow> int \<Rightarrow> cstr list \<Rightarrow> cstr list \<Rightarrow> cstr \<Rightarrow> int \<Rightarrow> cstr \<Rightarrow> int \<Rightarrow> table \<Rightarrow>
   (cstr \<times> int \<times> cstr \<times> int \<times> table) option" where
  "split_join_loop host tags max_length [] keys msg len keys_to_add number t = Some (msg, len, keys_to_add, number, t)"
| "split_join_loop host tags max_length (chan # channels) keys msg len keys_to_add number t =
     (let base = int (length (join_start host));
          key = (case keys of [] \<Rightarrow> None | k # _ \<Rightarrow> Some k);
          length_to_add = 1 + int (length chan) + (case key of None \<Rightarrow> 0 | Some k \<Rightarrow> 1 + int (length k))
      in if len + length_to_add < max_length \<or> len = base then do {
           msg \<leftarrow> (if len + length_to_add < int JOIN_BUFFER
                   then strcat_join msg ((if len = base then '' '' else '','') @ chan) else Some msg);
           let keys_to_add =
             (case key of
                None \<Rightarrow> keys_to_add
              | Some k \<Rightarrow>
                  if length keys_to_add + 1 + length k < JOIN_BUFFER
                  then keys_to_add @ (if keys_to_add \<noteq> [] then '','' else '' '') @ k else keys_to_add);
           split_join_loop host tags max_length channels (tl keys) msg (len + length_to_add) keys_to_add number t }
         else do {
           msg \<leftarrow> strcat_join msg keys_to_add;
           args \<leftarrow> join_arguments host msg;
           let t = irc_message_split_add number tags (Some msg) (Some args) t;
           split_join_loop host tags max_length (chan # channels) keys (join_start host) base [] (number + 1) t })"
  by pat_completeness auto
termination
  by (relation "measures [\<lambda>(host, tags, m, channels, keys, msg, len, r). length channels,
      \<lambda>(host, tags, m, channels, keys, msg, len, r). if len = int (length (join_start host)) then 0 else 1]") auto

declare split_join_loop.simps(2) [simp del]

definition split_items :: "cstr \<Rightarrow> cstr list option" where
  "split_items s = do {
     (items, n) \<leftarrow> string_split (Some s) (Some '','') None {STRIP_LEFT, STRIP_RIGHT, COLLAPSE_SEPS} 0;
     Some (case items of None \<Rightarrow> [] | Some xs \<Rightarrow> xs) }"

definition irc_message_split_join ::
  "table \<Rightarrow> cstr option \<Rightarrow> cstr option \<Rightarrow> cstr \<Rightarrow> int \<Rightarrow> (table \<times> bool) option" where
  "irc_message_split_join t tags host arguments max_length = do {
     (channels, keys) \<leftarrow>
       (case strchr arguments (CHR '' '') of
          Some pos \<Rightarrow> do {
            channels \<leftarrow> split_items (up_to arguments pos);
            keys \<leftarrow> (if skip_spaces pos \<noteq> [] then split_items (skip_spaces pos) else Some []);
            Some (channels, keys) }
        | None \<Rightarrow> do { channels \<leftarrow> split_items arguments; Some (channels, []) });
     (msg, len, keys_to_add, number, t) \<leftarrow> split_join_loop host tags (max_length - 2) channels keys
       (join_start host) (int (length (join_start host))) [] 1 t;
     if len > int (length (join_start host)) then do {
       msg \<leftarrow> strcat_join msg keys_to_add;
       args \<leftarrow> join_arguments host msg;
       Some (irc_message_split_add number tags (Some msg) (Some args) t, True) }
     else Some (t, True) }"

text \<open>A CTCP keeps its first word and its last char in every part.\<close>

definition irc_message_split_privmsg_notice ::
  "table \<Rightarrow> cstr option \<Rightarrow> cstr option \<Rightarrow> cstr \<Rightarrow> cstr \<Rightarrow> cstr \<Rightarrow> int \<Rightarrow> int \<Rightarrow> (table \<times> bool) option" where
  "irc_message_split_privmsg_notice t tags host command target arguments max_length_host max_length =
     (let (pre, arguments, suf) =
            (if bat arguments 0 = 1 \<and> bat arguments (length arguments - 1) = 1 then
               (case strchr arguments (CHR '' '') of
                  Some pos \<Rightarrow>
                    (fits 4096 (CHR '':'' # up_to arguments (tl pos)), butlast (tl pos), [CHR 0x01])
                | None \<Rightarrow> ([], arguments, []))
             else ([], arguments, []));
          pre = (if pre = [] then '':'' else pre)
      in irc_message_split_string t tags host command (Some target) (Some pre) (Some arguments) (Some suf) (CHR '' '')
           max_length_host max_length)"

definition irc_message_split_005 ::
  "table \<Rightarrow> cstr option \<Rightarrow> cstr option \<Rightarrow> cstr \<Rightarrow> cstr \<Rightarrow> cstr \<Rightarrow> int \<Rightarrow> (table \<times> bool) option" where
  "irc_message_split_005 t tags host command target arguments max_length =
     (let (arguments, suf) =
            (case strstr arguments '' :'' of
               Some pos \<Rightarrow> (up_to arguments pos, fits 4096 pos)
             | None \<Rightarrow> (arguments, []))
      in irc_message_split_string t tags host command (Some target) None (Some arguments) (Some suf) (CHR '' '') (- 1) max_length)"

definition INT_MAX :: int where "INT_MAX = 2 ^ 31 - 1"

text \<open>An access to an array of strings.\<close>

definition arg_at :: "cstr list \<Rightarrow> nat \<Rightarrow> cstr option" where
  "arg_at argv i = (if i < length argv then Some (argv ! i) else None)"

text \<open>The arguments without a colon before them.\<close>

definition no_colon :: "cstr \<Rightarrow> cstr" where
  "no_colon s = (if bat s 0 = byte (CHR '':'') then tl s else s)"

text \<open>The split according to the command, when there are enough arguments.\<close>

definition split_by_command ::
  "irc_server option \<Rightarrow> int \<Rightarrow> cstr option \<Rightarrow> cstr option \<Rightarrow> cstr \<Rightarrow> cstr \<Rightarrow> cstr list \<Rightarrow> cstr list \<Rightarrow> nat \<Rightarrow>
   (table \<times> bool) option" where
  "split_by_command server split_msg_max_length tags host command message argv argv_eol index_args = do {
     let nick_max = (case server of None \<Rightarrow> 16 | Some srv \<Rightarrow>
       if srv_nick_max_length srv > 0 then srv_nick_max_length srv else 16);
     let max_length_host = 1 + nick_max + 1 + 63 + 1;
     let is = (\<lambda>name. string_strcasecmp (Some command) (Some name) = 0);
     arguments \<leftarrow> arg_at argv_eol index_args;
     if is ''ison'' \<or> is ''wallops'' then
       irc_message_split_string [] tags host command None (Some '':'') (Some (no_colon arguments)) None (CHR '' '')
         max_length_host split_msg_max_length
     else if is ''monitor'' then
       (if (bat arguments 0 = byte (CHR ''+'') \<or> bat arguments 0 = byte (CHR ''-'')) \<and> bat arguments 1 = byte (CHR '' '') then
          irc_message_split_string [] tags host command None (Some [hd arguments, CHR '' '']) (Some (drop 2 arguments)) None
            (CHR '','') max_length_host split_msg_max_length
        else
          irc_message_split_string [] tags host command None (Some '':'') (Some (no_colon arguments)) None (CHR '','')
            max_length_host split_msg_max_length)
     else if is ''join'' then
       (if int (length message) > split_msg_max_length - 2
        then irc_message_split_join [] tags host arguments split_msg_max_length else Some ([], False))
     else if is ''privmsg'' \<or> is ''notice'' then
       (if index_args + 2 \<le> length argv then do {
          target \<leftarrow> arg_at argv index_args;
          args \<leftarrow> arg_at argv_eol (index_args + 1);
          irc_message_split_privmsg_notice [] tags host command target (no_colon args) max_length_host split_msg_max_length }
        else Some ([], False))
     else if is ''005'' then
       (if index_args + 2 \<le> length argv then do {
          target \<leftarrow> arg_at argv index_args;
          args \<leftarrow> arg_at argv_eol (index_args + 1);
          irc_message_split_005 [] tags host command target (no_colon args) split_msg_max_length }
        else Some ([], False))
     else if is ''353'' then
       (if index_args + 3 \<le> length argv then do {
          nick \<leftarrow> arg_at argv index_args;
          chan \<leftarrow> arg_at argv (index_args + 1);
          if irc_channel_is_channel server (Some chan) then do {
            args \<leftarrow> arg_at argv_eol (index_args + 2);
            irc_message_split_string [] tags host command (Some (fits 4096 (nick @ '' '' @ chan))) (Some '':'')
              (Some (no_colon args)) None (CHR '' '') (- 1) split_msg_max_length }
          else if index_args + 4 \<le> length argv then do {
            chan2 \<leftarrow> arg_at argv (index_args + 2);
            args \<leftarrow> arg_at argv_eol (index_args + 3);
            irc_message_split_string [] tags host command (Some (fits 4096 (nick @ '' '' @ chan @ '' '' @ chan2))) (Some '':'')
              (Some (no_colon args)) None (CHR '' '') (- 1) split_msg_max_length }
          else Some ([], False) }
        else Some ([], False))
     else Some ([], False) }"

text \<open>Without a split, the message itself is the first one.\<close>

definition irc_message_split_end :: "cstr option \<Rightarrow> cstr option \<Rightarrow> cstr option \<Rightarrow> table \<times> bool \<Rightarrow> table" where
  "irc_message_split_end tags message arguments tb =
     (case tb of (t, split_ok) \<Rightarrow>
        if \<not> split_ok \<or> t = [] then irc_message_split_add 1 tags message arguments t else t)"

definition irc_message_split :: "irc_server option \<Rightarrow> cstr option \<Rightarrow> table option" where
  "irc_message_split server message =
     (let split_msg_max_length =
            (case server of
               None \<Rightarrow> 512
             | Some srv \<Rightarrow> if srv_split_msg_max_length srv = 0 then INT_MAX - 16 else srv_split_msg_max_length srv)
      in case message of
           None \<Rightarrow> Some (irc_message_split_end None message None ([], False))
         | Some m \<Rightarrow>
             if m = [] then Some (irc_message_split_end None message None ([], False))
             else do {
               let (tags, m) =
                 (if bat m 0 = byte (CHR ''@'') then
                    (case strchr m (CHR '' '') of
                       Some pos \<Rightarrow> (Some (up_to m (tl pos)), tl pos)
                     | None \<Rightarrow> (None, m))
                  else (None, m));
               (argv, argc) \<leftarrow> string_split (Some m) (Some '' '') None {STRIP_LEFT, STRIP_RIGHT, COLLAPSE_SEPS} 0;
               (argv_eol, _) \<leftarrow> string_split (Some m) (Some '' '') None {STRIP_LEFT, COLLAPSE_SEPS, KEEP_EOL} 0;
               if argc < 2 then Some (irc_message_split_end tags (Some m) None ([], False))
               else do {
                 argv \<leftarrow> argv;
                 argv_eol \<leftarrow> argv_eol;
                 first \<leftarrow> arg_at argv 0;
                 let with_host = (bat first 0 = byte (CHR '':''));
                 if with_host \<and> argc < 3 then Some (irc_message_split_end tags (Some m) None ([], False))
                 else do {
                   let index_args = (if with_host then 2 else 1);
                   command \<leftarrow> arg_at argv (index_args - 1);
                   tb \<leftarrow> split_by_command server split_msg_max_length tags (if with_host then Some first else None)
                     command m argv argv_eol index_args;
                   Some (irc_message_split_end tags (Some m) (arg_at argv_eol index_args) tb) } } })"

subsection \<open>Properties of the split\<close>

lemma split_part_end_bounds:
  "split_part_end d room s n l = (n', l') \<Longrightarrow>
    n \<le> n' \<and> n' \<le> n + length s \<and> (int n \<le> room \<longrightarrow> int n' \<le> room) \<and>
    (l' = l \<or> (\<exists>k. l' = Some k \<and> n \<le> k \<and> k \<le> n' \<and> k < n + length s \<and> s ! (k - n) = d)) \<and>
    (s \<noteq> [] \<and> int n + int (utf8_char_size (Some s)) \<le> room \<longrightarrow> n < n')"
proof (induction d room s n l rule: split_part_end.induct)
  case (2 d room c s n l)
  let ?k = "utf8_char_size (Some (c # s))"
  let ?l = "if c = d then Some n else l"
  have k: "0 < ?k" "?k \<le> Suc (length s)" using utf8_char_size_pos utf8_char_size_le_length [of "c # s"] by auto
  show ?case
  proof (cases "int (n + ?k) > room")
    case True
    then have "n' = n" "l' = ?l" using 2(2) by (auto simp: Let_def)
    then show ?thesis using True by auto
  next
    case False
    then have e: "split_part_end d room (utf8_skip (c # s)) (n + ?k) ?l = (n', l')" using 2(2) by (simp add: Let_def)
    have len: "length (utf8_skip (c # s)) = Suc (length s) - ?k" by (simp add: utf8_skip_def)
    have nth: "utf8_skip (c # s) ! (j - (n + ?k)) = (c # s) ! (j - n)" if "n + ?k \<le> j" "j < n + ?k + length (utf8_skip (c # s))" for j
    proof -
      have "utf8_skip (c # s) ! (j - (n + ?k)) = (c # s) ! (?k + (j - (n + ?k)))"
        unfolding utf8_skip_def by (rule nth_drop) (use that k in simp)
      then show ?thesis using that by simp
    qed
    note IH = 2(1) [OF refl refl False e]
    have "l' = ?l \<or> (\<exists>j. l' = Some j \<and> n \<le> j \<and> j \<le> n' \<and> j < n + length (c # s) \<and> (c # s) ! (j - n) = d)"
    proof -
      consider "l' = ?l" | j where "l' = Some j" "n + ?k \<le> j" "j \<le> n'" "j < n + ?k + length (utf8_skip (c # s))"
        "utf8_skip (c # s) ! (j - (n + ?k)) = d" using IH by blast
      then show ?thesis
      proof cases
        case (2 j)
        then show ?thesis using nth [OF 2(2,4)] len k by auto
      qed simp
    qed
    moreover have "?l = l \<or> (\<exists>j. ?l = Some j \<and> n \<le> j \<and> j \<le> n' \<and> j < n + length (c # s) \<and> (c # s) ! (j - n) = d)"
      using IH k by auto
    ultimately show ?thesis using IH len k False by auto
  qed
qed auto

lemma split_part_bounds:
  assumes "split_part d room args = (pos, next)" "args \<noteq> []" "0 \<le> room"
  shows "pos \<le> length args" "int pos \<le> room" "next = pos \<or> next = Suc pos \<and> pos < length args \<and> args ! pos = d"
    "int (utf8_char_size (Some args)) \<le> room \<Longrightarrow> 0 < next"
proof -
  obtain n l where e: "split_part_end d room args 0 None = (n, l)" by (cases "split_part_end d room args 0 None")
  note b = split_part_end_bounds [OF e]
  have p: "pos = (case l of Some k \<Rightarrow> if n < length args then k else n | None \<Rightarrow> n)"
    "next = (if Some pos = l then pos + 1 else pos)"
    using assms(1) by (auto simp: split_part_def e Let_def)
  show "pos \<le> length args" "int pos \<le> room" "next = pos \<or> next = Suc pos \<and> pos < length args \<and> args ! pos = d"
    using b p assms(3) by (auto split: option.splits if_splits)
  show "int (utf8_char_size (Some args)) \<le> room \<Longrightarrow> 0 < next"
    using b p assms(2) by (auto split: option.splits if_splits)
qed

text \<open>The parts of a string, between which a delimiter may have been left out.\<close>

inductive parts_of :: "char \<Rightarrow> cstr list \<Rightarrow> cstr \<Rightarrow> bool" for d where
  parts_of_Nil: "parts_of d [] []"
| parts_of_cut: "parts_of d ps rest \<Longrightarrow> parts_of d (p # ps) (p @ rest)"
| parts_of_delim: "parts_of d ps rest \<Longrightarrow> parts_of d (p # ps) (p @ d # rest)"

fun add_parts :: "cstr option \<Rightarrow> (cstr \<Rightarrow> cstr) \<Rightarrow> cstr list \<Rightarrow> int \<Rightarrow> table \<Rightarrow> table" where
  "add_parts tags build [] number t = t"
| "add_parts tags build (p # ps) number t =
     add_parts tags build ps (number + 1) (irc_message_split_add number tags (Some (build p)) (Some p) t)"

lemma split_parts_loop_parts:
  assumes "4 \<le> room"
  shows "\<exists>parts. split_parts_loop d room build tags args number t = Some (add_parts tags build parts number t) \<and>
    parts_of d parts args \<and> (\<forall>p\<in>set parts. int (length p) \<le> room) \<and> (args \<noteq> [] \<longrightarrow> parts \<noteq> [])"
proof (induction "length args" arbitrary: args number t rule: less_induct)
  case less
  show ?case
  proof (cases "args = []")
    case True
    then show ?thesis by (subst split_parts_loop.simps) (auto intro!: exI [of _ "[]"] parts_of_Nil)
  next
    case False
    obtain pos "next" where e: "split_part d room args = (pos, next)" by (cases "split_part d room args")
    have size: "int (utf8_char_size (Some args)) \<le> room" using assms utf8_char_size_le_4 [of "Some args"] by simp
    have r: "0 \<le> room" using assms by simp
    note b = split_part_bounds [OF e False r]
    have n: "0 < next" by (rule b(4) [OF size])
    then have "length (drop next args) < length args" using False by simp
    from less [OF this, of "number + 1" "irc_message_split_add number tags (Some (build (take pos args))) (Some (take pos args)) t"]
    obtain parts where parts: "split_parts_loop d room build tags (drop next args) (number + 1)
        (irc_message_split_add number tags (Some (build (take pos args))) (Some (take pos args)) t) =
        Some (add_parts tags build parts (number + 1) (irc_message_split_add number tags (Some (build (take pos args))) (Some (take pos args)) t))"
      "parts_of d parts (drop next args)" "\<forall>p\<in>set parts. int (length p) \<le> room" by blast
    have "parts_of d (take pos args # parts) args"
      using b(3)
    proof (elim disjE)
      assume "next = pos"
      then show ?thesis using parts_of_cut [OF parts(2), of "take pos args"] by simp
    next
      assume "next = Suc pos \<and> pos < length args \<and> args ! pos = d"
      then have "args = take pos args @ d # drop next args" using id_take_nth_drop [of pos args] by simp
      then show ?thesis using parts_of_delim [OF parts(2), of "take pos args"] by simp
    qed
    moreover have "split_parts_loop d room build tags args number t =
        Some (add_parts tags build (take pos args # parts) number t)"
      by (subst split_parts_loop.simps) (simp add: e False parts(1) Let_def)
    moreover have "\<forall>p\<in>set (take pos args # parts). int (length p) \<le> room"
      using parts(3) b(1,2) by simp
    ultimately show ?thesis by (intro exI [of _ "take pos args # parts"] conjI) simp_all
  qed
qed

text \<open>A part that is empty and consumes nothing comes back for ever.\<close>

lemma split_parts_loop_stuck:
  assumes "split_part d room args = (0, 0)" "args \<noteq> []"
  shows "split_parts_loop d room build tags args number t = None"
proof -
  have "d' = d \<and> room' = room \<longrightarrow> args' \<noteq> args"
    if "split_parts_loop d' room' build tags args' number t = Some y" for d' room' build tags args' number t y
    using that
  proof (rule split_parts_loop.raw_induct
      [of "\<lambda>d' room' build tags args' number t y. d' = d \<and> room' = room \<longrightarrow> args' \<noteq> args", rotated], intro impI notI)
    fix f :: "char \<Rightarrow> int \<Rightarrow> (cstr \<Rightarrow> cstr) \<Rightarrow> cstr option \<Rightarrow> cstr \<Rightarrow> int \<Rightarrow> table \<Rightarrow> table option"
      and d' room' build tags args' number t y
    assume IH: "\<And>d' room' build tags args' number t y. f d' room' build tags args' number t = Some y \<Longrightarrow>
        d' = d \<and> room' = room \<longrightarrow> args' \<noteq> args"
      and f: "(if args' = [] then Some t else let (pos, next) = split_part d' room' args'; part = take pos args'
        in f d' room' build tags (drop next args') (number + 1)
          (irc_message_split_add number tags (Some (build part)) (Some part) t)) = Some y"
      and eq: "d' = d \<and> room' = room" "args' = args"
    from f eq assms have "f d room build tags args (number + 1)
        (irc_message_split_add number tags (Some (build [])) (Some []) t) = Some y" by simp
    from IH [OF this] show False by simp
  qed
  from this [of d room build tags args number t] show ?thesis
    by (cases "split_parts_loop d room build tags args number t") auto
qed

text \<open>The entries of a table after the parts were added.\<close>

lemma string_of_int_inj: "0 \<le> i \<Longrightarrow> 0 \<le> j \<Longrightarrow> string_of_int i = string_of_int j \<longleftrightarrow> i = j"
  by (auto simp: string_of_int_def digits_of_inj)

abbreviation with_tags :: "cstr option \<Rightarrow> cstr \<Rightarrow> cstr" where
  "with_tags tags m \<equiv> (case tags of None \<Rightarrow> [] | Some x \<Rightarrow> x) @ m"

definition msg_key :: "int \<Rightarrow> cstr" where "msg_key i = ''msg'' @ string_of_int i"

definition args_key :: "int \<Rightarrow> cstr" where "args_key i = ''args'' @ string_of_int i"

lemma keys_eq [simp]:
  "0 \<le> i \<Longrightarrow> 0 \<le> j \<Longrightarrow> msg_key i = msg_key j \<longleftrightarrow> i = j" "0 \<le> i \<Longrightarrow> 0 \<le> j \<Longrightarrow> args_key i = args_key j \<longleftrightarrow> i = j"
  "msg_key i \<noteq> args_key j" "args_key j \<noteq> msg_key i" "msg_key i \<noteq> ''count''" "args_key i \<noteq> ''count''"
  "''count'' \<noteq> msg_key i" "''count'' \<noteq> args_key i"
  by (auto simp: msg_key_def args_key_def string_of_int_inj)

lemma split_add_entries:
  assumes "0 \<le> i" "0 \<le> number"
  shows "map_of (irc_message_split_add number tags (Some m) (Some a) t) (msg_key i) =
      (if i = number then Some (with_tags tags m) else map_of t (msg_key i))"
    "map_of (irc_message_split_add number tags (Some m) (Some a) t) (args_key i) =
      (if i = number then Some a else map_of t (args_key i))"
  using assms
  by (auto simp: irc_message_split_add_def Let_def update_conv' msg_key_def [symmetric] args_key_def [symmetric]
      simp del: append.simps)

lemma split_add_count:
  "map_of (irc_message_split_add number tags m a t) ''count'' = Some (string_of_int number)"
  by (simp add: irc_message_split_add_def Let_def update_conv')

lemma add_parts_old:
  "0 \<le> i \<Longrightarrow> i < number \<Longrightarrow>
    map_of (add_parts tags build parts number t) (msg_key i) = map_of t (msg_key i) \<and>
    map_of (add_parts tags build parts number t) (args_key i) = map_of t (args_key i)"
  by (induction parts arbitrary: number t) (simp_all add: split_add_entries)

lemma add_parts_new:
  "j < length parts \<Longrightarrow> 0 \<le> number \<Longrightarrow>
    map_of (add_parts tags build parts number t) (msg_key (number + int j)) = Some (with_tags tags (build (parts ! j))) \<and>
    map_of (add_parts tags build parts number t) (args_key (number + int j)) = Some (parts ! j)"
proof (induction parts arbitrary: number t j)
  case (Cons p ps)
  show ?case
  proof (cases j)
    case 0
    then show ?thesis using Cons.prems add_parts_old [of number "number + 1" tags build ps] by (simp add: split_add_entries)
  next
    case (Suc k)
    then have "number + int j = number + 1 + int k" by simp
    then show ?thesis using Cons.IH [of k "number + 1"] Cons.prems Suc by (simp add: add.assoc)
  qed
qed simp

lemma add_parts_count:
  "parts \<noteq> [] \<Longrightarrow>
    map_of (add_parts tags build parts number t) ''count'' = Some (string_of_int (number + int (length parts) - 1))"
proof (induction parts arbitrary: number t)
  case (Cons p ps)
  then show ?case by (cases "ps = []") (simp_all add: split_add_count algebra_simps)
qed simp

text \<open>
  Claim C34.  With room for at least one char, the arguments of a message are split in parts that
  give them back, except for delimiters at the cuts; the table holds one message for each part,
  numbered from 1.
\<close>

theorem irc_message_split_string_parts:
  assumes "4 \<le> split_room host command target pre suf max_length_host max_length" "args \<noteq> []"
  shows "\<exists>parts t. irc_message_split_string [] tags host command target pre (Some args) suf delimiter max_length_host max_length =
      Some (t, True) \<and> parts \<noteq> [] \<and> parts_of delimiter parts args \<and>
    map_of t ''count'' = Some (string_of_int (int (length parts))) \<and>
    (\<forall>i<length parts. map_of t (args_key (1 + int i)) = Some (parts ! i) \<and>
      map_of t (msg_key (1 + int i)) =
        Some (with_tags tags (split_message host command target pre (parts ! i) suf)))"
proof -
  let ?room = "split_room host command target pre suf max_length_host max_length"
  let ?build = "\<lambda>part. split_message host command target pre part suf"
  obtain parts where p: "split_parts_loop delimiter ?room ?build tags args 1 [] = Some (add_parts tags ?build parts 1 [])"
    "parts_of delimiter parts args" "parts \<noteq> []"
    using split_parts_loop_parts [OF assms(1), of delimiter ?build tags args 1 "[]"] assms(2) by blast
  have "irc_message_split_string [] tags host command target pre (Some args) suf delimiter max_length_host max_length =
      Some (add_parts tags ?build parts 1 [], True)"
    using assms p(1) by (simp add: irc_message_split_string_def Let_def)
  then show ?thesis
    using p(2,3) add_parts_new [of _ parts 1 tags ?build "[]"] add_parts_count [OF p(3), of tags ?build 1 "[]"]
    by (intro exI [of _ parts] exI [of _ "add_parts tags ?build parts 1 []"]) simp
qed

theorem irc_message_split_string_parts_witness:
  "\<exists>parts t. irc_message_split_string [] None None ''PRIVMSG'' (Some ''#a'') (Some '':'') (Some ''hello big world'') None (CHR '' '') (- 1) 23 =
      Some (t, True) \<and> parts \<noteq> [] \<and> parts_of (CHR '' '') parts ''hello big world''"
proof -
  have "4 \<le> split_room None ''PRIVMSG'' (Some ''#a'') (Some '':'') None (- 1) 23" by (simp add: split_room_def)
  from irc_message_split_string_parts [OF this, of "''hello big world''" None "CHR '' ''"] show ?thesis by fastforce
qed


lemma split_returns:
  assumes "room = split_room host command target pre suf max_length_host max_length"
    and "r = irc_message_split_string t tags host command target pre (Some args) suf delimiter max_length_host max_length"
  shows "room < 2 \<Longrightarrow> r = Some (t, False)"
    and "4 \<le> room \<Longrightarrow> \<exists>t'. r = Some (t', True)"
    and "2 \<le> room \<Longrightarrow> args \<noteq> [] \<Longrightarrow> hd args \<noteq> delimiter \<Longrightarrow> room < int (utf8_char_size (Some args)) \<Longrightarrow> r = None"
proof -
  let ?build = "\<lambda>part. split_message host command target pre part suf"
  have r: "r = (if room < 2 then Some (t, False)
      else if args = [] then Some (irc_message_split_add 1 tags (Some (?build [])) (Some []) t, True)
      else map_option (\<lambda>t. (t, True)) (split_parts_loop delimiter room ?build tags args 1 t))"
    unfolding assms irc_message_split_string_def Let_def by simp
  show "room < 2 \<Longrightarrow> r = Some (t, False)" by (simp add: r)
  show "4 \<le> room \<Longrightarrow> \<exists>t'. r = Some (t', True)"
    using split_parts_loop_parts [of room delimiter ?build tags args 1 t] by (auto simp: r)
  assume a: "2 \<le> room" "args \<noteq> []" "hd args \<noteq> delimiter" "room < int (utf8_char_size (Some args))"
  obtain c s where cs: "args = c # s" using a(2) by (cases args) auto
  have "split_part delimiter room args = (0, 0)" using a(3,4) by (simp add: cs split_part_def)
  from split_parts_loop_stuck [OF this a(2)] a(1,2) show "r = None" by (simp add: r)
qed

text \<open>
  Claim C36.  The split of a message returns when there is no room for two bytes (an error) or when
  any char fits; with room for two or three bytes and a first char that is longer, and is not the delimiter, it
  does not.
\<close>

theorem irc_message_split_returns:
  assumes "room = split_room host command target pre suf max_length_host max_length"
    and "r = irc_message_split_string t tags host command target pre (Some args) suf delimiter max_length_host max_length"
  shows "(room < 2 \<longrightarrow> r = Some (t, False)) \<and> (4 \<le> room \<longrightarrow> (\<exists>t'. r = Some (t', True))) \<and>
    (2 \<le> room \<and> args \<noteq> [] \<and> hd args \<noteq> delimiter \<and> room < int (utf8_char_size (Some args)) \<longrightarrow> r = None)"
  using split_returns [OF assms] by blast

theorem irc_message_split_returns_witness:
  "irc_message_split_string [] None None ''PRIVMSG'' (Some ''#a'') (Some '':'')
     (Some [chr 0xF0, chr 0x9F, chr 0x98, chr 0x80]) None (CHR '' '') (- 1) 16 = None"
proof (rule irc_message_split_returns [OF refl refl, THEN conjunct2, THEN conjunct2, THEN mp], intro conjI)
  show "2 \<le> split_room None ''PRIVMSG'' (Some ''#a'') (Some '':'') None (- 1) 16" by (simp add: split_room_def)
  show "hd [chr 0xF0, chr 0x9F, chr 0x98, chr 0x80] \<noteq> CHR '' ''" by code_simp
  show "split_room None ''PRIVMSG'' (Some ''#a'') (Some '':'') None (- 1) 16 <
      int (utf8_char_size (Some [chr 0xF0, chr 0x9F, chr 0x98, chr 0x80]))" by code_simp
qed simp






end
