(* ===== verification/String_Base.thy ===== *)
theory String_Base
  imports Prelude "HOL-Library.Word"
begin

text \<open>
Encodings of bytes in base 16, 32 and 64 and the dump of a buffer, of \<open>src/core/wee-string.c\<close>.
Bytes are words of 8 bits; an array is given with the number of bytes to read.  The array for the result
(argument \<open>to\<close>) is the one that is returned, with the length; it is not \<open>NULL\<close>.
\<close>

unbundle bit_operations_syntax

subsection \<open>Bytes\<close>

type_synonym bytes = "8 word list"

text \<open>The first bytes of an array; reading beyond it is invalid.\<close>

definition bytes_read :: "bytes \<Rightarrow> int \<Rightarrow> bytes option" where
  "bytes_read from n = (if nat n \<le> length from then Some (take (nat n) from) else None)"

definition byte_word :: "char \<Rightarrow> 8 word" where "byte_word c = word_of_nat (byte c)"

subsection \<open>Base 16\<close>

definition hexa :: cstr where "hexa = ''0123456789ABCDEF''"

fun base16_encode_loop :: "bytes \<Rightarrow> cstr" where
  "base16_encode_loop [] = []"
| "base16_encode_loop (b # bs) = hexa ! (unat b div 16) # hexa ! (unat b mod 16) # base16_encode_loop bs"

text \<open>The returned length and the string.\<close>

definition string_base16_encode :: "bytes option \<Rightarrow> int \<Rightarrow> (int \<times> cstr) option" where
  "string_base16_encode from n =
     (case from of
        None \<Rightarrow> Some (- 1, [])
      | Some from \<Rightarrow> map_option (\<lambda>bs. let to = base16_encode_loop bs in (int (length to), to)) (bytes_read from n))"

text \<open>A char that is not a digit counts for 0.\<close>

definition base16_digit :: "char \<Rightarrow> 8 word" where
  "base16_digit c =
     (let v = byte c
      in if 48 \<le> v \<and> v \<le> 57 then word_of_nat (v - 48)
         else if 97 \<le> v \<and> v \<le> 102 then word_of_nat (v - 97 + 10)
         else if 65 \<le> v \<and> v \<le> 70 then word_of_nat (v - 65 + 10)
         else 0)"

fun base16_decode_loop :: "cstr \<Rightarrow> bytes" where
  "base16_decode_loop (c # d # s) = (push_bit 4 (base16_digit c) OR base16_digit d) # base16_decode_loop s"
| "base16_decode_loop _ = []"

definition string_base16_decode :: "cstr option \<Rightarrow> int \<times> bytes" where
  "string_base16_decode from =
     (case from of
        None \<Rightarrow> (0, [])
      | Some from \<Rightarrow> let to = base16_decode_loop from in (int (length to), to))"

subsection \<open>Base 32\<close>

definition base32_table :: cstr where "base32_table = ''ABCDEFGHIJKLMNOPQRSTUVWXYZ234567''"

text \<open>
  The first byte is extended with its sign; the shifts to the left wrap at 32 bits, those to the
  right keep the sign.
\<close>

definition sign_extend_char :: "8 word \<Rightarrow> 32 word" where
  "sign_extend_char b = scast b"

function base32_encode_loop :: "32 word \<Rightarrow> nat \<Rightarrow> bytes \<Rightarrow> cstr" where
  "base32_encode_loop value bits_left next =
     (if bits_left > 0 \<or> next \<noteq> [] then
        (let (value, bits_left, next) =
               (if bits_left < 5 then
                  (case next of
                     b # bs \<Rightarrow> (push_bit 8 value OR (sign_extend_char b AND 0xFF), bits_left + 8, bs)
                   | [] \<Rightarrow> (push_bit (5 - bits_left) value, 5, []))
                else (value, bits_left, next));
             index = 0x1F AND signed_drop_bit (bits_left - 5) value
         in base32_table ! unat index # base32_encode_loop value (bits_left - 5) next)
      else [])"
  by pat_completeness auto
termination
  by (relation "measure (\<lambda>(v, n, bs). n + 9 * length bs)") (auto split: list.splits if_splits)

declare base32_encode_loop.simps [simp del]

definition length_padding :: "nat list" where "length_padding = [0, 0, 6, 0, 4, 3, 0, 2]"

definition string_base32_encode :: "bytes option \<Rightarrow> int \<Rightarrow> (int \<times> cstr) option" where
  "string_base32_encode from n =
     (case from of
        None \<Rightarrow> Some (- 1, [])
      | Some from \<Rightarrow> map_option (\<lambda>bs.
          let to = (case bs of b # bs \<Rightarrow> base32_encode_loop (sign_extend_char b) 8 bs | [] \<Rightarrow> []);
              to = to @ replicate (length_padding ! (length to mod 8)) (CHR ''='')
          in (int (length to), to)) (bytes_read from n))"

text \<open>The value of a char; none for the padding or for an invalid char.\<close>

definition base32_char :: "8 word \<Rightarrow> 8 word option" where
  "base32_char c =
     (if 65 \<le> c \<and> c \<le> 90 \<or> 97 \<le> c \<and> c \<le> 122 then Some ((c AND 0x1F) - 1)
      else if 50 \<le> c \<and> c \<le> 55 then Some (c - (50 - 26))
      else None)"

text \<open>The bytes written so far are the result also when a char is invalid; the code is then - 1.\<close>

fun base32_decode_loop :: "cstr \<Rightarrow> 32 word \<Rightarrow> nat \<Rightarrow> bool \<times> bytes" where
  "base32_decode_loop [] value bits_left = (True, [])"
| "base32_decode_loop (c # s) value bits_left =
     (case base32_char (byte_word c) of
        None \<Rightarrow> (c = CHR ''='', [])
      | Some v \<Rightarrow>
          let value = push_bit 5 value OR ucast v; bits_left = bits_left + 5
          in if bits_left \<ge> 8 then
               (let (ok, to) = base32_decode_loop s value (bits_left - 8)
                in (ok, ucast (signed_drop_bit (bits_left - 8) value) # to))
             else base32_decode_loop s value bits_left)"

definition string_base32_decode :: "cstr option \<Rightarrow> int \<times> bytes" where
  "string_base32_decode from =
     (case from of
        None \<Rightarrow> (- 1, [])
      | Some from \<Rightarrow> let (ok, to) = base32_decode_loop from 0 0 in (if ok then int (length to) else - 1, to))"

subsection \<open>Base 64\<close>

definition base64_encode_table :: cstr where
  "base64_encode_table = ''ABCDEFGHIJKLMNOPQRSTUVWXYZabcdefghijklmnopqrstuvwxyz0123456789+/''"

definition string_convbase64_8x3_to_6x4 :: "8 word \<Rightarrow> 8 word \<Rightarrow> 8 word \<Rightarrow> cstr" where
  "string_convbase64_8x3_to_6x4 a b c =
     (let at = (\<lambda>i. base64_encode_table ! unat (i :: 8 word))
      in [at (drop_bit 2 (a AND 0xFC)),
          at (push_bit 4 (a AND 0x03) + drop_bit 4 (b AND 0xF0)),
          at (push_bit 2 (b AND 0x0F) + drop_bit 6 (c AND 0xC0)),
          at (c AND 0x3F)])"

fun base64_encode_loop :: "bytes \<Rightarrow> cstr" where
  "base64_encode_loop (a # b # c # bs) = string_convbase64_8x3_to_6x4 a b c @ base64_encode_loop bs"
| "base64_encode_loop [a] = take 2 (string_convbase64_8x3_to_6x4 a 0 0) @ ''==''"
| "base64_encode_loop [a, b] = take 3 (string_convbase64_8x3_to_6x4 a b 0) @ ''=''"
| "base64_encode_loop [] = []"

definition string_base64_encode :: "bytes option \<Rightarrow> int \<Rightarrow> (int \<times> cstr) option" where
  "string_base64_encode from n =
     (case from of
        None \<Rightarrow> Some (- 1, [])
      | Some from \<Rightarrow> map_option (\<lambda>bs. let to = base64_encode_loop bs in (int (length to), to)) (bytes_read from n))"

definition string_convbase64_6x4_to_8x3 :: "bytes \<Rightarrow> bytes" where
  "string_convbase64_6x4_to_8x3 from =
     [push_bit 2 (from ! 0) OR drop_bit 4 (from ! 1),
      push_bit 4 (from ! 1) OR drop_bit 2 (from ! 2),
      push_bit 6 (from ! 2) OR from ! 3]"

definition base64_decode_table :: cstr where
  "base64_decode_table = ''|$$$}rstuvwxyz{$$$$$$$>?@ABCDEFGHIJKLMNOPQRSTUVW$$$$$$XYZ['' @ [CHR 0x5C] @ '']^_'' @ [CHR 0x60] @ ''abcdefghijklmnopq''"

text \<open>The value of a char plus one; 0 for a char that is not in the alphabet.\<close>

definition base64_char :: "char \<Rightarrow> nat" where
  "base64_char c =
     (let v = byte c;
          v = (if v < 43 \<or> v > 122 then 0 else byte (base64_decode_table ! (v - 43)))
      in if v = 0 then 0 else if v = 36 then 0 else v - 61)"

text \<open>A group of at most \<open>n\<close> chars: their values and what follows; a bad char is consumed.\<close>

fun base64_group :: "nat \<Rightarrow> cstr \<Rightarrow> bytes \<times> cstr" where
  "base64_group 0 s = ([], s)"
| "base64_group (Suc n) [] = ([], [])"
| "base64_group (Suc n) (c # s) =
     (if base64_char c \<noteq> 0 then
        (let (vs, s') = base64_group n s in (word_of_nat (base64_char c - 1) # vs, s'))
      else ([], s))"

lemma base64_group_shorter: "base64_group n s = (vs, s') \<Longrightarrow> 0 < n \<Longrightarrow> s \<noteq> [] \<Longrightarrow> length s' < length s"
proof -
  have le: "length (snd (base64_group n s)) \<le> length s" for n s
    by (induction n s rule: base64_group.induct) (auto split: prod.splits)
  assume "base64_group n s = (vs, s')" "0 < n" "s \<noteq> []"
  then show ?thesis
    using le [of "n - 1" "tl s"] by (cases n; cases s) (auto split: prod.splits if_splits)
qed

function base64_decode_loop :: "cstr \<Rightarrow> bytes" where
  "base64_decode_loop s =
     (if s = [] then []
      else let (vs, s') = base64_group 4 s
           in (if vs = [] then [] else take (length vs - 1) (string_convbase64_6x4_to_8x3 (take 4 (vs @ [0, 0, 0, 0]))))
              @ base64_decode_loop s')"
  by pat_completeness auto
termination
  by (relation "measure length") (auto dest: base64_group_shorter [OF sym])

declare base64_decode_loop.simps [simp del]

definition string_base64_decode :: "cstr option \<Rightarrow> int \<times> bytes" where
  "string_base64_decode from =
     (case from of
        None \<Rightarrow> (0, [])
      | Some from \<Rightarrow> let to = base64_decode_loop from in (int (length to), to))"

subsection \<open>Bits\<close>

text \<open>The lowest bits of a word, the highest one first.\<close>

fun low :: "nat \<Rightarrow> 'a::len word \<Rightarrow> bool list" where
  "low 0 w = []"
| "low (Suc n) w = bit w n # low n w"

lemma length_low [simp]: "length (low n w) = n"
  by (induction n) auto

lemma low_cong: "(\<And>i. i < n \<Longrightarrow> bit v i = bit w i) \<Longrightarrow> low n v = low n w"
  by (induction n) auto

lemma low_append:
  assumes "\<And>i. i < k \<Longrightarrow> bit w i = bit b i" "\<And>i. i < n \<Longrightarrow> bit w (i + k) = bit v i"
  shows "low (n + k) w = low n v @ low k b"
  using assms by (induction n) (auto intro: low_cong)

lemma low_inj: "low LENGTH('a) v = low LENGTH('a) w \<Longrightarrow> v = (w :: 'a::len word)"
proof (rule bit_word_eqI)
  have "low n v = low n w \<Longrightarrow> i < n \<Longrightarrow> bit v i = bit w i" for n i
    by (induction n) (auto simp: less_Suc_eq)
  then show "low LENGTH('a) v = low LENGTH('a) w \<Longrightarrow> i < LENGTH('a) \<Longrightarrow> bit v i = bit w i" for i by blast
qed

abbreviation bits8 :: "bytes \<Rightarrow> bool list" where "bits8 bs \<equiv> concat (map (low 8) bs)"

abbreviation bits5 :: "nat list \<Rightarrow> bool list" where "bits5 is \<equiv> concat (map (\<lambda>i. low 5 (word_of_nat i :: 32 word)) is)"

lemma bits8_inj:
  "bits8 bs @ r = bits8 bs' @ r' \<Longrightarrow> length r < 8 \<Longrightarrow> length r' < 8 \<Longrightarrow> bs = bs'"
proof (induction bs arbitrary: bs')
  case Nil
  then show ?case by (cases bs') auto
next
  case (Cons b bs)
  then obtain b' bs'' where bs': "bs' = b' # bs''" by (cases bs') auto
  have "low 8 b = low 8 b'" "bits8 bs @ r = bits8 bs'' @ r'" using Cons.prems(1) by (auto simp: bs')
  then show ?case using Cons low_inj [of b b'] by (simp add: bs')
qed

lemma bit_sign_extend: "i < 8 \<Longrightarrow> bit (sign_extend_char b) i = bit b i"
  by (simp add: sign_extend_char_def bit_simps)

lemma bit_0x1F: "bit (0x1F :: int) i \<longleftrightarrow> i < 5"
proof -
  have "(0x1F :: int) = mask 5" by (simp add: mask_eq_exp_minus_1)
  then show ?thesis by (simp only: bit_mask_iff) auto
qed

lemma bit_0xFF: "bit (0xFF :: int) i \<longleftrightarrow> i < 8"
proof -
  have "(0xFF :: int) = mask 8" by (simp add: mask_eq_exp_minus_1)
  then show ?thesis by (simp only: bit_mask_iff) auto
qed

lemma low_index:
  assumes "5 \<le> n" "n \<le> 32"
  shows "low n v = low 5 (0x1F AND signed_drop_bit (n - 5) v) @ low (n - 5) (v :: 32 word)"
proof -
  have "low (5 + (n - 5)) v = low 5 (0x1F AND signed_drop_bit (n - 5) v) @ low (n - 5) v"
    by (rule low_append) (use assms in \<open>auto simp: bit_and_iff bit_0x1F bit_signed_drop_bit_iff add.commute\<close>)
  then show ?thesis using assms by simp
qed

lemma base32_encode_bits:
  "n \<le> 8 \<Longrightarrow> \<exists>is pad. base32_encode_loop v n bs = map (\<lambda>i. base32_table ! i) is \<and> (\<forall>i\<in>set is. i < 32) \<and>
    bits5 is = low n v @ bits8 bs @ replicate pad False \<and> pad < 5"
proof (induction v n bs rule: base32_encode_loop.induct)
  case (1 v n bs)
  show ?case
  proof (cases "n > 0 \<or> bs \<noteq> []")
    case False
    then show ?thesis by (subst base32_encode_loop.simps) (auto intro!: exI [of _ 0])
  next
    case True
    define st where "st = (if n < 5 then
        (case bs of b # bs \<Rightarrow> (push_bit 8 v OR (sign_extend_char b AND 0xFF), n + 8, bs)
         | [] \<Rightarrow> (push_bit (5 - n) v, 5, [])) else (v, n, bs))"
    obtain v' n' bs' where st: "st = (v', n', bs')" by (cases st)
    have n': "5 \<le> n'" "n' \<le> 12" "n' - 5 \<le> 8" "\<exists>p. low n' v' @ bits8 bs' = low n v @ bits8 bs @ replicate p False \<and> p < 5 \<and> (p > 0 \<longrightarrow> n' = 5 \<and> bs' = [])"
    proof -
      show "5 \<le> n'" "n' \<le> 12" "n' - 5 \<le> 8" using st True "1.prems" by (auto simp: st_def split: if_splits list.splits)
      show "\<exists>p. low n' v' @ bits8 bs' = low n v @ bits8 bs @ replicate p False \<and> p < 5 \<and> (p > 0 \<longrightarrow> n' = 5 \<and> bs' = [])"
      proof (cases "n < 5")
        case False
        then show ?thesis using st by (auto simp: st_def intro!: exI [of _ 0])
      next
        case n: True
        show ?thesis
        proof (cases bs)
          case (Cons b cs)
          have "low (n + 8) (push_bit 8 v OR (sign_extend_char b AND 0xFF)) = low n v @ low 8 b"
            by (rule low_append) (use n in \<open>auto simp: bit_or_iff bit_and_iff bit_push_bit_iff bit_0xFF bit_sign_extend\<close>)
          then show ?thesis using st n Cons by (auto simp: st_def intro!: exI [of _ 0])
        next
          case Nil
          have "low (n + (5 - n)) (push_bit (5 - n) v) = low n v @ low (5 - n) (0 :: 32 word)"
            by (rule low_append) (use n in \<open>auto simp: bit_simps\<close>)
          moreover have "low k (0 :: 32 word) = replicate k False" for k by (induction k) auto
          ultimately show ?thesis using st n Nil True by (auto simp: st_def intro!: exI [of _ "5 - n"])
        qed
      qed
    qed
    let ?i = "0x1F AND signed_drop_bit (n' - 5) v'"
    have "\<exists>is pad. base32_encode_loop v' (n' - 5) bs' = map (\<lambda>i. base32_table ! i) is \<and> (\<forall>i\<in>set is. i < 32) \<and>
      bits5 is = low (n' - 5) v' @ bits8 bs' @ replicate pad False \<and> pad < 5"
      by (rule "1.IH" [OF True, of st, OF _ st [symmetric] refl]) (use n'(3) in \<open>simp_all add: st_def\<close>)
    then obtain "is" pad where IH: "base32_encode_loop v' (n' - 5) bs' = map (\<lambda>i. base32_table ! i) is"
      "\<forall>i\<in>set is. i < 32" "bits5 is = low (n' - 5) v' @ bits8 bs' @ replicate pad False" "pad < 5" by blast
    have e: "base32_encode_loop v n bs = base32_table ! unat ?i # base32_encode_loop v' (n' - 5) bs'"
      using True by (subst base32_encode_loop.simps) (simp add: st_def [symmetric] st del: One_nat_def)
    have lt: "unat ?i < 32"
    proof -
      have "?i \<le> 0x1F" by (rule word_and_le2)
      then show ?thesis by (simp add: word_le_nat_alt)
    qed
    obtain p where p: "low n' v' @ bits8 bs' = low n v @ bits8 bs @ replicate p False" "p < 5" "p > 0 \<longrightarrow> n' = 5 \<and> bs' = []"
      using n'(4) by blast
    have 12: "n' \<le> 32" using n'(2) by simp
    have b: "bits5 (unat ?i # is) = low n v @ bits8 bs @ replicate p False @ replicate pad False"
      using IH(3) p(1) low_index [OF n'(1) 12, of v'] by simp
    have pad: "p + pad < 5"
    proof (cases "p > 0")
      case True
      then have "base32_encode_loop v' (n' - 5) bs' = []" using p(3) by (subst base32_encode_loop.simps) simp
      then have "is = []" using IH(1) by simp
      then show ?thesis using IH(3) p(2,3) True by simp
    qed (use IH(4) in simp)
    show ?thesis
      using e IH(1,2) lt b pad by (intro exI [of _ "unat ?i # is"] exI [of _ "p + pad"]) (simp add: replicate_add)
  qed
qed

lemma base32_char_table: "i < 32 \<Longrightarrow> base32_char (byte_word (base32_table ! i)) = Some (word_of_nat i)"
proof -
  have "list_all (\<lambda>i. base32_char (byte_word (base32_table ! i)) = Some (word_of_nat i)) [0..<32]" by code_simp
  then show "i < 32 \<Longrightarrow> ?thesis" by (simp add: list_all_iff)
qed

lemma base32_decode_bits:
  assumes "p = [] \<or> hd p = CHR ''=''"
  shows "n < 8 \<Longrightarrow> \<forall>i\<in>set is. i < 32 \<Longrightarrow>
    \<exists>bs r. base32_decode_loop (map (\<lambda>i. base32_table ! i) is @ p) v n = (True, bs) \<and>
      low n v @ bits5 is = bits8 bs @ r \<and> length r < 8"
proof (induction "is" arbitrary: v n)
  case Nil
  have "base32_char (byte_word (CHR ''='')) = None" by code_simp
  then show ?case using assms Nil by (cases p) auto
next
  case (Cons i "is")
  let ?v = "push_bit 5 v OR ucast (word_of_nat i :: 8 word)"
  have i: "i < 32" using Cons.prems by simp
  have u: "low (n + 5) ?v = low n v @ low 5 (word_of_nat i :: 32 word)"
  proof (rule low_append)
    have b: "bit i k \<Longrightarrow> k < 5" for k
    proof (rule ccontr)
      assume "bit i k" "\<not> k < 5"
      then have "(2::nat) ^ 5 \<le> 2 ^ k" by (intro power_increasing) auto
      then have "i div 2 ^ k = 0" using i by (intro div_less) simp
      then show False using \<open>bit i k\<close> by (simp add: bit_iff_odd)
    qed
    show "j < 5 \<Longrightarrow> bit ?v j = bit (word_of_nat i :: 32 word) j" for j
      by (auto simp: bit_simps)
    show "j < n \<Longrightarrow> bit ?v (j + 5) = bit v j" for j
      using Cons.prems(1) b [of "j + 5"] by (auto simp: bit_simps)
  qed
  show ?case
  proof (cases "8 \<le> n + 5")
    case True
    have s: "low (n + 5) ?v = low 8 (ucast (signed_drop_bit (n + 5 - 8) ?v) :: 8 word) @ low (n + 5 - 8) ?v"
    proof -
      have "low (8 + (n + 5 - 8)) ?v = low 8 (ucast (signed_drop_bit (n + 5 - 8) ?v) :: 8 word) @ low (n + 5 - 8) ?v"
        by (rule low_append) (use Cons.prems(1) True in
          \<open>auto simp: bit_ucast_iff bit_signed_drop_bit_iff add.commute simp del: signed_drop_bit_of_0\<close>)
      moreover have "8 + (n + 5 - 8) = n + 5" using True by simp
      ultimately show ?thesis by (simp only:)
    qed
    have "n + 5 - 8 < 8" "\<forall>i\<in>set is. i < 32" using Cons.prems by auto
    from Cons.IH [OF this, of ?v] obtain bs r where
      "base32_decode_loop (map (\<lambda>i. base32_table ! i) is @ p) ?v (n + 5 - 8) = (True, bs)"
      "low (n + 5 - 8) ?v @ bits5 is = bits8 bs @ r" "length r < 8" by blast
    moreover have "low n v @ bits5 (i # is) = bits8 (ucast (signed_drop_bit (n + 5 - 8) ?v) # bs) @ r"
      using s u \<open>low (n + 5 - 8) ?v @ bits5 is = bits8 bs @ r\<close> by (simp del: low.simps) (metis append.assoc)
    ultimately show ?thesis using True base32_char_table [OF i] by (fastforce simp: Let_def)
  next
    case False
    then have "n + 5 < 8" "\<forall>i\<in>set is. i < 32" using Cons.prems by auto
    from Cons.IH [OF this, of ?v] obtain bs r where
      "base32_decode_loop (map (\<lambda>i. base32_table ! i) is @ p) ?v (n + 5) = (True, bs)"
      "low (n + 5) ?v @ bits5 is = bits8 bs @ r" "length r < 8" by blast
    moreover have "low n v @ bits5 (i # is) = bits8 bs @ r"
      using u \<open>low (n + 5) ?v @ bits5 is = bits8 bs @ r\<close> by (simp del: low.simps)
    ultimately show ?thesis using False base32_char_table [OF i] by (fastforce simp: Let_def)
  qed
qed

lemma base16_digit_hexa: "i < 16 \<Longrightarrow> base16_digit (hexa ! i) = word_of_nat i"
proof -
  have "list_all (\<lambda>i. base16_digit (hexa ! i) = word_of_nat i) [0..<16]" by code_simp
  then show "i < 16 \<Longrightarrow> ?thesis" by (simp add: list_all_iff)
qed

lemma nibbles: "i < 16 \<Longrightarrow> push_bit 4 w OR word_of_nat i = (16 * w + word_of_nat i :: 8 word)"
proof -
  assume i: "i < 16"
  have "\<not> bit i k" if "4 \<le> k" for k
  proof -
    have "(2::nat) ^ 4 \<le> 2 ^ k" using that by (intro power_increasing) auto
    then have "i div 2 ^ k = 0" using i by (intro div_less) simp
    then show ?thesis by (simp add: bit_iff_odd)
  qed
  then have "push_bit 4 w AND word_of_nat i = (0 :: 8 word)" by (intro bit_word_eqI) (auto simp: bit_simps)
  then have "push_bit 4 w OR word_of_nat i = push_bit 4 w + (word_of_nat i :: 8 word)"
    using word_plus_and_or [of "push_bit 4 w" "word_of_nat i"] by simp
  then show ?thesis by (simp add: push_bit_eq_mult mult.commute)
qed

lemma base16_decode_encode: "base16_decode_loop (base16_encode_loop bs) = bs"
proof (induction bs)
  case (Cons b bs)
  have "unat b < 256" using unsigned_less [of b, where ?'a = nat] by simp
  then have "unat b div 16 < 16" "unat b mod 16 < 16" by auto
  moreover have "16 * word_of_nat (unat b div 16) + word_of_nat (unat b mod 16) = (word_of_nat (16 * (unat b div 16) + unat b mod 16) :: 8 word)"
    by (simp only: of_nat_add of_nat_mult of_nat_numeral)
  ultimately show ?case using Cons by (simp add: base16_digit_hexa nibbles)
qed simp

lemma base16_encode_length: "length (base16_encode_loop bs) = 2 * length bs"
  by (induction bs) auto

text \<open>What the encoding of base 32 gives back: the sign of the first byte makes no difference.\<close>

lemma base32_decode_encode:
  "\<exists>to. string_base32_encode (Some bs) (int (length bs)) = Some (int (length to), to) \<and>
    string_base32_decode (Some to) = (int (length bs), bs) \<and> length to = 8 * ((length bs + 4) div 5) + (if length bs mod 5 = 4 then 1 else 0)"
proof -
  let ?loop = "case bs of b # bs \<Rightarrow> base32_encode_loop (sign_extend_char b) 8 bs | [] \<Rightarrow> []"
  let ?to = "?loop @ replicate (length_padding ! (length ?loop mod 8)) (CHR ''='')"
  have "\<exists>is pad. ?loop = map (\<lambda>i. base32_table ! i) is \<and> (\<forall>i\<in>set is. i < 32) \<and>
      bits5 is = bits8 bs @ replicate pad False \<and> pad < 5"
  proof (cases bs)
    case (Cons b cs)
    have "low 8 (sign_extend_char b) = low 8 b" by (rule low_cong) (simp add: bit_sign_extend)
    then show ?thesis using base32_encode_bits [of 8 "sign_extend_char b" cs] Cons by simp
  qed (auto intro!: exI [of _ 0])
  then obtain "is" pad where l: "?loop = map (\<lambda>i. base32_table ! i) is" "\<forall>i\<in>set is. i < 32"
    "bits5 is = bits8 bs @ replicate pad False" "pad < 5" by blast
  define p where "p = replicate (length_padding ! (length ?loop mod 8)) (CHR ''='')"
  have p: "p = [] \<or> hd p = CHR ''=''" unfolding p_def by (cases "length_padding ! (length ?loop mod 8)") auto
  obtain bs' r where d: "base32_decode_loop (map (\<lambda>i. base32_table ! i) is @ p) 0 0 = (True, bs')"
    "bits5 is = bits8 bs' @ r" "length r < 8"
    using base32_decode_bits [OF p, of 0 "is" 0] l(2) by auto
  have "bits8 bs @ replicate pad False = bits8 bs' @ r" using d(2) l(3) by simp
  from bits8_inj [OF this] have bs: "bs' = bs" using l(4) d(3) by simp
  have len8: "length (bits8 bs) = 8 * length bs" by (induction bs) auto
  have len5: "length (bits5 is) = 5 * length is" by (induction "is") auto
  have len: "5 * length is = 8 * length bs + pad" using len5 len8 l(3) by simp
  have pads: "length is + length_padding ! (length is mod 8) =
      8 * ((length bs + 4) div 5) + (if length bs mod 5 = 4 then 1 else 0)"
  proof -
    obtain q t where q: "length bs = 5 * q + t" "t < 5"
      by (metis div_mult_mod_eq mod_less_divisor mult.commute zero_less_numeral)
    then have "t \<in> {0, 1, 2, 3, 4}" by auto
    moreover have "5 * length is = 40 * q + 8 * t + pad" using len q by simp
    ultimately have "(t = 0 \<and> length is = 8 * q + 0) \<or> (t = 1 \<and> length is = 8 * q + 2) \<or> (t = 2 \<and> length is = 8 * q + 4) \<or>
      (t = 3 \<and> length is = 8 * q + 5) \<or> (t = 4 \<and> length is = 8 * q + 7)" using l(4) by auto
    then obtain k where k: "length is = 8 * q + k" "k < 8" "k + length_padding ! k = 8 * ((t + 4) div 5) + (if t = 4 then 1 else 0)"
      by (elim disjE) (auto simp: length_padding_def)
    have "length is mod 8 = k" using k(1,2) by simp
    moreover have "(5 * q + (t + 4)) div 5 = q + (t + 4) div 5" by simp
    moreover have "(5 * q + t) mod 5 = t" using q(2) by simp
    ultimately show ?thesis using k(1,3) q(1) by (simp add: add.assoc)
  qed
  have "string_base32_encode (Some bs) (int (length bs)) = Some (int (length ?to), ?to)"
    by (simp add: string_base32_encode_def bytes_read_def Let_def)
  moreover have "string_base32_decode (Some ?to) = (int (length bs), bs)"
    using d(1) bs l(1) p_def by (simp add: string_base32_decode_def)
  moreover have "length ?to = 8 * ((length bs + 4) div 5) + (if length bs mod 5 = 4 then 1 else 0)" using l(1) pads by simp
  ultimately show ?thesis by blast
qed

subsection \<open>The groups of base 64\<close>

lemma base64_char_table:
  assumes "i < 64"
  shows "base64_char (base64_encode_table ! i) = Suc i"
proof -
  have "map base64_char base64_encode_table = [1..<65]" by code_simp
  moreover have "length base64_encode_table = 64" by (simp add: base64_encode_table_def)
  ultimately show ?thesis using assms nth_map [of i base64_encode_table base64_char] by simp
qed

lemma base64_char_padding: "base64_char (CHR ''='') = 0" by code_simp

text \<open>The six bits of a char, and the bits of a word of 8 bits one by one.\<close>

lemma byte_bits_eqI:
  "\<lbrakk>bit v 0 = bit w 0; bit v 1 = bit w 1; bit v 2 = bit w 2; bit v 3 = bit w 3; bit v 4 = bit w 4; bit v 5 = bit w 5;
    bit v 6 = bit w 6; bit v 7 = bit w 7\<rbrakk> \<Longrightarrow> v = (w :: 8 word)"
proof (rule bit_word_eqI)
  fix i assume i: "i < LENGTH(8)" and *: "bit v 0 = bit w 0" "bit v 1 = bit w 1" "bit v 2 = bit w 2" "bit v 3 = bit w 3"
    "bit v 4 = bit w 4" "bit v 5 = bit w 5" "bit v 6 = bit w 6" "bit v 7 = bit w 7"
  from i have "i \<in> {0, 1, 2, 3, 4, 5, 6, 7}" by auto
  then show "bit v i = bit w i" by (elim insertE emptyE; simp only: *)
qed

definition sextets :: "8 word \<Rightarrow> 8 word \<Rightarrow> 8 word \<Rightarrow> bytes" where
  "sextets a b c =
     [drop_bit 2 (a AND 0xFC), push_bit 4 (a AND 0x03) + drop_bit 4 (b AND 0xF0),
      push_bit 2 (b AND 0x0F) + drop_bit 6 (c AND 0xC0), c AND 0x3F]"

lemma sextets_or:
  "sextets a b c = [drop_bit 2 (a AND 0xFC), push_bit 4 (a AND 0x03) OR drop_bit 4 (b AND 0xF0),
     push_bit 2 (b AND 0x0F) OR drop_bit 6 (c AND 0xC0), c AND 0x3F]"
proof -
  have "v AND w = 0 \<Longrightarrow> v + w = v OR w" for v w :: "8 word" using word_plus_and_or [of v w] by simp
  moreover have "push_bit 4 (a AND 0x03) AND drop_bit 4 (b AND 0xF0) = 0"
    by (rule byte_bits_eqI) (simp_all add: bit_simps)
  moreover have "push_bit 2 (b AND 0x0F) AND drop_bit 6 (c AND 0xC0) = 0"
    by (rule byte_bits_eqI) (simp_all add: bit_simps)
  ultimately show ?thesis by (simp add: sextets_def)
qed

lemma sextets_small: "v \<in> set (sextets a b c) \<Longrightarrow> unat v < 64"
proof -
  have m: "w = w AND 0x3F \<Longrightarrow> unat w < 64" for w :: "8 word"
  proof -
    assume "w = w AND 0x3F"
    then have "w \<le> 0x3F" by (metis word_and_le1)
    then show ?thesis by (simp add: word_le_nat_alt)
  qed
  have "list_all (\<lambda>v. v = v AND 0x3F) (sextets a b c)"
    unfolding sextets_or list.pred_inject by (intro conjI byte_bits_eqI TrueI) (simp_all add: bit_simps)
  then show "v \<in> set (sextets a b c) \<Longrightarrow> unat v < 64" using m by (auto simp: list_all_iff)
qed

lemma sextets_table: "string_convbase64_8x3_to_6x4 a b c = map (\<lambda>v. base64_encode_table ! unat v) (sextets a b c)"
  by (simp add: string_convbase64_8x3_to_6x4_def sextets_def)

lemma sextets_back: "string_convbase64_6x4_to_8x3 (sextets a b c) = [a, b, c]"
  unfolding sextets_or string_convbase64_6x4_to_8x3_def
  by (simp, intro conjI byte_bits_eqI) (simp_all add: bit_simps)

lemma base64_group_table:
  "\<forall>v\<in>set vs. unat v < 64 \<Longrightarrow> n = length vs + k \<Longrightarrow> k = 0 \<or> s = [] \<or> base64_char (hd s) = 0 \<Longrightarrow>
    base64_group n (map (\<lambda>v. base64_encode_table ! unat v) vs @ s) = (vs, if k = 0 then s else tl s)"
proof (induction vs arbitrary: n)
  case Nil
  then show ?case by (cases k; cases s) auto
next
  case (Cons v vs)
  then show ?case by (simp add: base64_char_table)
qed

lemma base64_decode_encode: "base64_decode_loop (base64_encode_loop bs) = bs"
proof (induction bs rule: base64_encode_loop.induct)
  case (1 a b c bs)
  have "base64_group 4 (string_convbase64_8x3_to_6x4 a b c @ base64_encode_loop bs) = (sextets a b c, base64_encode_loop bs)"
    unfolding sextets_table
    by (subst base64_group_table [where k = 0]) (use sextets_small [of _ a b c] in \<open>auto simp: sextets_def\<close>)
  then show ?case
    using 1 sextets_back [of a b c]
    by (subst base64_decode_loop.simps) (simp add: sextets_table sextets_or)
next
  case (2 a)
  have e: "take 2 (string_convbase64_8x3_to_6x4 a 0 0) = map (\<lambda>v. base64_encode_table ! unat v) (take 2 (sextets a 0 0))"
    by (simp add: sextets_table take_map)
  have "base64_group 4 (base64_encode_loop [a]) = (take 2 (sextets a 0 0), ''='')"
    unfolding base64_encode_loop.simps e
    by (subst base64_group_table [where k = 2])
      (use sextets_small [of _ a 0 0] in \<open>auto simp: sextets_def base64_char_padding dest: in_set_takeD\<close>)
  moreover have "base64_decode_loop ''='' = []"
    by (subst base64_decode_loop.simps) (simp add: base64_char_padding base64_decode_loop.simps [of "[]"] eval_nat_numeral)
  moreover have "take 4 (take 2 (sextets a 0 0) @ [0, 0, 0, 0]) = sextets a 0 0" by (simp add: sextets_or)
  ultimately show ?case
    using sextets_back [of a 0 0] by (subst base64_decode_loop.simps) (simp add: sextets_or)
next
  case (3 a b)
  have e: "take 3 (string_convbase64_8x3_to_6x4 a b 0) = map (\<lambda>v. base64_encode_table ! unat v) (take 3 (sextets a b 0))"
    by (simp add: sextets_table take_map)
  have "base64_group 4 (base64_encode_loop [a, b]) = (take 3 (sextets a b 0), [])"
    unfolding base64_encode_loop.simps e
    by (subst base64_group_table [where k = 1])
      (use sextets_small [of _ a b 0] in \<open>auto simp: sextets_def base64_char_padding dest: in_set_takeD\<close>)
  moreover have "take 4 (take 3 (sextets a b 0) @ [0, 0, 0, 0]) = sextets a b 0" by (simp add: sextets_or)
  ultimately show ?case
    using sextets_back [of a b 0] by (subst base64_decode_loop.simps) (simp add: sextets_or base64_decode_loop.simps [of "[]"])
next
  case 4
  then show ?case by (subst base64_decode_loop.simps) simp
qed

lemma base64_encode_length: "length (base64_encode_loop bs) = 4 * ((length bs + 2) div 3)"
proof (induction bs rule: base64_encode_loop.induct)
  case (1 a b c bs)
  have "(length (a # b # c # bs) + 2) div 3 = Suc ((length bs + 2) div 3)" by (simp flip: div_add_self2)
  then show ?case using 1 by (simp add: string_convbase64_8x3_to_6x4_def Let_def)
qed (simp_all add: string_convbase64_8x3_to_6x4_def Let_def)

text \<open>
  Claim C29.  What string_base16_encode, string_base32_encode and string_base64_encode write for any
  bytes, the decoders turn back into these bytes.  The lengths are those of the encodings, but in base 32 for
  four bytes over a multiple of five, where one char of padding is added in excess.
\<close>

theorem string_base_roundtrip:
  "(\<exists>to. string_base16_encode (Some bs) (int (length bs)) = Some (int (length to), to) \<and>
      string_base16_decode (Some to) = (int (length bs), bs) \<and> length to = 2 * length bs) \<and>
   (\<exists>to. string_base32_encode (Some bs) (int (length bs)) = Some (int (length to), to) \<and>
      string_base32_decode (Some to) = (int (length bs), bs) \<and>
      length to = 8 * ((length bs + 4) div 5) + (if length bs mod 5 = 4 then 1 else 0)) \<and>
   (\<exists>to. string_base64_encode (Some bs) (int (length bs)) = Some (int (length to), to) \<and>
      string_base64_decode (Some to) = (int (length bs), bs) \<and> length to = 4 * ((length bs + 2) div 3))"
proof (intro conjI base32_decode_encode)
  show "\<exists>to. string_base16_encode (Some bs) (int (length bs)) = Some (int (length to), to) \<and>
      string_base16_decode (Some to) = (int (length bs), bs) \<and> length to = 2 * length bs"
    by (simp add: string_base16_encode_def string_base16_decode_def bytes_read_def Let_def base16_decode_encode base16_encode_length)
  show "\<exists>to. string_base64_encode (Some bs) (int (length bs)) = Some (int (length to), to) \<and>
      string_base64_decode (Some to) = (int (length bs), bs) \<and> length to = 4 * ((length bs + 2) div 3)"
    by (simp add: string_base64_encode_def string_base64_decode_def bytes_read_def Let_def base64_decode_encode base64_encode_length)
qed

text \<open>The padding in excess: the encoding of four bytes has seven chars and two of padding.\<close>

theorem string_base32_padding:
  "string_base32_encode (Some [0x74, 0x65, 0x73, 0x74]) 4 = Some (9, ''ORSXG5A=='')"
proof -
  have "base32_encode_loop (sign_extend_char 0x74) 8 [0x65, 0x73, 0x74] = ''ORSXG5A''" by code_simp
  then show ?thesis by (simp add: string_base32_encode_def bytes_read_def length_padding_def numeral_2_eq_2)
qed

subsection \<open>Dump of a buffer\<close>

text \<open>A string with spaces up to a width (the format \<open>%-<n>s\<close>).\<close>

definition pad_right :: "nat \<Rightarrow> cstr \<Rightarrow> cstr" where
  "pad_right n s = s @ replicate (n - length s) (CHR '' '')"

definition hex_dump_hexa :: "8 word \<Rightarrow> cstr" where
  "hex_dump_hexa b = [hexa ! (unat b div 16), hexa ! (unat b mod 16), CHR '' '']"

definition hex_dump_ascii :: "8 word \<Rightarrow> cstr" where
  "hex_dump_ascii b = [if b < 32 \<or> b > 127 then CHR ''.'' else chr (unat b), CHR '' '']"

text \<open>A line of the dump, in a buffer of the length of a line and the terminating NUL.\<close>

definition hex_dump_line :: "cstr \<Rightarrow> cstr \<Rightarrow> nat \<Rightarrow> bytes \<Rightarrow> cstr" where
  "hex_dump_line pre suf bytes_per_line bs =
     (let length_line = length pre + bytes_per_line * 3 + 2 + bytes_per_line * 2 + length suf
      in take length_line
           (pre @ pad_right (bytes_per_line * 3) (concat (map hex_dump_hexa bs)) @ ''  '' @
            pad_right (bytes_per_line * 2) (butlast (concat (map hex_dump_ascii bs))) @ suf))"

function hex_dump_loop :: "cstr \<Rightarrow> cstr \<Rightarrow> nat \<Rightarrow> bytes \<Rightarrow> cstr \<Rightarrow> cstr" where
  "hex_dump_loop pre suf bytes_per_line bs buf =
     (if bs = [] \<or> bytes_per_line = 0 then buf
      else hex_dump_loop pre suf bytes_per_line (drop bytes_per_line bs)
             (buf @ (if buf \<noteq> [] then [CHR 0x0A] else []) @ hex_dump_line pre suf bytes_per_line (take bytes_per_line bs)))"
  by pat_completeness auto
termination
  by (relation "measure (\<lambda>(pre, suf, n, bs, buf). length bs)") auto

declare hex_dump_loop.simps [simp del]

definition string_hex_dump :: "bytes option \<Rightarrow> int \<Rightarrow> cstr option \<Rightarrow> cstr option \<Rightarrow> cstr option" where
  "string_hex_dump data bytes_per_line pre suf =
     (case data of
        None \<Rightarrow> None
      | Some bs \<Rightarrow>
          if bs = [] \<or> bytes_per_line < 1 then None
          else let str = (\<lambda>x. case x of None \<Rightarrow> [] | Some s \<Rightarrow> s)
               in Some (hex_dump_loop (str pre) (str suf) (nat bytes_per_line) bs []))"

text \<open>The line is not cut by its buffer, and the dump fits in the buffer allocated for it.\<close>

lemma hex_dump_line_length:
  assumes "length bs \<le> n"
  shows "hex_dump_line pre suf n bs = pre @ pad_right (n * 3) (concat (map hex_dump_hexa bs)) @ ''  '' @
      pad_right (n * 2) (butlast (concat (map hex_dump_ascii bs))) @ suf"
    "length (hex_dump_line pre suf n bs) = length pre + n * 3 + 2 + n * 2 + length suf"
proof -
  have "length (concat (map hex_dump_hexa bs)) = length bs * 3" "length (concat (map hex_dump_ascii bs)) = length bs * 2"
    by (induction bs) (auto simp: hex_dump_hexa_def hex_dump_ascii_def)
  then have l: "length (pad_right (n * 3) (concat (map hex_dump_hexa bs))) = n * 3"
    "length (pad_right (n * 2) (butlast (concat (map hex_dump_ascii bs)))) = n * 2"
    using assms by (auto simp: pad_right_def)
  show "hex_dump_line pre suf n bs = pre @ pad_right (n * 3) (concat (map hex_dump_hexa bs)) @ ''  '' @
      pad_right (n * 2) (butlast (concat (map hex_dump_ascii bs))) @ suf"
    by (simp add: hex_dump_line_def Let_def l)
  then show "length (hex_dump_line pre suf n bs) = length pre + n * 3 + 2 + n * 2 + length suf" by (simp add: l)
qed

lemma hex_dump_loop_length:
  fixes pre suf :: cstr
  assumes "0 < n"
  defines "len \<equiv> length pre + n * 3 + 2 + n * 2 + length suf"
  shows "length (hex_dump_loop pre suf n bs buf) \<le> length buf + (length bs div n + 1) * (len + 1)"
proof (induction "length bs" arbitrary: bs buf rule: less_induct)
  case less
  show ?case
  proof (cases "length bs < n")
    case True
    have "length (hex_dump_loop pre suf n bs buf) \<le> length buf + (len + 1)"
      using True hex_dump_line_length(2) [of bs n pre suf] assms
      by (subst hex_dump_loop.simps) (simp add: hex_dump_loop.simps [of _ _ _ "[]"])
    then show ?thesis using True by simp
  next
    case False
    let ?buf = "buf @ (if buf \<noteq> [] then [CHR 0x0A] else []) @ hex_dump_line pre suf n (take n bs)"
    have b: "bs \<noteq> []" using False assms by auto
    have "length (hex_dump_loop pre suf n (drop n bs) ?buf) \<le> length ?buf + (length (drop n bs) div n + 1) * (len + 1)"
      by (rule less) (use b assms in auto)
    moreover have "length ?buf \<le> length buf + (len + 1)" using hex_dump_line_length(2) [of "take n bs" n pre suf] by (simp add: len_def)
    moreover have "length bs div n = Suc (length (drop n bs) div n)" using False assms by (simp add: le_div_geq)
    ultimately show ?thesis using b assms by (subst hex_dump_loop.simps) (simp add: algebra_simps)
  qed
qed

theorem string_hex_dump_fits:
  "string_hex_dump (Some bs) n pre suf = Some s \<Longrightarrow>
    int (length s) \<le> (int (length bs) div n + 1) *
      (int (length (case pre of None \<Rightarrow> [] | Some x \<Rightarrow> x)) + n * 3 + 2 + n * 2 + int (length (case suf of None \<Rightarrow> [] | Some x \<Rightarrow> x)) + 1)"
proof -
  let ?str = "\<lambda>x. case x of None \<Rightarrow> [] | Some s \<Rightarrow> s"
  assume "string_hex_dump (Some bs) n pre suf = Some s"
  then have n: "0 < n" "s = hex_dump_loop (?str pre) (?str suf) (nat n) bs []"
    by (auto simp: string_hex_dump_def Let_def split: if_splits)
  have "length s \<le> (length bs div nat n + 1) * (length (?str pre) + nat n * 3 + 2 + nat n * 2 + length (?str suf) + 1)"
    using hex_dump_loop_length [of "nat n" "?str pre" "?str suf" bs "[]"] n by simp
  then have "int (length s) \<le> int ((length bs div nat n + 1) * (length (?str pre) + nat n * 3 + 2 + nat n * 2 + length (?str suf) + 1))"
    by (rule zle_int [THEN iffD2])
  then show ?thesis using n(1) by (simp add: zdiv_int algebra_simps)
qed

end
