(* ===== verification/String_Dyn.thy ===== *)
theory String_Dyn
  imports Prelude "HOL-Library.Word" "HOL-Library.Multiset"
begin

text \<open>
Dynamic strings and shared strings of \<open>src/core/wee-string.c\<close>: buffers that grow, with sizes of 32
bits, and strings kept once with a count of references.
\<close>

subsection \<open>Dynamic strings\<close>

text \<open>
  The structure: the allocated bytes (\<open>None\<close> before they are written), the allocated size and the size
  with the terminating NUL; the sizes have 32 bits.
\<close>

record string_dyn =
  dyn_string :: "char option list"
  dyn_size_alloc :: "32 word"
  dyn_size :: "32 word"

definition string_dyn_alloc :: "int \<Rightarrow> string_dyn option" where
  "string_dyn_alloc size_alloc =
     (if size_alloc \<le> 0 then None
      else Some \<lparr>dyn_string = (replicate (nat size_alloc) None)[0 := Some NUL], dyn_size_alloc = word_of_int size_alloc,
                 dyn_size = 1\<rparr>)"

text \<open>Writing of bytes in an array; \<open>None\<close> when they are not all inside.\<close>

definition memmove :: "char option list \<Rightarrow> nat \<Rightarrow> cstr \<Rightarrow> char option list option" where
  "memmove buf pos s =
     (if pos + length s \<le> length buf then Some (take pos buf @ map Some s @ drop (pos + length s) buf) else None)"

text \<open>\<open>realloc\<close> keeps the bytes; it may fail.\<close>

definition realloc :: "bool \<Rightarrow> char option list \<Rightarrow> nat \<Rightarrow> char option list option" where
  "realloc works buf n = (if works then Some (take n buf @ replicate (n - length buf) None) else None)"

definition new_size_alloc :: "32 word \<Rightarrow> 32 word \<Rightarrow> 32 word" where
  "new_size_alloc size_alloc new_size =
     (let n = (if size_alloc < 2 then 2 else size_alloc + size_alloc div 2)
      in if n < new_size then new_size else n)"

text \<open>The part of an operation that makes the buffer large enough.\<close>

definition dyn_grow :: "bool \<Rightarrow> string_dyn \<Rightarrow> 32 word \<Rightarrow> string_dyn option" where
  "dyn_grow works d sz =
     (if sz > dyn_size_alloc d then
        (let n = new_size_alloc (dyn_size_alloc d) sz
         in map_option (\<lambda>b. d\<lparr>dyn_string := b, dyn_size_alloc := n\<rparr>) (realloc works (dyn_string d) (unat n)))
      else Some d)"

text \<open>The number of bytes of a string and its NUL that are copied, counted with 32 bits.\<close>

definition copied :: "cstr \<Rightarrow> cstr" where
  "copied s = take (unat (word_of_nat (length s) + 1 :: 32 word)) (s @ [NUL])"

text \<open>The result: the string (\<open>None\<close> when it was freed) and the returned code; \<open>None\<close> for a write outside.\<close>

definition string_dyn_copy :: "bool \<Rightarrow> string_dyn \<Rightarrow> cstr option \<Rightarrow> (string_dyn \<times> bool) option" where
  "string_dyn_copy works d new_string =
     (let length_new = (case new_string of Some s \<Rightarrow> word_of_nat (length s) | None \<Rightarrow> 0)
      in case dyn_grow works d (length_new + 1) of
           None \<Rightarrow> Some (d, False)
         | Some d \<Rightarrow>
             map_option (\<lambda>b. (d\<lparr>dyn_string := b, dyn_size := length_new + 1\<rparr>, True))
               (memmove (dyn_string d) 0 (case new_string of Some s \<Rightarrow> copied s | None \<Rightarrow> [NUL])))"

definition string_dyn_concat :: "bool \<Rightarrow> string_dyn \<Rightarrow> cstr option \<Rightarrow> (string_dyn option \<times> bool) option" where
  "string_dyn_concat works d add =
     (case add of
        None \<Rightarrow> Some (Some d, True)
      | Some s \<Rightarrow>
          if s = [] then Some (Some d, True)
          else
            (let new_size = dyn_size d + word_of_nat (length s)
             in case dyn_grow works d new_size of
                  None \<Rightarrow> Some (None, False)
                | Some d \<Rightarrow>
                    map_option (\<lambda>b. (Some (d\<lparr>dyn_string := b, dyn_size := new_size\<rparr>), True))
                      (memmove (dyn_string d) (unat (dyn_size d - 1)) (copied s))))"

text \<open>With \<open>free_string\<close> there is no string left.\<close>

definition string_dyn_free :: "string_dyn \<Rightarrow> bool \<Rightarrow> char option list option" where
  "string_dyn_free d free_string = (if free_string then None else Some (dyn_string d))"

text \<open>A dynamic string that holds a text.\<close>

definition dyn_holds :: "cstr \<Rightarrow> string_dyn \<Rightarrow> bool" where
  "dyn_holds s d \<longleftrightarrow> (\<exists>rest. dyn_string d = map Some s @ Some NUL # rest) \<and>
     unat (dyn_size d) = length s + 1 \<and> unat (dyn_size_alloc d) = length (dyn_string d)"

lemma unat_word_of_nat: "n < 2 ^ 32 \<Longrightarrow> unat (word_of_nat n :: 32 word) = n"
  by (simp add: unat_of_nat take_bit_nat_eq_self)

lemma copied_all: "length s + 1 < 2 ^ 32 \<Longrightarrow> copied s = s @ [NUL]"
proof -
  assume "length s + 1 < 2 ^ 32"
  then have "unat (word_of_nat (length s + 1) :: 32 word) = length s + 1" by (rule unat_word_of_nat)
  then show ?thesis by (simp add: copied_def add.commute)
qed

lemma dyn_alloc_holds: "0 < n \<Longrightarrow> n < 2 ^ 31 \<Longrightarrow> \<exists>d. string_dyn_alloc n = Some d \<and> dyn_holds [] d"
proof -
  assume n: "0 < n" "n < 2 ^ 31"
  then obtain m where m: "nat n = Suc m" by (cases "nat n") auto
  have "word_of_int n = (word_of_nat (nat n) :: 32 word)" using n by simp
  moreover have "nat n < 2 ^ 32" using n by simp
  ultimately show ?thesis using n m unat_word_of_nat [of "nat n"] by (simp add: string_dyn_alloc_def dyn_holds_def)
qed

lemma new_size_alloc_ge: "new_size \<le> new_size_alloc size_alloc new_size"
  by (auto simp: new_size_alloc_def Let_def)

text \<open>The common end of the two operations: the buffer is large enough, and the text is written at a position.\<close>

lemma dyn_write:
  assumes "dyn_holds s d" "pos \<le> length s" "length (dyn_string d) \<le> length buf" "take (length (dyn_string d)) buf = dyn_string d"
    and "pos + length t + 1 \<le> length buf"
  shows "\<exists>rest. memmove buf pos (t @ [NUL]) = Some (map Some (take pos s @ t) @ Some NUL # rest) \<and>
    length (map Some (take pos s @ t) @ Some NUL # rest) = length buf"
proof -
  obtain rest where r: "dyn_string d = map Some s @ Some NUL # rest" using assms(1) by (auto simp: dyn_holds_def)
  have "take pos buf = take pos (take (length (dyn_string d)) buf)" using r assms(2) by (simp add: min_absorb1)
  also have "\<dots> = map Some (take pos s)" unfolding assms(4) unfolding r using assms(2) by (simp add: take_map)
  finally have "take pos buf = map Some (take pos s)" .
  then show ?thesis using assms(2,5) by (simp add: memmove_def min_absorb2)
qed

lemma realloc_works: "length buf \<le> n \<Longrightarrow> \<exists>b. realloc True buf n = Some b \<and> length b = n \<and> take (length buf) b = buf"
  by (simp add: realloc_def)

lemma dyn_grow_holds:
  assumes "dyn_holds s d"
  shows "\<exists>d'. dyn_grow True d sz = Some d' \<and> length (dyn_string d) \<le> length (dyn_string d') \<and>
    take (length (dyn_string d)) (dyn_string d') = dyn_string d \<and> unat sz \<le> length (dyn_string d') \<and>
    unat (dyn_size_alloc d') = length (dyn_string d') \<and> dyn_size d' = dyn_size d"
proof (cases "sz > dyn_size_alloc d")
  case True
  let ?n = "new_size_alloc (dyn_size_alloc d) sz"
  have n: "unat sz \<le> unat ?n" using new_size_alloc_ge by (simp add: word_le_nat_alt)
  then have "length (dyn_string d) \<le> unat ?n" using True assms by (simp add: dyn_holds_def word_less_nat_alt)
  then show ?thesis using True n realloc_works [of "dyn_string d" "unat ?n"] by (auto simp: dyn_grow_def Let_def)
next
  case False
  then show ?thesis using assms by (simp add: dyn_grow_def dyn_holds_def word_less_nat_alt)
qed

lemma dyn_copy_holds:
  assumes "dyn_holds s d" "length t + 1 < 2 ^ 32"
  shows "\<exists>d'. string_dyn_copy True d (Some t) = Some (d', True) \<and> dyn_holds t d'"
proof -
  let ?size = "word_of_nat (length t) + 1 :: 32 word"
  have size: "unat ?size = length t + 1"
    using unat_word_of_nat [OF assms(2)] by (simp add: add.commute)
  obtain d' where d': "dyn_grow True d ?size = Some d'" "length (dyn_string d) \<le> length (dyn_string d')"
    "take (length (dyn_string d)) (dyn_string d') = dyn_string d" "unat ?size \<le> length (dyn_string d')"
    "unat (dyn_size_alloc d') = length (dyn_string d')"
    using dyn_grow_holds [OF assms(1), of ?size] by blast
  have "0 + length t + 1 \<le> length (dyn_string d')" using d'(4) size by simp
  from dyn_write [OF assms(1) _ d'(2,3) this] obtain rest where
    r: "memmove (dyn_string d') 0 (t @ [NUL]) = Some (map Some t @ Some NUL # rest)"
      "length (map Some t @ Some NUL # rest) = length (dyn_string d')" by auto
  have "string_dyn_copy True d (Some t) =
      Some (d'\<lparr>dyn_string := map Some t @ Some NUL # rest, dyn_size := ?size\<rparr>, True)"
    using d'(1) r(1) by (simp add: string_dyn_copy_def Let_def copied_all [OF assms(2)])
  then show ?thesis using r(2) size d'(5) by (auto simp: dyn_holds_def)
qed

lemma dyn_concat_holds:
  assumes "dyn_holds s d" "length s + length t + 1 < 2 ^ 32" "t \<noteq> []"
  shows "\<exists>d'. string_dyn_concat True d (Some t) = Some (Some d', True) \<and> dyn_holds (s @ t) d'"
proof -
  let ?size = "dyn_size d + word_of_nat (length t) :: 32 word"
  have ds: "unat (dyn_size d) = length s + 1" using assms(1) by (simp add: dyn_holds_def)
  have t: "length t + 1 < 2 ^ 32" using assms(2) by simp
  have "word_of_nat (unat (dyn_size d)) = dyn_size d" by simp
  then have "dyn_size d = word_of_nat (length s + 1)" unfolding ds by simp
  then have w: "?size = word_of_nat (length s + length t + 1)" by (simp add: algebra_simps)
  have size: "unat ?size = length s + length t + 1" unfolding w by (rule unat_word_of_nat [OF assms(2)])
  have "dyn_size d - 1 = word_of_nat (length s)" using \<open>dyn_size d = _\<close> by simp
  then have pos: "unat (dyn_size d - 1) = length s" using unat_word_of_nat [of "length s"] assms(2) by simp
  obtain d' where d': "dyn_grow True d ?size = Some d'" "length (dyn_string d) \<le> length (dyn_string d')"
    "take (length (dyn_string d)) (dyn_string d') = dyn_string d" "unat ?size \<le> length (dyn_string d')"
    "unat (dyn_size_alloc d') = length (dyn_string d')" "dyn_size d' = dyn_size d"
    using dyn_grow_holds [OF assms(1), of ?size] by blast
  have "length s + length t + 1 \<le> length (dyn_string d')" using d'(4) size by simp
  from dyn_write [OF assms(1) order_refl d'(2,3) this] obtain rest where
    r: "memmove (dyn_string d') (length s) (t @ [NUL]) = Some (map Some (s @ t) @ Some NUL # rest)"
      "length (map Some (s @ t) @ Some NUL # rest) = length (dyn_string d')" by auto
  have "string_dyn_concat True d (Some t) =
      Some (Some (d'\<lparr>dyn_string := map Some (s @ t) @ Some NUL # rest, dyn_size := ?size\<rparr>), True)"
    using d'(1,6) r(1) pos assms(3) by (simp add: string_dyn_concat_def Let_def copied_all [OF t])
  then show ?thesis using r(2) size d'(5) by (auto simp: dyn_holds_def)
qed

text \<open>Operations one after the other, on a dynamic string and on a text.\<close>

datatype dyn_op = Dyn_Copy "cstr option" | Dyn_Concat "cstr option"

fun dyn_run :: "dyn_op list \<Rightarrow> string_dyn \<Rightarrow> string_dyn option" where
  "dyn_run [] d = Some d"
| "dyn_run (Dyn_Copy s # ops) d =
     (case string_dyn_copy True d s of Some (d', True) \<Rightarrow> dyn_run ops d' | _ \<Rightarrow> None)"
| "dyn_run (Dyn_Concat s # ops) d =
     (case string_dyn_concat True d s of Some (Some d', True) \<Rightarrow> dyn_run ops d' | _ \<Rightarrow> None)"

fun text_op :: "dyn_op \<Rightarrow> cstr \<Rightarrow> cstr" where
  "text_op (Dyn_Copy s) t = (case s of None \<Rightarrow> [] | Some s \<Rightarrow> s)"
| "text_op (Dyn_Concat s) t = t @ (case s of None \<Rightarrow> [] | Some s \<Rightarrow> s)"

lemma dyn_copy_null: "dyn_holds s d \<Longrightarrow> \<exists>d'. string_dyn_copy True d None = Some (d', True) \<and> dyn_holds [] d'"
proof -
  assume h: "dyn_holds s d"
  have "copied [] = [NUL]" by (simp add: copied_all)
  then have "string_dyn_copy True d None = string_dyn_copy True d (Some [])" by (simp add: string_dyn_copy_def cong: option.case_cong)
  then show ?thesis using dyn_copy_holds [OF h, of "[]"] by simp
qed

lemma dyn_op_holds:
  assumes "dyn_holds s d" "length (text_op op s) + 1 < 2 ^ 32"
  shows "\<exists>d'. dyn_run (op # ops) d = dyn_run ops d' \<and> dyn_holds (text_op op s) d'"
proof (cases op)
  case (Dyn_Copy x)
  then show ?thesis
    using assms dyn_copy_null [OF assms(1)] dyn_copy_holds [OF assms(1), of "the x"] by (cases x) auto
next
  case (Dyn_Concat x)
  show ?thesis
  proof (cases "x = None \<or> x = Some []")
    case True
    then show ?thesis using Dyn_Concat assms by (auto simp: string_dyn_concat_def)
  next
    case False
    then obtain t where "x = Some t" "t \<noteq> []" by auto
    then show ?thesis using Dyn_Concat assms dyn_concat_holds [OF assms(1), of t] by auto
  qed
qed

text \<open>
  Claim C30.  A dynamic string holds the text that the copies and the concatenations give, whatever
  the size it was allocated with, as long as the texts have less than 2 ^ 32 - 1 bytes.
\<close>

theorem string_dyn_refines_text:
  assumes "0 < n" "n < 2 ^ 31" "\<forall>k. length (fold text_op (take k ops) []) + 1 < 2 ^ 32"
  shows "\<exists>d d'. string_dyn_alloc n = Some d \<and> dyn_run ops d = Some d' \<and> dyn_holds (fold text_op ops []) d'"
proof -
  have run: "\<exists>d'. dyn_run ops d = Some d' \<and> dyn_holds (fold text_op ops s) d'"
    if "dyn_holds s d" "\<forall>k. length (fold text_op (take k ops) s) + 1 < 2 ^ 32" for s d
    using that
  proof (induction ops arbitrary: s d)
    case (Cons op ops)
    have "length (text_op op s) + 1 < 2 ^ 32" using spec [OF Cons.prems(2), of 1] by simp
    from dyn_op_holds [OF Cons.prems(1) this] obtain d' where
      d': "dyn_run (op # ops) d = dyn_run ops d'" "dyn_holds (text_op op s) d'" by blast
    have "length (fold text_op (take k ops) (text_op op s)) + 1 < 2 ^ 32" for k
      using spec [OF Cons.prems(2), of "Suc k"] by simp
    then show ?case using Cons.IH [OF d'(2)] d'(1) by simp
  qed simp
  show ?thesis using dyn_alloc_holds [OF assms(1,2)] run assms(3) by blast
qed

theorem string_dyn_refines_text_witness:
  "\<exists>d d'. string_dyn_alloc 1 = Some d \<and>
    dyn_run [Dyn_Concat (Some ''ab''), Dyn_Copy None, Dyn_Concat (Some ''c''), Dyn_Concat (Some ''d'')] d = Some d' \<and>
    dyn_holds ''cd'' d'"
proof -
  let ?ops = "[Dyn_Concat (Some ''ab''), Dyn_Copy None, Dyn_Concat (Some ''c''), Dyn_Concat (Some ''d'')]"
  have "\<forall>k. length (fold text_op (take k ?ops) []) + 1 < 2 ^ 32"
    by (auto simp: take_Cons split: nat.split)
  from string_dyn_refines_text [of 1 ?ops, OF _ _ this] show ?thesis by simp
qed

text \<open>
  A concatenation that reaches 2 ^ 32 bytes writes outside of the string: the new size wraps.
\<close>

theorem string_dyn_concat_overflow:
  assumes "dyn_holds s d" "length t + 1 < 2 ^ 32" "2 ^ 32 \<le> length s + length t + 1"
  shows "string_dyn_concat True d (Some t) = None"
proof -
  have t: "t \<noteq> []" using assms(1,3) unsigned_less [of "dyn_size d", where ?'a = nat] by (auto simp: dyn_holds_def)
  obtain d' where d': "dyn_grow True d (dyn_size d + word_of_nat (length t)) = Some d'"
    "unat (dyn_size_alloc d') = length (dyn_string d')" "dyn_size d' = dyn_size d"
    using dyn_grow_holds [OF assms(1)] by blast
  have ds: "unat (dyn_size d) = length s + 1" using assms(1) by (simp add: dyn_holds_def)
  have "word_of_nat (unat (dyn_size d)) = dyn_size d" by simp
  then have "dyn_size d - 1 = word_of_nat (length s)" unfolding ds by (simp add: algebra_simps)
  moreover have "length s < 2 ^ 32" using ds unsigned_less [of "dyn_size d", where ?'a = nat] by simp
  ultimately have "unat (dyn_size d - 1) = length s" using unat_word_of_nat [of "length s"] by simp
  moreover have "length (dyn_string d') < 2 ^ 32" using d'(2) unsigned_less [of "dyn_size_alloc d'", where ?'a = nat] by simp
  ultimately have "memmove (dyn_string d') (unat (dyn_size d' - 1)) (copied t) = None"
    using assms(3) by (simp add: memmove_def d'(3) copied_all [OF assms(2)])
  then show ?thesis using t d'(1) by (simp add: string_dyn_concat_def Let_def)
qed

subsection \<open>Shared strings\<close>

text \<open>
  The table of the shared strings: an entry is the address of the key, its count of references (32
  bits) and the string.  The operations on the table are those of a table whose keys are compared
  by their strings: what the theory Hashtable shows of \<open>hashtable_get_item\<close>, \<open>hashtable_set\<close> and
  \<open>hashtable_remove\<close>.  The address given by \<open>malloc\<close> is an argument.
\<close>

record shared_entry =
  sh_address :: nat
  sh_count :: "32 word"
  sh_string :: cstr

type_synonym shared_table = "shared_entry list"

definition shared_get_item :: "shared_table \<Rightarrow> cstr \<Rightarrow> shared_entry option" where
  "shared_get_item t s = find (\<lambda>e. sh_string e = s) t"

definition shared_set_count :: "nat \<Rightarrow> (32 word \<Rightarrow> 32 word) \<Rightarrow> shared_table \<Rightarrow> shared_table" where
  "shared_set_count a f t = map (\<lambda>e. if sh_address e = a then e\<lparr>sh_count := f (sh_count e)\<rparr> else e) t"

definition string_shared_get :: "nat \<Rightarrow> shared_table \<Rightarrow> cstr option \<Rightarrow> shared_table \<times> nat option" where
  "string_shared_get address t string =
     (case string of
        None \<Rightarrow> (t, None)
      | Some s \<Rightarrow>
          (case shared_get_item t s of
             Some e \<Rightarrow> (shared_set_count (sh_address e) (\<lambda>n. n + 1) t, Some (sh_address e))
           | None \<Rightarrow> (t @ [\<lparr>sh_address = address, sh_count = 1, sh_string = s\<rparr>], Some address)))"

text \<open>The pointer is \<open>None\<close> for \<open>NULL\<close>; a pointer that is not in the table makes the access invalid.\<close>

definition string_shared_free :: "shared_table \<Rightarrow> nat option \<Rightarrow> shared_table option" where
  "string_shared_free t string =
     (case string of
        None \<Rightarrow> Some t
      | Some a \<Rightarrow>
          (case find (\<lambda>e. sh_address e = a) t of
             None \<Rightarrow> None
           | Some e \<Rightarrow>
               if sh_count e - 1 = 0 then Some (filter (\<lambda>e. sh_address e \<noteq> a) t)
               else Some (shared_set_count a (\<lambda>n. n - 1) t)))"

text \<open>
  A program that gives back the strings that it got, with its references: the pointers that were
  returned and not given back yet, with the string each was asked for.
\<close>

inductive shared_reachable :: "shared_table \<Rightarrow> (nat \<times> cstr) multiset \<Rightarrow> bool" where
  shared_start: "shared_reachable [] {#}"
| shared_got: "shared_reachable t refs \<Longrightarrow> address \<notin> sh_address ` set t \<Longrightarrow> size refs + 1 < 2 ^ 32 \<Longrightarrow>
    string_shared_get address t (Some s) = (t', Some a) \<Longrightarrow> shared_reachable t' (add_mset (a, s) refs)"
| shared_freed: "shared_reachable t (add_mset (a, s) refs) \<Longrightarrow>
    string_shared_free t (Some a) = Some t' \<Longrightarrow> shared_reachable t' refs"

definition entry_ref :: "shared_entry \<Rightarrow> nat \<times> cstr" where
  "entry_ref e = (sh_address e, sh_string e)"

definition shared_inv :: "shared_table \<Rightarrow> (nat \<times> cstr) multiset \<Rightarrow> bool" where
  "shared_inv t refs \<longleftrightarrow>
     distinct (map sh_address t) \<and> distinct (map sh_string t) \<and> size refs < 2 ^ 32 \<and> set_mset refs = entry_ref ` set t \<and>
     (\<forall>e\<in>set t. unat (sh_count e) = count refs (entry_ref e))"

lemma find_distinct: "distinct (map f t) \<Longrightarrow> e \<in> set t \<Longrightarrow> find (\<lambda>x. f x = f e) t = Some e"
  by (induction t) (auto simp: rev_image_eqI)

lemma count_le_size: "count M x \<le> size M"
  by (induction M) auto

lemma unat_inc: "unat w + 1 < 2 ^ 32 \<Longrightarrow> unat (w + 1 :: 32 word) = unat w + 1"
proof -
  assume "unat w + 1 < 2 ^ 32"
  then have "unat (word_of_nat (unat w + 1) :: 32 word) = unat w + 1" by (rule unat_word_of_nat)
  then show ?thesis by (simp add: add.commute)
qed

lemma unat_dec: "unat w = n + 1 \<Longrightarrow> unat (w - 1 :: 32 word) = n"
proof -
  assume n: "unat w = n + 1"
  have "word_of_nat (unat w) = w" by simp
  then have "w - 1 = word_of_nat n" unfolding n by (simp add: algebra_simps)
  then show ?thesis using n unsigned_less [of w, where ?'a = nat] unat_word_of_nat [of n] by simp
qed

lemma one_entry:
  "distinct (map sh_address t) \<Longrightarrow> e \<in> set t \<Longrightarrow> x \<in> set t \<Longrightarrow> sh_address x = sh_address e \<longleftrightarrow> x = e"
  by (auto simp: distinct_map inj_on_def)

lemma set_count_cases:
  assumes "distinct (map sh_address t)" "e \<in> set t" "x \<in> set (shared_set_count (sh_address e) f t)"
  shows "\<exists>y\<in>set t. x = (if y = e then e\<lparr>sh_count := f (sh_count e)\<rparr> else y)"
proof -
  obtain y where y: "y \<in> set t" "x = (if sh_address y = sh_address e then y\<lparr>sh_count := f (sh_count y)\<rparr> else y)"
    using assms(3) by (auto simp: shared_set_count_def)
  show ?thesis
  proof (cases "y = e")
    case True
    then show ?thesis using y by (intro bexI [of _ y]) simp_all
  next
    case False
    then have "sh_address y \<noteq> sh_address e" using one_entry [OF assms(1,2) y(1)] by simp
    then show ?thesis using y False by (intro bexI [of _ y]) simp_all
  qed
qed

lemma entry_ref_eq: "entry_ref x = entry_ref e \<Longrightarrow> sh_address x = sh_address e"
  by (simp add: entry_ref_def)

lemma set_count_maps:
  "map sh_address (shared_set_count a f t) = map sh_address t" "map sh_string (shared_set_count a f t) = map sh_string t"
  "entry_ref ` set (shared_set_count a f t) = entry_ref ` set t"
proof -
  show "map sh_address (shared_set_count a f t) = map sh_address t" "map sh_string (shared_set_count a f t) = map sh_string t"
    by (simp_all add: shared_set_count_def)
  have "map entry_ref (shared_set_count a f t) = map entry_ref t" by (simp add: shared_set_count_def entry_ref_def)
  then show "entry_ref ` set (shared_set_count a f t) = entry_ref ` set t" by (metis set_map)
qed

lemma shared_get_inv:
  assumes "shared_inv t refs" "address \<notin> sh_address ` set t" "size refs + 1 < 2 ^ 32"
  shows "\<exists>t' a. string_shared_get address t (Some s) = (t', Some a) \<and> shared_inv t' (add_mset (a, s) refs)"
proof (cases "shared_get_item t s")
  case None
  let ?e = "\<lparr>sh_address = address, sh_count = 1, sh_string = s\<rparr>"
  have n: "s \<notin> sh_string ` set t" using None by (auto simp: shared_get_item_def find_None_iff)
  have "(address, s) \<notin># refs" using assms(1,2) by (auto simp: shared_inv_def entry_ref_def)
  then have c: "count refs (address, s) = 0" by (simp add: count_eq_zero_iff)
  have o: "unat (sh_count e) = count (add_mset (address, s) refs) (entry_ref e)" if "e \<in> set t" for e
    using that assms(1,2) by (auto simp: shared_inv_def entry_ref_def)
  have "shared_inv (t @ [?e]) (add_mset (address, s) refs)"
    using assms n c o unfolding shared_inv_def by (simp add: entry_ref_def)
  then show ?thesis using None by (simp add: string_shared_get_def)
next
  case (Some e)
  then have e: "e \<in> set t" "sh_string e = s" by (auto simp: shared_get_item_def find_Some_iff)
  let ?t = "shared_set_count (sh_address e) (\<lambda>n. n + 1) t"
  have er: "entry_ref e = (sh_address e, s)" using e by (simp add: entry_ref_def)
  have i: "distinct (map sh_address t)" "distinct (map sh_string t)" "set_mset refs = entry_ref ` set t"
    "\<forall>e\<in>set t. unat (sh_count e) = count refs (entry_ref e)" using assms(1) by (simp_all add: shared_inv_def)
  have inc: "unat (sh_count e + 1) = unat (sh_count e) + 1"
    by (rule unat_inc) (use i(4) e(1) assms(3) count_le_size [of refs "entry_ref e"] in simp)
  have "unat (sh_count x) = count (add_mset (entry_ref e) refs) (entry_ref x)" if x: "x \<in> set ?t" for x
  proof -
    obtain y where y: "y \<in> set t" "x = (if y = e then e\<lparr>sh_count := sh_count e + 1\<rparr> else y)"
      using set_count_cases [OF i(1) e(1) x] by blast
    have "entry_ref x = entry_ref y" using y(2) by (simp add: entry_ref_def)
    moreover have "entry_ref y = entry_ref e \<longleftrightarrow> y = e" using entry_ref_eq one_entry [OF i(1) e(1) y(1)] by blast
    moreover have "unat (sh_count y) = count refs (entry_ref y)" using i(4) y(1) by blast
    ultimately show ?thesis using y(2) inc by (cases "y = e") simp_all
  qed
  then have "shared_inv ?t (add_mset (sh_address e, s) refs)"
    unfolding shared_inv_def set_count_maps er [symmetric] using i(1-3) assms(3) e(1) by (simp add: insert_absorb)
  then show ?thesis using Some by (simp add: string_shared_get_def)
qed

lemma shared_free_inv:
  assumes "shared_inv t (add_mset (a, s) refs)"
  shows "\<exists>t'. string_shared_free t (Some a) = Some t' \<and> shared_inv t' refs"
proof -
  have i: "distinct (map sh_address t)" "distinct (map sh_string t)" "size refs < 2 ^ 32"
    "insert (a, s) (set_mset refs) = entry_ref ` set t"
    "\<forall>e\<in>set t. unat (sh_count e) = count (add_mset (a, s) refs) (entry_ref e)" using assms by (simp_all add: shared_inv_def)
  obtain e where e: "e \<in> set t" "entry_ref e = (a, s)" using i(4) by (metis imageE insertI1)
  have a: "sh_address e = a" using e(2) by (simp add: entry_ref_def)
  have f: "find (\<lambda>x. sh_address x = a) t = Some e" using find_distinct [OF i(1) e(1)] a by simp
  have one: "sh_address x = a \<longleftrightarrow> x = e" if "x \<in> set t" for x using one_entry [OF i(1) e(1) that] a by simp
  have ref: "entry_ref x = (a, s) \<longleftrightarrow> x = e" if "x \<in> set t" for x using one [OF that] e(2) by (auto simp: entry_ref_def)
  have d: "unat (sh_count e - 1) = count refs (a, s)" by (rule unat_dec) (use i(5) e in simp)
  then have zero: "sh_count e - 1 = 0 \<longleftrightarrow> (a, s) \<notin># refs"
    by (metis count_eq_zero_iff unat_eq_zero)
  show ?thesis
  proof (cases "sh_count e - 1 = 0")
    case True
    let ?t = "filter (\<lambda>e. sh_address e \<noteq> a) t"
    have "set_mset refs = entry_ref ` set t - {(a, s)}" using i(4) True zero by auto
    also have "\<dots> = entry_ref ` set ?t"
    proof -
      have "set ?t = set t - {e}" using one by (auto simp del: not_None_eq)
      moreover have "entry_ref ` (set t - {e}) = entry_ref ` set t - {(a, s)}"
      proof -
        have "inj_on entry_ref (set t)" using i(1) by (auto simp: distinct_map inj_on_def entry_ref_def)
        from inj_on_image_set_diff [OF this, of "set t" "{e}"] show ?thesis using e by simp
      qed
      ultimately show ?thesis by (simp only:)
    qed
    finally have refs: "set_mset refs = entry_ref ` set ?t" .
    have "unat (sh_count x) = count refs (entry_ref x)" if "x \<in> set ?t" for x
    proof -
      have x: "x \<in> set t" "sh_address x \<noteq> a" using that by simp_all
      then have "entry_ref x \<noteq> (a, s)" by (simp add: entry_ref_def)
      then show ?thesis using bspec [OF i(5) x(1)] by simp
    qed
    then have "shared_inv ?t refs"
      unfolding shared_inv_def using i(1-3) refs by (simp add: distinct_map_filter)
    then show ?thesis using True f by (simp add: string_shared_free_def)
  next
    case False
    let ?t = "shared_set_count a (\<lambda>n. n - 1) t"
    have "set_mset refs = entry_ref ` set t" using i(4) False zero by auto
    moreover have "unat (sh_count x) = count refs (entry_ref x)" if x: "x \<in> set ?t" for x
    proof -
      obtain y where y: "y \<in> set t" "x = (if y = e then e\<lparr>sh_count := sh_count e - 1\<rparr> else y)"
        using set_count_cases [OF i(1) e(1)] x a by blast
      have "entry_ref x = entry_ref y" using y(2) by (simp add: entry_ref_def)
      moreover have "unat (sh_count y) = count (add_mset (a, s) refs) (entry_ref y)" using i(5) y(1) by blast
      ultimately show ?thesis using y(2) d ref [OF y(1)] e(2) by (cases "y = e") simp_all
    qed
    ultimately have "shared_inv ?t refs" unfolding shared_inv_def set_count_maps using i by simp
    then show ?thesis using False f by (simp add: string_shared_free_def)
  qed
qed

inductive_cases shared_reachableE: "shared_reachable t refs"

lemma shared_reachable_inv: "shared_reachable t refs \<Longrightarrow> shared_inv t refs"
proof (induction rule: shared_reachable.induct)
  case shared_start
  then show ?case by (simp add: shared_inv_def)
next
  case (shared_got t refs address s t' a)
  then show ?case using shared_get_inv [of t refs address s] by auto
next
  case (shared_freed t a s refs t')
  then show ?case using shared_free_inv [of t a s refs] by auto
qed

lemma shared_lives:
  assumes "shared_reachable t refs"
  shows "(\<exists>e\<in>set t. sh_address e = a \<and> sh_string e = s) \<longleftrightarrow> (a, s) \<in># refs"
    and "e \<in> set t \<Longrightarrow> unat (sh_count e) = count refs (sh_address e, sh_string e)"
    and "(a, s) \<in># refs \<Longrightarrow> (b, s) \<in># refs \<Longrightarrow> a = b"
    and "(a, s) \<in># refs \<Longrightarrow> string_shared_free t (Some a) \<noteq> None"
proof -
  have i: "distinct (map sh_string t)" "set_mset refs = entry_ref ` set t"
    "\<forall>e\<in>set t. unat (sh_count e) = count refs (entry_ref e)"
    using shared_reachable_inv [OF assms] by (simp_all add: shared_inv_def)
  show "(\<exists>e\<in>set t. sh_address e = a \<and> sh_string e = s) \<longleftrightarrow> (a, s) \<in># refs"
    unfolding i(2) by (auto simp: entry_ref_def)
  show "e \<in> set t \<Longrightarrow> unat (sh_count e) = count refs (sh_address e, sh_string e)"
    using i(3) by (simp add: entry_ref_def)
  show "(a, s) \<in># refs \<Longrightarrow> (b, s) \<in># refs \<Longrightarrow> a = b"
    unfolding i(2) using i(1) by (auto simp: entry_ref_def distinct_map inj_on_def)
  show "(a, s) \<in># refs \<Longrightarrow> string_shared_free t (Some a) \<noteq> None"
    using shared_free_inv [of t a s "refs - {#(a, s)#}"] shared_reachable_inv [OF assms] by auto
qed

text \<open>
  Claim C31.  A shared string lives exactly as long as there are references to it: its count is the
  number of references, equal strings have the same address, and giving back one of the
  references is never an invalid access.
\<close>

theorem string_shared_lives:
  assumes "shared_reachable t refs"
  shows "((\<exists>e\<in>set t. sh_address e = a \<and> sh_string e = s) \<longleftrightarrow> (a, s) \<in># refs) \<and>
    (\<forall>e\<in>set t. unat (sh_count e) = count refs (sh_address e, sh_string e)) \<and>
    ((a, s) \<in># refs \<and> (b, s) \<in># refs \<longrightarrow> a = b) \<and>
    ((a, s) \<in># refs \<longrightarrow> string_shared_free t (Some a) \<noteq> None)"
  using shared_lives [OF assms] by blast

theorem string_shared_lives_witness:
  "string_shared_free (fst (string_shared_get 8 [] (Some ''a''))) (Some 8) \<noteq> None"
proof -
  have "shared_reachable [\<lparr>sh_address = 8, sh_count = 1, sh_string = ''a''\<rparr>] {#(8, ''a'')#}"
    by (rule shared_got [OF shared_start, of 8 "''a''"]) (simp_all add: string_shared_get_def shared_get_item_def)
  from string_shared_lives [OF this, of 8 "''a''" 8] show ?thesis
    by (simp add: string_shared_get_def shared_get_item_def)
qed

end
