(* ===== verification/Config_Option.thy ===== *)
theory Config_Option
  imports String_Split Numbers "HOL-Library.Signed_Division"
begin

text \<open>
The options of the configuration files, \<open>src/core/wee-config-file.c\<close>: their values with types and
bounds, the functions that set, reset and read them, and new options in a section.  The functions on
colors (\<open>src/gui/curses/gui-curses-color.c\<close>) are an argument, and so are the callbacks of an option; the
pointers to the file and the section are their names, the list of the options of a section is a list.
\<close>

subsection \<open>Data\<close>

datatype config_option_type = OPTION_BOOLEAN | OPTION_INTEGER | OPTION_STRING | OPTION_COLOR

text \<open>
  What the pointers to the values point to: an integer, a string, or an integer that was allocated
  and never written.
\<close>

datatype config_value = IntV int | StrV cstr | UninitV

record config_option =
  opt_path :: "(cstr \<times> cstr) option"
  opt_name :: cstr
  opt_parent_name :: "cstr option"
  opt_type :: config_option_type
  opt_description :: "cstr option"
  opt_string_values :: "cstr list option"
  opt_min :: int
  opt_max :: int
  opt_default_value :: "config_value option"
  opt_value :: "config_value option"
  opt_null_value_allowed :: bool
  opt_callback_change :: bool
  opt_loaded :: bool

text \<open>\<open>opt_path\<close> holds the names of the file and the section of the option, when it has both.\<close>

datatype config_set_rc = SET_OK_CHANGED | SET_OK_SAME_VALUE | SET_ERROR | SET_OPTION_NOT_FOUND

datatype config_unset_rc = UNSET_OK_NO_RESET | UNSET_OK_RESET | UNSET_OK_REMOVED | UNSET_ERROR

text \<open>The calls that leave the functions: the callbacks of options and sections, and the hooks.\<close>

datatype config_call = Call_Change cstr | Call_Delete cstr | Call_Hook_Config cstr "cstr option" | Call_Delete_Option cstr
  | Call_Read cstr cstr "cstr option" | Call_Create_Option cstr cstr "cstr option"

text \<open>The colors of the interface: their names as numbers and back.\<close>

record color_env =
  color_assign :: "cstr \<Rightarrow> int option"
  color_assign_by_diff :: "cstr option \<Rightarrow> int \<Rightarrow> int option"
  color_name :: "int \<Rightarrow> cstr option"
  color_numbers :: int

subsection \<open>Booleans and numbers\<close>

definition config_option_type_string :: "(config_option_type \<times> cstr) list" where
  "config_option_type_string =
     [(OPTION_BOOLEAN, ''boolean''), (OPTION_INTEGER, ''integer''), (OPTION_STRING, ''string''), (OPTION_COLOR, ''color'')]"

definition config_boolean_true :: "cstr list" where
  "config_boolean_true = [''on'', ''yes'', ''y'', ''true'', ''t'', ''1'']"

definition config_boolean_false :: "cstr list" where
  "config_boolean_false = [''off'', ''no'', ''n'', ''false'', ''f'', ''0'']"

definition strcase_in :: "cstr \<Rightarrow> cstr list \<Rightarrow> bool" where
  "strcase_in s xs \<longleftrightarrow> (\<exists>x\<in>set xs. string_strcasecmp (Some s) (Some x) = 0)"

definition config_file_string_boolean_is_valid :: "cstr option \<Rightarrow> bool" where
  "config_file_string_boolean_is_valid text =
     (case text of None \<Rightarrow> False | Some s \<Rightarrow> strcase_in s config_boolean_true \<or> strcase_in s config_boolean_false)"

definition config_file_string_to_boolean :: "cstr option \<Rightarrow> bool" where
  "config_file_string_to_boolean text = (case text of None \<Rightarrow> False | Some s \<Rightarrow> strcase_in s config_boolean_true)"

text \<open>The first of the allowed values that is equal to a string.\<close>

fun value_index :: "cstr list \<Rightarrow> cstr \<Rightarrow> nat option" where
  "value_index [] s = None"
| "value_index (x # xs) s = (if string_strcasecmp (Some x) (Some s) = 0 then Some 0 else map_option Suc (value_index xs s))"

definition option_number :: "int \<Rightarrow> int \<Rightarrow> cstr \<Rightarrow> int" where
  "option_number mn mx s =
     (let (number, error) = strtol10 s;
          number = (if error \<noteq> [] then 0 else number)
      in if number < mn then mn else if number > mx then mx else number)"

subsection \<open>Hooks\<close>

text \<open>
  Reading of the value as an integer or as a string, which its type decides; a value that was not
  written cannot be read.
\<close>

definition read_int :: "config_value option \<Rightarrow> int option" where
  "read_int v = (case v of Some (IntV i) \<Rightarrow> Some i | _ \<Rightarrow> None)"

definition read_str :: "config_value option \<Rightarrow> cstr option" where
  "read_str v = (case v of Some (StrV s) \<Rightarrow> Some s | _ \<Rightarrow> None)"

text \<open>The array of allowed values ends with \<open>NULL\<close>.\<close>

definition string_value_at :: "cstr list \<Rightarrow> int \<Rightarrow> cstr option option" where
  "string_value_at xs i =
     (if i < 0 \<or> i > int (length xs) then None else if i = int (length xs) then Some None else Some (Some (xs ! nat i)))"

text \<open>The string of a value, as the hooks and the files have it; \<open>None\<close> for an invalid access.\<close>

definition value_string :: "color_env \<Rightarrow> config_option \<Rightarrow> config_value option \<Rightarrow> cstr option option" where
  "value_string env opt v =
     (case opt_type opt of
        OPTION_BOOLEAN \<Rightarrow> map_option (\<lambda>i. Some (if i = 1 then ''on'' else ''off'')) (read_int v)
      | OPTION_INTEGER \<Rightarrow>
          Option.bind (read_int v) (\<lambda>i. case opt_string_values opt of
              Some xs \<Rightarrow> string_value_at xs i
            | None \<Rightarrow> Some (Some (string_of_int i)))
      | OPTION_STRING \<Rightarrow> map_option Some (read_str v)
      | OPTION_COLOR \<Rightarrow> map_option (color_name env) (read_int v))"

definition config_file_option_full_name :: "cstr \<times> cstr \<Rightarrow> config_option \<Rightarrow> cstr" where
  "config_file_option_full_name path opt = fst path @ ''.'' @ snd path @ ''.'' @ opt_name opt"

definition config_file_hook_config_exec :: "color_env \<Rightarrow> cstr \<times> cstr \<Rightarrow> config_option \<Rightarrow> config_call option" where
  "config_file_hook_config_exec env path opt =
     (case opt_value opt of
        None \<Rightarrow> Some (Call_Hook_Config (config_file_option_full_name path opt) None)
      | Some v \<Rightarrow> map_option (Call_Hook_Config (config_file_option_full_name path opt)) (value_string env opt (Some v)))"

text \<open>The end of the functions that change a value.\<close>

definition option_changed ::
  "color_env \<Rightarrow> bool \<Rightarrow> config_option \<Rightarrow> config_set_rc \<Rightarrow> (config_option \<times> config_set_rc \<times> config_call list) option" where
  "option_changed env run_callback opt rc = do {
     let change = (if rc = SET_OK_CHANGED \<and> run_callback \<and> opt_callback_change opt then [Call_Change (opt_name opt)] else []);
     hook \<leftarrow> (case opt_path opt of
                Some path \<Rightarrow>
                  if rc \<noteq> SET_ERROR then map_option (\<lambda>c. [c]) (config_file_hook_config_exec env path opt) else Some []
              | None \<Rightarrow> Some []);
     Some (opt, rc, change @ hook) }"

subsection \<open>Setting\<close>

definition is_changed :: "bool \<Rightarrow> config_set_rc" where
  "is_changed b = (if b then SET_OK_CHANGED else SET_OK_SAME_VALUE)"

text \<open>An increment or a decrement: its number, when it is one.\<close>

definition relative_number :: "char \<Rightarrow> cstr \<Rightarrow> int option option" where
  "relative_number c value =
     (if take 2 value = [c, c] then
        (let (number, error) = strtol10 (drop 2 value) in Some (if error = [] then Some number else None))
      else None)"

text \<open>The new value of a boolean; \<open>None\<close> when the string is not valid.\<close>

definition set_boolean :: "int option \<Rightarrow> cstr \<Rightarrow> int option" where
  "set_boolean old value =
     (if string_strcasecmp (Some value) (Some ''toggle'') = 0 then
        Some (case old of None \<Rightarrow> 1 | Some b \<Rightarrow> if b = 1 then 0 else 1)
      else if config_file_string_boolean_is_valid (Some value) then
        Some (if config_file_string_to_boolean (Some value) then 1 else 0)
      else None)"

text \<open>The new index among the allowed values, - 1 or another negative number when the string is not valid.\<close>

definition set_index :: "cstr list \<Rightarrow> int \<Rightarrow> int \<Rightarrow> cstr \<Rightarrow> int" where
  "set_index xs mx old value =
     (let n = mx + 1
      in case relative_number (CHR ''+'') value of
           Some None \<Rightarrow> - 1
         | Some (Some number) \<Rightarrow> int_of_long ((old + number smod n) smod n)
         | None \<Rightarrow>
             (case relative_number (CHR ''-'') value of
                Some None \<Rightarrow> - 1
              | Some (Some number) \<Rightarrow> int_of_long ((old + n - number smod n) smod n)
              | None \<Rightarrow> (case value_index xs value of Some i \<Rightarrow> int i | None \<Rightarrow> - 1)))"

text \<open>
  The new number; the sums of \<open>long\<close> are converted to \<open>int\<close>.  An increment is only compared with
  the maximum, a decrement only with the minimum.
\<close>

definition set_number :: "int \<Rightarrow> int \<Rightarrow> int \<Rightarrow> cstr \<Rightarrow> int option" where
  "set_number mn mx old value =
     (case relative_number (CHR ''+'') value of
        Some None \<Rightarrow> None
      | Some (Some number) \<Rightarrow> (let i = int_of_long (old + number) in if i \<le> mx then Some i else None)
      | None \<Rightarrow>
          (case relative_number (CHR ''-'') value of
             Some None \<Rightarrow> None
           | Some (Some number) \<Rightarrow> (let i = int_of_long (old - number) in if i \<ge> mn then Some i else None)
           | None \<Rightarrow>
               (let (number, error) = strtol10 value; i = int_of_long number
                in if error = [] \<and> i \<ge> mn \<and> i \<le> mx then Some i else None)))"

definition set_color :: "color_env \<Rightarrow> int \<Rightarrow> cstr \<Rightarrow> int option" where
  "set_color env old value =
     (case relative_number (CHR ''+'') value of
        Some None \<Rightarrow> None
      | Some (Some number) \<Rightarrow> color_assign_by_diff env (color_name env old) (int_of_long number)
      | None \<Rightarrow>
          (case relative_number (CHR ''-'') value of
             Some None \<Rightarrow> None
           | Some (Some number) \<Rightarrow> color_assign_by_diff env (color_name env old) (int_of_long (- number))
           | None \<Rightarrow> color_assign env value))"

text \<open>The value and the code, before the callbacks; \<open>None\<close> when the old value cannot be read.\<close>

definition set_value :: "color_env \<Rightarrow> config_option \<Rightarrow> cstr \<Rightarrow> (config_value option \<times> config_set_rc) option" where
  "set_value env opt value =
     (let old = opt_value opt in
      case opt_type opt of
        OPTION_BOOLEAN \<Rightarrow>
          (case old of
             None \<Rightarrow> Some (case set_boolean None value of
                 Some b \<Rightarrow> (Some (IntV b), SET_OK_CHANGED)
               | None \<Rightarrow> (None, SET_ERROR))
           | Some _ \<Rightarrow> map_option (\<lambda>b. case set_boolean (Some b) value of
                 Some b' \<Rightarrow> (Some (IntV b'), is_changed (b' \<noteq> b))
               | None \<Rightarrow> (old, SET_ERROR)) (read_int old))
      | OPTION_INTEGER \<Rightarrow>
          map_option (\<lambda>old_value.
            let new = (case opt_string_values opt of
                  Some xs \<Rightarrow> (let i = set_index xs (opt_max opt) old_value value in if i \<ge> 0 then Some i else None)
                | None \<Rightarrow> set_number (opt_min opt) (opt_max opt) old_value value)
            in case new of
                 Some i \<Rightarrow> (Some (IntV i), is_changed (old = None \<or> i \<noteq> old_value))
               | None \<Rightarrow> (old, SET_ERROR))
            (if old = None then Some 0 else read_int old)
      | OPTION_STRING \<Rightarrow>
          (case old of
             None \<Rightarrow> Some (Some (StrV value), SET_OK_CHANGED)
           | Some _ \<Rightarrow> map_option (\<lambda>s. (Some (StrV value), is_changed (s \<noteq> value))) (read_str old))
      | OPTION_COLOR \<Rightarrow>
          map_option (\<lambda>old_value.
            case set_color env old_value value of
              Some i \<Rightarrow> (Some (IntV i), is_changed (old = None \<or> i \<noteq> old_value))
            | None \<Rightarrow> if old = None then (Some UninitV, SET_OK_CHANGED) else (old, SET_ERROR))
            (if old = None then Some 0 else read_int old))"

text \<open>
  The callback that checks the value is an argument, \<open>None\<close> when the option has none.  The result:
  the option, the returned code and the calls.
\<close>

definition config_file_option_set ::
  "color_env \<Rightarrow> (cstr option \<Rightarrow> bool) option \<Rightarrow> config_option \<Rightarrow> cstr option \<Rightarrow> bool \<Rightarrow>
   (config_option \<times> config_set_rc \<times> config_call list) option" where
  "config_file_option_set env check opt value run_callback =
     (if (case check of Some f \<Rightarrow> \<not> f value | None \<Rightarrow> False) then Some (opt, SET_ERROR, [])
      else (case value of
          Some s \<Rightarrow> do {
            (v, rc) \<leftarrow> set_value env opt s;
            option_changed env run_callback (opt\<lparr>opt_value := v\<rparr>) rc }
        | None \<Rightarrow>
            if opt_null_value_allowed opt \<and> opt_value opt \<noteq> None
            then option_changed env run_callback (opt\<lparr>opt_value := None\<rparr>) SET_OK_CHANGED
            else option_changed env run_callback opt SET_OK_SAME_VALUE))"

definition config_file_option_set_null ::
  "color_env \<Rightarrow> config_option \<Rightarrow> bool \<Rightarrow> (config_option \<times> config_set_rc \<times> config_call list) option" where
  "config_file_option_set_null env opt run_callback =
     (if \<not> opt_null_value_allowed opt then option_changed env run_callback opt SET_ERROR
      else if opt_value opt = None then option_changed env run_callback opt SET_OK_SAME_VALUE
      else option_changed env run_callback (opt\<lparr>opt_value := None\<rparr>) SET_OK_CHANGED)"

subsection \<open>Reset and unset\<close>

definition reset_value :: "config_option \<Rightarrow> config_value \<Rightarrow> (config_value option \<times> config_set_rc) option" where
  "reset_value opt dv =
     (case opt_type opt of
        OPTION_STRING \<Rightarrow> do {
          d \<leftarrow> read_str (Some dv);
          same \<leftarrow> (case opt_value opt of None \<Rightarrow> Some False | v \<Rightarrow> map_option (\<lambda>s. s = d) (read_str v));
          Some (Some (StrV d), is_changed (\<not> same)) }
      | _ \<Rightarrow> do {
          d \<leftarrow> read_int (Some dv);
          same \<leftarrow> (case opt_value opt of None \<Rightarrow> Some False | v \<Rightarrow> map_option (\<lambda>i. i = d) (read_int v));
          Some (Some (IntV d), is_changed (\<not> same)) })"

definition config_file_option_reset ::
  "color_env \<Rightarrow> config_option \<Rightarrow> bool \<Rightarrow> (config_option \<times> config_set_rc \<times> config_call list) option" where
  "config_file_option_reset env opt run_callback =
     (case opt_default_value opt of
        Some dv \<Rightarrow> do {
          (v, rc) \<leftarrow> reset_value opt dv;
          option_changed env run_callback (opt\<lparr>opt_value := v\<rparr>) rc }
      | None \<Rightarrow>
          if opt_null_value_allowed opt then
            (if opt_value opt \<noteq> None then option_changed env run_callback (opt\<lparr>opt_value := None\<rparr>) SET_OK_CHANGED
             else option_changed env run_callback opt SET_OK_SAME_VALUE)
          else option_changed env run_callback opt SET_ERROR)"

text \<open>
  An option of a section where options can be removed is removed; the callback of the section, when
  there is one, removes it and gives the code.  The other result is the option, when it remains.
\<close>

definition config_file_option_unset ::
  "color_env \<Rightarrow> bool \<Rightarrow> bool \<Rightarrow> config_unset_rc option \<Rightarrow> config_option \<Rightarrow>
   (config_option option \<times> config_unset_rc \<times> config_call list) option" where
  "config_file_option_unset env user_can_delete callback_delete callback_delete_option opt =
     (case opt_path opt of
        Some path \<Rightarrow>
          if user_can_delete then
            (let del = (if callback_delete then [Call_Delete (opt_name opt)] else []);
                 hook = Call_Hook_Config (config_file_option_full_name path opt) None
             in Some (case callback_delete_option of
                  Some rc \<Rightarrow> (None, rc, del @ [Call_Delete_Option (opt_name opt), hook])
                | None \<Rightarrow> (None, UNSET_OK_REMOVED, del @ [hook])))
          else do {
            (opt, rc, calls) \<leftarrow> config_file_option_reset env opt True;
            Some (Some opt, (case rc of SET_OK_SAME_VALUE \<Rightarrow> UNSET_OK_NO_RESET | SET_OK_CHANGED \<Rightarrow> UNSET_OK_RESET
                                     | _ \<Rightarrow> UNSET_ERROR), calls) }
      | None \<Rightarrow> do {
            (opt, rc, calls) \<leftarrow> config_file_option_reset env opt True;
            Some (Some opt, (case rc of SET_OK_SAME_VALUE \<Rightarrow> UNSET_OK_NO_RESET | SET_OK_CHANGED \<Rightarrow> UNSET_OK_RESET
                                     | _ \<Rightarrow> UNSET_ERROR), calls) })"

subsection \<open>Reading\<close>

text \<open>
  The value as a string: with colors (their codes are given) and with delimiters around a string.
  The buffer has 64 bytes for the colors, and none for the delimiters.
\<close>

definition config_file_option_value_to_string ::
  "color_env \<Rightarrow> (cstr \<times> cstr \<times> cstr) option \<Rightarrow> config_option \<Rightarrow> bool \<Rightarrow> bool \<Rightarrow> cstr option option" where
  "config_file_option_value_to_string env colors opt default_value use_delimiters =
     (let v = (if default_value then opt_default_value opt else opt_value opt);
          color_null = (case colors of Some (c, _, _) \<Rightarrow> c | None \<Rightarrow> []);
          color_value = (case colors of Some (_, c, _) \<Rightarrow> c | None \<Rightarrow> []);
          color_delimiters = (case colors of Some (_, _, c) \<Rightarrow> c | None \<Rightarrow> []);
          quote = (if use_delimiters then color_delimiters @ [CHR 0x22] else []);
          fits = (\<lambda>n s. take (n + (if colors = None then 0 else 64)) s)
      in if v = None then Some (Some (fits 7 (color_null @ ''null'')))
         else (case opt_type opt of
             OPTION_BOOLEAN \<Rightarrow> map_option (\<lambda>i. Some (fits 7 (color_value @ (if i \<noteq> 0 then ''on'' else ''off'')))) (read_int v)
           | OPTION_INTEGER \<Rightarrow>
               (case opt_string_values opt of
                  Some xs \<Rightarrow> do {
                    i \<leftarrow> read_int v;
                    s \<leftarrow> string_value_at xs i;
                    s \<leftarrow> s;
                    Some (Some (fits (length s) (color_value @ s))) }
                | None \<Rightarrow> map_option (\<lambda>i. Some (fits 31 (color_value @ string_of_int i))) (read_int v))
           | OPTION_STRING \<Rightarrow>
               map_option (\<lambda>s. Some (fits (length s) (quote @ color_value @ s @ quote))) (read_str v)
           | OPTION_COLOR \<Rightarrow>
               map_option (\<lambda>i. map_option (\<lambda>s. fits (length s) (color_value @ s)) (color_name env i)) (read_int v)))"

definition config_file_option_is_null :: "config_option option \<Rightarrow> bool" where
  "config_file_option_is_null opt = (case opt of None \<Rightarrow> True | Some opt \<Rightarrow> opt_value opt = None)"

definition config_file_option_default_is_null :: "config_option option \<Rightarrow> bool" where
  "config_file_option_default_is_null opt = (case opt of None \<Rightarrow> True | Some opt \<Rightarrow> opt_default_value opt = None)"

definition config_file_option_has_changed :: "config_option \<Rightarrow> bool option" where
  "config_file_option_has_changed opt =
     (case (opt_default_value opt, opt_value opt) of
        (None, None) \<Rightarrow> Some False
      | (Some d, Some v) \<Rightarrow>
          if opt_type opt = OPTION_STRING
          then do { a \<leftarrow> read_str (Some d); b \<leftarrow> read_str (Some v); Some (b \<noteq> a) }
          else do { a \<leftarrow> read_int (Some d); b \<leftarrow> read_int (Some v); Some (b \<noteq> a) }
      | _ \<Rightarrow> Some True)"

text \<open>The next functions are those for the value and for the default value.\<close>

definition config_file_option_boolean :: "config_option option \<Rightarrow> bool \<Rightarrow> int option" where
  "config_file_option_boolean opt default_value =
     (case opt of
        None \<Rightarrow> Some 0
      | Some opt \<Rightarrow>
          (case (if default_value then opt_default_value opt else opt_value opt) of
             None \<Rightarrow> Some 0
           | v \<Rightarrow> if opt_type opt = OPTION_BOOLEAN then read_int v else Some 0))"

definition config_file_option_integer :: "config_option option \<Rightarrow> bool \<Rightarrow> int option" where
  "config_file_option_integer opt default_value =
     (case opt of
        None \<Rightarrow> Some 0
      | Some opt \<Rightarrow>
          (case (if default_value then opt_default_value opt else opt_value opt) of
             None \<Rightarrow> Some 0
           | v \<Rightarrow> (case opt_type opt of
                OPTION_BOOLEAN \<Rightarrow> map_option (\<lambda>i. if i = 1 then 1 else 0) (read_int v)
              | OPTION_STRING \<Rightarrow> Some 0
              | _ \<Rightarrow> read_int v)))"

definition config_file_option_string :: "color_env \<Rightarrow> config_option option \<Rightarrow> bool \<Rightarrow> cstr option option" where
  "config_file_option_string env opt default_value =
     (case opt of
        None \<Rightarrow> Some None
      | Some opt \<Rightarrow>
          (case (if default_value then opt_default_value opt else opt_value opt) of
             None \<Rightarrow> Some None
           | v \<Rightarrow> (case opt_type opt of
                OPTION_BOOLEAN \<Rightarrow> map_option (\<lambda>i. Some (if i \<noteq> 0 then hd config_boolean_true else hd config_boolean_false)) (read_int v)
              | OPTION_INTEGER \<Rightarrow> (case opt_string_values opt of
                    Some xs \<Rightarrow> Option.bind (read_int v) (string_value_at xs)
                  | None \<Rightarrow> Some None)
              | OPTION_STRING \<Rightarrow> map_option Some (read_str v)
              | OPTION_COLOR \<Rightarrow> map_option (color_name env) (read_int v))))"

definition config_file_option_color :: "color_env \<Rightarrow> config_option option \<Rightarrow> bool \<Rightarrow> cstr option option" where
  "config_file_option_color env opt default_value =
     (case opt of
        None \<Rightarrow> Some None
      | Some opt \<Rightarrow>
          (case (if default_value then opt_default_value opt else opt_value opt) of
             None \<Rightarrow> Some None
           | v \<Rightarrow> if opt_type opt = OPTION_COLOR then map_option (color_name env) (read_int v) else Some None))"

subsection \<open>New options\<close>

definition new_option_value :: "color_env \<Rightarrow> config_option \<Rightarrow> cstr option \<Rightarrow> config_value option" where
  "new_option_value env opt value =
     (case value of
        None \<Rightarrow> None
      | Some s \<Rightarrow> Some (case opt_type opt of
          OPTION_BOOLEAN \<Rightarrow> IntV (if config_file_string_to_boolean (Some s) then 1 else 0)
        | OPTION_INTEGER \<Rightarrow>
            (case opt_string_values opt of
               Some xs \<Rightarrow> IntV (case value_index xs s of Some i \<Rightarrow> int i | None \<Rightarrow> 0)
             | None \<Rightarrow> IntV (option_number (opt_min opt) (opt_max opt) s))
        | OPTION_STRING \<Rightarrow> StrV s
        | OPTION_COLOR \<Rightarrow> IntV (case color_assign env s of Some c \<Rightarrow> c | None \<Rightarrow> 0)))"

text \<open>
  The sections: what the code reads of them, and the options in their order.  A function of the section
  is there or not; what it does is not part of the model.
\<close>

record config_section =
  sec_name :: cstr
  sec_user_can_add_options :: bool
  sec_user_can_delete_options :: bool
  sec_callback_read :: bool
  sec_callback_write :: bool
  sec_callback_write_default :: bool
  sec_callback_create_option :: bool
  sec_options :: "config_option list"

record config_file =
  cfg_name :: cstr
  cfg_sections :: "config_section list"

definition section_search_option :: "config_option list \<Rightarrow> cstr option \<Rightarrow> config_option option" where
  "section_search_option options option_name = find (\<lambda>opt. string_strcasecmp (Some (opt_name opt)) option_name = 0) options"

text \<open>The first option whose name is greater: a new option is inserted before it.\<close>

fun config_file_option_insert_in_section :: "config_option \<Rightarrow> config_option list \<Rightarrow> config_option list" where
  "config_file_option_insert_in_section opt [] = [opt]"
| "config_file_option_insert_in_section opt (p # options) =
     (if string_strcasecmp (Some (opt_name opt)) (Some (opt_name p)) < 0 then opt # p # options
      else p # config_file_option_insert_in_section opt options)"

text \<open>The name of the option and of its parent.\<close>

definition option_names :: "cstr \<Rightarrow> cstr \<times> cstr option" where
  "option_names name =
     (case strstr name '' << '' of
        Some pos \<Rightarrow> (take (length name - length pos) name, Some (drop 4 pos))
      | None \<Rightarrow> (name, None))"

definition option_type_of :: "cstr \<Rightarrow> config_option_type option" where
  "option_type_of type = map_option fst (find (\<lambda>(t, s). string_strcasecmp (Some type) (Some s) = 0) config_option_type_string)"

text \<open>The allowed values and their number.\<close>

definition new_option_values :: "config_option_type \<Rightarrow> cstr option \<Rightarrow> (cstr list option \<times> int) option" where
  "new_option_values var_type string_values =
     (if var_type = OPTION_INTEGER \<and> string_values \<noteq> None \<and> string_values \<noteq> Some [] then
        string_split string_values (Some ''|'') None {STRIP_LEFT, STRIP_RIGHT, COLLAPSE_SEPS} 0
      else Some (None, 0))"

text \<open>The option itself, with its bounds and its values.\<close>

definition new_option ::
  "color_env \<Rightarrow> (cstr \<times> cstr) option \<Rightarrow> cstr \<times> cstr option \<Rightarrow> config_option_type \<Rightarrow> cstr option \<Rightarrow> cstr list option \<times> int \<Rightarrow>
   int \<times> int \<Rightarrow> cstr option \<times> cstr option \<Rightarrow> bool \<Rightarrow> bool \<Rightarrow> config_option" where
  "new_option env path names var_type description values bounds defaults null_value_allowed callback_change =
     (let (mn, mx) =
            (case var_type of
               OPTION_BOOLEAN \<Rightarrow> (0, 1)
             | OPTION_INTEGER \<Rightarrow>
                 if fst values \<noteq> None then (0, if snd values = 0 then 0 else snd values - 1) else bounds
             | OPTION_STRING \<Rightarrow> bounds
             | OPTION_COLOR \<Rightarrow> (fst bounds, color_numbers env - 1));
          opt = \<lparr>opt_path = path, opt_name = fst names, opt_parent_name = snd names, opt_type = var_type,
             opt_description = description, opt_string_values = fst values, opt_min = mn, opt_max = mx,
             opt_default_value = None, opt_value = None, opt_null_value_allowed = null_value_allowed,
             opt_callback_change = callback_change, opt_loaded = True\<rparr>
      in opt\<lparr>opt_default_value := new_option_value env opt (fst defaults),
             opt_value := new_option_value env opt (snd defaults)\<rparr>)"

text \<open>
  A new option with its section: the inner \<open>None\<close> is the result \<open>NULL\<close>.  The file is given by
  its name.
\<close>

definition config_file_new_option ::
  "color_env \<Rightarrow> cstr option \<Rightarrow> config_section option \<Rightarrow> cstr option \<Rightarrow> cstr \<Rightarrow> cstr option \<Rightarrow> cstr option \<Rightarrow>
   int \<Rightarrow> int \<Rightarrow> cstr option \<Rightarrow> cstr option \<Rightarrow> bool \<Rightarrow> bool \<Rightarrow>
   (config_option \<times> config_section option \<times> config_call list) option option" where
  "config_file_new_option env config_file section name type description string_values mn mx default_value value
     null_value_allowed callback_change =
     (case name of
        None \<Rightarrow> Some None
      | Some name \<Rightarrow>
          if (case section of
                Some sec \<Rightarrow> config_file \<noteq> None \<and> section_search_option (sec_options sec) (Some (fst (option_names name))) \<noteq> None
              | None \<Rightarrow> False)
          then Some None
          else (case option_type_of type of
            None \<Rightarrow> Some None
          | Some var_type \<Rightarrow>
              (let defaults =
                     (if null_value_allowed then (default_value, value)
                      else (if default_value = None then value else default_value,
                            if value = None then default_value else value))
               in if \<not> null_value_allowed \<and> fst defaults = None then Some None
                  else do {
                    values \<leftarrow> new_option_values var_type string_values;
                    if fst values = None \<and> var_type = OPTION_INTEGER \<and> string_values \<noteq> None \<and> string_values \<noteq> Some []
                    then Some None
                    else do {
                      let path = (case (config_file, section) of
                            (Some f, Some sec) \<Rightarrow> Some (f, sec_name sec) | _ \<Rightarrow> None);
                      let opt = new_option env path (option_names name) var_type description values (mn, mx) defaults
                            null_value_allowed callback_change;
                      let section = map_option (\<lambda>sec. sec\<lparr>sec_options :=
                            config_file_option_insert_in_section opt (sec_options sec)\<rparr>) section;
                      calls \<leftarrow> (case path of
                            Some p \<Rightarrow> map_option (\<lambda>c. [c]) (config_file_hook_config_exec env p opt) | None \<Rightarrow> Some []);
                      Some (Some (opt, section, calls)) } })))"

end
