(* ===== verification/Config_Types.thy ===== *)
theory Config_Types
  imports Config_Option
begin

text \<open>
What the functions on options show: values keep their types and their bounds, and where they do not.
\<close>

subsection \<open>Types of the values\<close>

text \<open>
  A value has the type of its option: a boolean is 0 or 1, an integer is inside the bounds of its option, which are any
  numbers of 32 bits, a string is a string, and a color is a number.  (The code does not compare the number of a color
  with the bounds of its option, and gives colors numbers beyond them.)  A value is missing only where
  this is allowed.  The number of allowed strings of an option is at most \<open>INT_MAX\<close>.
\<close>

definition bounds_ok :: "config_option \<Rightarrow> bool" where
  "bounds_ok opt \<longleftrightarrow> opt_type opt = OPTION_INTEGER \<longrightarrow>
     - (2 ^ 31) \<le> opt_min opt \<and> opt_min opt \<le> opt_max opt \<and> opt_max opt < 2 ^ 31 \<and>
     (case opt_string_values opt of
        Some xs \<Rightarrow> opt_min opt = 0 \<and> opt_max opt = int (length xs) - 1 \<and> opt_max opt < 2 ^ 31 - 1
      | None \<Rightarrow> True)"

definition value_ok :: "config_option \<Rightarrow> config_value \<Rightarrow> bool" where
  "value_ok opt v =
     (case opt_type opt of
        OPTION_BOOLEAN \<Rightarrow> v = IntV 0 \<or> v = IntV 1
      | OPTION_INTEGER \<Rightarrow> (\<exists>i. v = IntV i \<and> opt_min opt \<le> i \<and> i \<le> opt_max opt)
      | OPTION_STRING \<Rightarrow> (\<exists>s. v = StrV s)
      | OPTION_COLOR \<Rightarrow> (\<exists>i. v = IntV i))"

definition option_ok :: "config_option \<Rightarrow> bool" where
  "option_ok opt \<longleftrightarrow> bounds_ok opt \<and>
     (\<forall>v. opt_value opt = Some v \<longrightarrow> value_ok opt v) \<and> (\<forall>v. opt_default_value opt = Some v \<longrightarrow> value_ok opt v) \<and>
     (\<not> opt_null_value_allowed opt \<longrightarrow> opt_value opt \<noteq> None \<and> opt_default_value opt \<noteq> None)"

lemma value_ok_update [simp]:
  "value_ok (opt\<lparr>opt_value := v\<rparr>) = value_ok opt" "value_ok (opt\<lparr>opt_default_value := v\<rparr>) = value_ok opt"
  "bounds_ok (opt\<lparr>opt_value := v\<rparr>) = bounds_ok opt" "bounds_ok (opt\<lparr>opt_default_value := v\<rparr>) = bounds_ok opt"
  by (simp_all add: value_ok_def bounds_ok_def fun_eq_iff cong: option.case_cong config_option_type.case_cong)

text \<open>An interface without named colors, for the examples.\<close>

definition plain_colors :: color_env where
  "plain_colors = \<lparr>color_assign = (\<lambda>s. None), color_assign_by_diff = (\<lambda>s i. None), color_name = (\<lambda>i. None), color_numbers = 0\<rparr>"

text \<open>A value of the right type has a string.\<close>

lemma value_string_ok: "bounds_ok opt \<Longrightarrow> value_ok opt v \<Longrightarrow> value_string env opt (Some v) \<noteq> None"
  by (cases "opt_type opt")
    (auto simp: value_ok_def bounds_ok_def value_string_def read_int_def read_str_def string_value_at_def split: option.splits)

lemma hook_config_ok: "option_ok opt \<Longrightarrow> \<exists>c. config_file_hook_config_exec env path opt = Some c"
  using value_string_ok [of opt _ env]
  by (cases "opt_value opt") (auto simp: option_ok_def config_file_hook_config_exec_def)

lemma option_changed_ok:
  assumes "option_ok opt"
  shows "\<exists>calls. option_changed env run_callback opt rc = Some (opt, rc, calls)"
proof -
  have h: "\<exists>c. config_file_hook_config_exec env path opt = Some c" for path
    by (rule hook_config_ok [OF assms])
  show ?thesis
  proof (cases "opt_path opt")
    case (Some path)
    then show ?thesis using h [of path] by (auto simp: option_changed_def)
  qed (simp add: option_changed_def)
qed

subsection \<open>New values\<close>

lemma value_index_bound: "value_index xs s = Some i \<Longrightarrow> i < length xs"
  by (induction xs arbitrary: i) (auto split: if_splits)

lemma option_number_bounds: "mn \<le> mx \<Longrightarrow> mn \<le> option_number mn mx s \<and> option_number mn mx s \<le> mx"
  by (auto simp: option_number_def Let_def split: prod.split)

lemma new_option_value_ok: "bounds_ok opt \<Longrightarrow> new_option_value env opt s = Some v \<Longrightarrow> value_ok opt v"
  using value_index_bound [of "the (opt_string_values opt)" "the s"] option_number_bounds [of "opt_min opt" "opt_max opt" "the s"]
  by (cases "opt_type opt") (force simp: new_option_value_def value_ok_def bounds_ok_def split: option.splits)+

lemma new_option_value_None: "new_option_value env opt s = None \<longleftrightarrow> s = None"
  by (simp add: new_option_value_def split: option.split)

lemma length_split_tails: "length (split_tails seps c s) \<le> length s + 1"
proof (induction seps c s rule: split_tails.induct)
  case (1 seps collapse s)
  let ?d = "dropWhile (\<lambda>c. c \<notin> set seps) s"
  have d: "length ?d \<le> length s" by (simp add: length_dropWhile_le)
  show ?case
  proof (cases ?d)
    case (Cons c r)
    let ?q = "dropWhile (\<lambda>c. c \<in> set seps) r"
    have q: "length ?q \<le> length r" by (simp add: length_dropWhile_le)
    show ?thesis
      using 1(1) [OF Cons _ refl] 1(2) [OF Cons] d q Cons
      by (subst split_tails.simps) (auto simp: Let_def simp del: dropWhile_eq_Nil_conv)
  qed (simp add: split_tails.simps [of seps collapse s] del: dropWhile_eq_Nil_conv)
qed

lemma length_split_stripped: "length (split_stripped flags seps s) \<le> length s"
proof -
  have "length (dropWhile P (rev (dropWhile P s))) \<le> length s" "length (dropWhile P (rev s)) \<le> length s"
    "length (dropWhile P s) \<le> length s" for P :: "char \<Rightarrow> bool"
    using length_dropWhile_le [of P "rev (dropWhile P s)"] length_dropWhile_le [of P s] length_dropWhile_le [of P "rev s"]
    by simp_all
  then show ?thesis by (simp add: split_stripped_def Let_def)
qed

lemma string_values_split:
  assumes "cstr_ok s"
  shows "\<exists>items n. string_split (Some s) (Some ''|'') None {STRIP_LEFT, STRIP_RIGHT, COLLAPSE_SEPS} 0 = Some (items, n) \<and>
    (\<forall>xs. items = Some xs \<longrightarrow> n = int (length xs) \<and> 0 < n \<and> n \<le> int (length s) + 1)"
proof -
  let ?flags = "{STRIP_LEFT, STRIP_RIGHT, COLLAPSE_SEPS}"
  let ?t = "split_stripped ?flags ''|'' s"
  let ?n = "length (split_tails ''|'' True ?t)"
  have n: "0 < ?n" "?n \<le> length s + 1"
    using split_tails_ne length_split_tails [of "''|''" True ?t] length_split_stripped [of ?flags "''|''" s] by auto
  obtain xs where xs: "string_split_items ''|'' None ?flags ?n (Some ?t) = Some (Some xs)" "length xs = ?n"
    using string_split_items_collapse [of ?flags "''|''" None ?n ?t] by auto
  show ?thesis
    using xs n split_unfold [OF assms, of "''|''" 0 None ?flags] by (cases "?t = []") (simp_all add: Let_def)
qed

lemma new_option_values_ok:
  assumes "case string_values of Some s \<Rightarrow> cstr_ok s \<and> int (length s) < 2 ^ 31 - 2 | None \<Rightarrow> True"
  shows "\<exists>vals n. new_option_values ty string_values = Some (vals, n) \<and>
    (\<forall>xs. vals = Some xs \<longrightarrow> n = int (length xs) \<and> 0 < n \<and> n < 2 ^ 31)"
proof (cases "ty = OPTION_INTEGER \<and> string_values \<noteq> None \<and> string_values \<noteq> Some []")
  case True
  then obtain s where "string_values = Some s" "s \<noteq> []" by auto
  then show ?thesis using string_values_split [of s] assms True by (fastforce simp: new_option_values_def)
next
  case False
  then have "new_option_values ty string_values = Some (None, 0)" unfolding new_option_values_def by (simp only: if_False)
  then show ?thesis by simp
qed

lemma new_option_ok:
  assumes "\<forall>xs. vals = Some xs \<longrightarrow> n = int (length xs) \<and> 0 < n \<and> n < 2 ^ 31"
    and "- (2 ^ 31) \<le> mn" "mn \<le> mx" "mx < 2 ^ 31" "null_allowed \<or> dv \<noteq> None \<and> v \<noteq> None"
  shows "option_ok (new_option env path names ty description (vals, n) (mn, mx) (dv, v) null_allowed change)"
proof -
  obtain mn' mx' where b: "(case ty of OPTION_BOOLEAN \<Rightarrow> (0, 1)
      | OPTION_INTEGER \<Rightarrow> if vals \<noteq> None then (0, if n = 0 then 0 else n - 1) else (mn, mx)
      | OPTION_STRING \<Rightarrow> (mn, mx) | OPTION_COLOR \<Rightarrow> (mn, color_numbers env - 1)) = (mn', mx')" by fastforce
  define opt0 where "opt0 = \<lparr>opt_path = path, opt_name = fst names, opt_parent_name = snd names, opt_type = ty,
    opt_description = description, opt_string_values = vals, opt_min = mn', opt_max = mx',
    opt_default_value = None, opt_value = None, opt_null_value_allowed = null_allowed,
    opt_callback_change = change, opt_loaded = True\<rparr>"
  define opt where "opt = opt0\<lparr>opt_default_value := new_option_value env opt0 dv, opt_value := new_option_value env opt0 v\<rparr>"
  have bo: "bounds_ok opt0"
    using b assms(1-4) by (auto simp: bounds_ok_def opt0_def split: option.splits if_splits)
  have sel: "opt_value opt = new_option_value env opt0 v" "opt_default_value opt = new_option_value env opt0 dv"
    "value_ok opt = value_ok opt0" "bounds_ok opt = bounds_ok opt0" by (simp_all add: opt_def)
  have "opt_null_value_allowed opt = null_allowed" by (simp add: opt_def opt0_def)
  then have "option_ok opt"
    unfolding option_ok_def sel using assms(5) bo new_option_value_ok [OF bo] by (auto simp: new_option_value_None)
  moreover have "new_option env path names ty description (vals, n) (mn, mx) (dv, v) null_allowed change = opt"
    unfolding new_option_def fst_conv snd_conv b prod.case Let_def opt_def opt0_def ..
  ultimately show ?thesis by simp
qed

text \<open>
  Claim C37.  A new option has a value and a default value of its type, the integers inside its bounds, whatever
  strings it is created with and whatever bounds of 32 bits, and they are missing only when this is allowed.
\<close>

theorem config_new_option_typed:
  assumes "case string_values of Some s \<Rightarrow> cstr_ok s \<and> int (length s) < 2 ^ 31 - 2 | None \<Rightarrow> True"
    and "- (2 ^ 31) \<le> mn" "mn \<le> mx" "mx < 2 ^ 31"
  shows "\<exists>r. config_file_new_option env config_file section name type description string_values mn mx default_value value
      null_allowed change = Some r \<and>
    (case r of None \<Rightarrow> True | Some (opt, section', calls) \<Rightarrow> option_ok opt \<and>
      section' = map_option (\<lambda>sec. sec\<lparr>sec_options := config_file_option_insert_in_section opt (sec_options sec)\<rparr>) section)"
proof -
  let ?defaults = "if null_allowed then (default_value, value)
    else (if default_value = None then value else default_value, if value = None then default_value else value)"
  obtain dv v where d: "?defaults = (dv, v)" by fastforce
  show ?thesis
  proof (cases "name = None \<or> option_type_of type = None \<or> \<not> null_allowed \<and> dv = None")
    case True
    then show ?thesis using d by (auto simp: config_file_new_option_def split: option.split)
  next
    case False
    then obtain nm ty where nm: "name = Some nm" "option_type_of type = Some ty" "null_allowed \<or> dv \<noteq> None \<and> v \<noteq> None"
      using d by (auto split: if_splits)
    obtain vals n where vals: "new_option_values ty string_values = Some (vals, n)"
      "\<forall>xs. vals = Some xs \<longrightarrow> n = int (length xs) \<and> 0 < n \<and> n < 2 ^ 31"
      using new_option_values_ok [OF assms(1)] by blast
    let ?path = "case (config_file, section) of (Some f, Some sec) \<Rightarrow> Some (f, sec_name sec) | _ \<Rightarrow> None"
    define opt where "opt = new_option env ?path (option_names nm) ty description (vals, n) (mn, mx) (dv, v) null_allowed change"
    have ok: "option_ok opt" unfolding opt_def by (rule new_option_ok [OF vals(2) assms(2-4) nm(3)])
    have "\<exists>calls. (case ?path of Some p \<Rightarrow> map_option (\<lambda>c. [c]) (config_file_hook_config_exec env p opt) | None \<Rightarrow> Some []) = Some calls"
      using hook_config_ok [OF ok] by (cases ?path) fastforce+
    then obtain calls where calls:
      "(case ?path of Some p \<Rightarrow> map_option (\<lambda>c. [c]) (config_file_hook_config_exec env p opt) | None \<Rightarrow> Some []) = Some calls" by blast
    show ?thesis
      unfolding config_file_new_option_def nm option.case Let_def d vals(1) bind.bind_lunit opt_def [symmetric] calls
      using ok nm(3) by auto
  qed
qed

theorem config_new_option_typed_witness:
  "\<exists>r. config_file_new_option plain_colors (Some ''f'') None (Some ''opt'') ''integer'' None (Some ''a|b'') 0 0 (Some ''b'') None False False = Some r \<and>
    (case r of None \<Rightarrow> True | Some (opt, section', calls) \<Rightarrow> option_ok opt \<and>
      section' = map_option (\<lambda>sec. sec\<lparr>sec_options := config_file_option_insert_in_section opt (sec_options sec)\<rparr>) None)"
  by (rule config_new_option_typed) simp_all

subsection \<open>Setting\<close>

text \<open>The cases where the code does not keep the type: they are shown below.\<close>

definition set_stays :: "color_env \<Rightarrow> config_option \<Rightarrow> cstr \<Rightarrow> bool" where
  "set_stays env opt s \<longleftrightarrow>
     (let old = (case opt_value opt of Some (IntV i) \<Rightarrow> i | _ \<Rightarrow> 0)
      in (opt_type opt = OPTION_INTEGER \<and> opt_string_values opt = None \<longrightarrow>
           (\<forall>n. relative_number (CHR ''+'') s = Some (Some n) \<longrightarrow> opt_min opt \<le> old + n \<and> old + n < 2 ^ 31) \<and>
           (\<forall>n. relative_number (CHR ''-'') s = Some (Some n) \<longrightarrow> - (2 ^ 31) \<le> old - n \<and> old - n \<le> opt_max opt)) \<and>
         (opt_type opt = OPTION_COLOR \<and> opt_value opt = None \<longrightarrow> set_color env 0 s \<noteq> None))"

lemma set_index_bound:
  assumes "0 \<le> mx" "mx < 2 ^ 31 - 1" "0 \<le> old" "old \<le> mx" "mx = int (length xs) - 1" "0 \<le> set_index xs mx old s"
  shows "set_index xs mx old s \<le> mx"
proof -
  let ?n = "mx + 1"
  have n: "0 < ?n" "?n < 2 ^ 31" using assms by auto
  have b: "a smod ?n < ?n \<and> - ?n < a smod ?n" for a using smod_int_range [where a = a and b = ?n] n by auto
  then have "int_of_long (a smod ?n) = a smod ?n" for a
    using n by (intro int_of_long_id) (smt (verit))+
  then show ?thesis
    using b assms(5,6) value_index_bound [of xs s]
    by (auto simp: set_index_def Let_def split: option.splits)
qed

lemma set_number_bounds:
  assumes "mn \<le> mx" "- (2 ^ 31) \<le> mn" "mx < 2 ^ 31" "set_number mn mx old s = Some i"
    and "\<And>n. relative_number (CHR ''+'') s = Some (Some n) \<Longrightarrow> mn \<le> old + n \<and> old + n < 2 ^ 31"
    and "\<And>n. relative_number (CHR ''-'') s = Some (Some n) \<Longrightarrow> - (2 ^ 31) \<le> old - n \<and> old - n \<le> mx"
  shows "mn \<le> i \<and> i \<le> mx"
  using assms int_of_long_id [of "old + the (the (relative_number (CHR ''+'') s))"]
    int_of_long_id [of "old - the (the (relative_number (CHR ''-'') s))"]
  by (fastforce simp: set_number_def Let_def split: option.splits prod.splits if_splits)

lemma set_boolean_bool: "set_boolean old s = Some b \<Longrightarrow> b = 0 \<or> b = 1"
  by (auto simp: set_boolean_def split: if_splits option.splits)

lemma is_changed_iff [simp]: "is_changed b = SET_OK_CHANGED \<longleftrightarrow> b" "is_changed b \<noteq> SET_ERROR"
  by (simp_all add: is_changed_def)

lemma read_simps [simp]: "read_int (Some (IntV i)) = Some i" "read_str (Some (StrV s)) = Some s"
  by (simp_all add: read_int_def read_str_def)

text \<open>The new value, whether it is one, and the code for it.\<close>

lemma set_value_ok:
  assumes "option_ok opt" "set_stays env opt s"
  shows "\<exists>v rc. set_value env opt s = Some (v, rc) \<and> (\<forall>x. v = Some x \<longrightarrow> value_ok opt x) \<and>
    (opt_value opt \<noteq> None \<longrightarrow> v \<noteq> None) \<and> (rc = SET_OK_CHANGED \<longleftrightarrow> v \<noteq> opt_value opt) \<and>
    (rc = SET_ERROR \<longrightarrow> v = opt_value opt)"
proof (cases "opt_type opt")
  case OPTION_BOOLEAN
  then have "opt_value opt = None \<or> opt_value opt = Some (IntV 0) \<or> opt_value opt = Some (IntV 1)"
    using assms(1) by (cases "opt_value opt") (auto simp: option_ok_def value_ok_def)
  then show ?thesis
    using OPTION_BOOLEAN set_boolean_bool [of _ s]
    by (elim disjE) (fastforce simp: set_value_def value_ok_def split: option.splits)+
next
  case OPTION_INTEGER
  have b: "bounds_ok opt" using assms(1) by (simp add: option_ok_def)
  obtain old where old: "opt_value opt = None \<and> old = 0 \<or> opt_value opt = Some (IntV old)"
    "opt_value opt = Some (IntV old) \<longrightarrow> opt_min opt \<le> old \<and> old \<le> opt_max opt"
    using assms(1) OPTION_INTEGER by (cases "opt_value opt") (auto simp: option_ok_def value_ok_def)
  have e: "(if opt_value opt = None then Some 0 else read_int (opt_value opt)) = Some old" using old(1) by auto
  define new where "new = (case opt_string_values opt of
      Some xs \<Rightarrow> (let i = set_index xs (opt_max opt) old s in if i \<ge> 0 then Some i else None)
    | None \<Rightarrow> set_number (opt_min opt) (opt_max opt) old s)"
  have n: "opt_min opt \<le> i \<and> i \<le> opt_max opt" if "new = Some i" for i
  proof (cases "opt_string_values opt")
    case None
    have st: "\<forall>n. relative_number (CHR ''+'') s = Some (Some n) \<longrightarrow> opt_min opt \<le> old + n \<and> old + n < 2 ^ 31"
      "\<forall>n. relative_number (CHR ''-'') s = Some (Some n) \<longrightarrow> - (2 ^ 31) \<le> old - n \<and> old - n \<le> opt_max opt"
      using assms(2) OPTION_INTEGER None old(1) by (auto simp: set_stays_def Let_def)
    show ?thesis
      by (rule set_number_bounds) (use b OPTION_INTEGER None that st in \<open>auto simp: bounds_ok_def new_def\<close>)
  next
    case (Some xs)
    then have m: "opt_min opt = 0" "opt_max opt = int (length xs) - 1" "0 \<le> opt_max opt" "opt_max opt < 2 ^ 31 - 1"
      using b OPTION_INTEGER by (auto simp: bounds_ok_def)
    have o: "0 \<le> old" "old \<le> opt_max opt" using old m by auto
    have i: "i = set_index xs (opt_max opt) old s" "0 \<le> i" using that Some by (auto simp: new_def Let_def split: if_splits)
    show ?thesis using set_index_bound [OF m(3,4) o m(2), of s] i m(1) by simp
  qed
  have "set_value env opt s = Some (case new of Some i \<Rightarrow> (Some (IntV i), is_changed (opt_value opt = None \<or> i \<noteq> old))
      | None \<Rightarrow> (opt_value opt, SET_ERROR))"
    unfolding set_value_def Let_def OPTION_INTEGER config_option_type.case e new_def by simp
  then show ?thesis
    using n old OPTION_INTEGER by (cases new) (auto simp: value_ok_def)
next
  case OPTION_STRING
  then have "opt_value opt = None \<or> (\<exists>t. opt_value opt = Some (StrV t))"
    using assms(1) by (cases "opt_value opt") (auto simp: option_ok_def value_ok_def)
  then show ?thesis using OPTION_STRING by (auto simp: set_value_def value_ok_def)
next
  case OPTION_COLOR
  then have "opt_value opt = None \<or> (\<exists>i. opt_value opt = Some (IntV i))"
    using assms(1) by (cases "opt_value opt") (auto simp: option_ok_def value_ok_def)
  then show ?thesis
  proof (elim disjE exE)
    assume old: "opt_value opt = None"
    then obtain c where "set_color env 0 s = Some c" using assms(2) OPTION_COLOR by (auto simp: set_stays_def Let_def)
    then show ?thesis using OPTION_COLOR old by (simp add: set_value_def value_ok_def)
  next
    fix i assume "opt_value opt = Some (IntV i)"
    then show ?thesis using OPTION_COLOR by (cases "set_color env i s") (simp_all add: set_value_def value_ok_def)
  qed
qed

text \<open>
  Claim C38.  Setting, resetting and clearing an option keep a value of its type, an integer inside its bounds, never
  read a value that is not there, and give the code \<open>CHANGED\<close> exactly when the value changes; with an
  error the option is left as it was.  Two cases are excepted (\<open>set_stays\<close>), and \<open>config_option_set_out_of_bounds\<close> shows
  them: an increment of a number below the minimum or a decrement above the maximum (or beyond an \<open>int\<close>), and a string that
  is not a color for a color without value.
\<close>

theorem config_option_set_typed:
  assumes "option_ok opt" "case value of Some s \<Rightarrow> set_stays env opt s | None \<Rightarrow> True"
    and "r = config_file_option_set env check opt value run_callback \<or> r = config_file_option_reset env opt run_callback \<or>
      r = config_file_option_set_null env opt run_callback"
  shows "\<exists>opt' rc calls. r = Some (opt', rc, calls) \<and> option_ok opt' \<and>
    (rc = SET_OK_CHANGED \<longleftrightarrow> opt' \<noteq> opt) \<and> (rc = SET_ERROR \<longrightarrow> opt' = opt) \<and> opt' = opt\<lparr>opt_value := opt_value opt'\<rparr>"
proof -
  have same: "\<exists>calls. option_changed env run_callback opt rc = Some (opt, rc, calls)" for rc
    by (rule option_changed_ok [OF assms(1)])
  have new: "\<exists>opt' rc' calls. option_changed env run_callback (opt\<lparr>opt_value := v\<rparr>) rc = Some (opt', rc', calls) \<and> option_ok opt' \<and>
      (rc' = SET_OK_CHANGED \<longleftrightarrow> opt' \<noteq> opt) \<and> (rc' = SET_ERROR \<longrightarrow> opt' = opt) \<and> opt' = opt\<lparr>opt_value := opt_value opt'\<rparr>"
    if "\<forall>x. v = Some x \<longrightarrow> value_ok opt x" "v = None \<longrightarrow> opt_value opt = None \<or> opt_null_value_allowed opt"
      "rc = SET_OK_CHANGED \<longleftrightarrow> v \<noteq> opt_value opt" "rc = SET_ERROR \<longrightarrow> v = opt_value opt" for v rc
  proof -
    have "option_ok (opt\<lparr>opt_value := v\<rparr>)"
      using assms(1) that(1,2) unfolding option_ok_def value_ok_update by (cases v) auto
    then obtain calls where "option_changed env run_callback (opt\<lparr>opt_value := v\<rparr>) rc = Some (opt\<lparr>opt_value := v\<rparr>, rc, calls)"
      using option_changed_ok by blast
    moreover have "opt\<lparr>opt_value := v\<rparr> = opt \<longleftrightarrow> v = opt_value opt" by (cases opt) auto
    ultimately show ?thesis
      using that(3,4) \<open>option_ok (opt\<lparr>opt_value := v\<rparr>)\<close>
      by (intro exI [of _ "opt\<lparr>opt_value := v\<rparr>"] exI [of _ rc] exI [of _ calls]) simp
  qed
  have null: "opt_null_value_allowed opt \<Longrightarrow> opt_value opt \<noteq> None \<Longrightarrow> \<exists>opt' rc' calls.
      option_changed env run_callback (opt\<lparr>opt_value := None\<rparr>) SET_OK_CHANGED = Some (opt', rc', calls) \<and> option_ok opt' \<and>
      (rc' = SET_OK_CHANGED \<longleftrightarrow> opt' \<noteq> opt) \<and> (rc' = SET_ERROR \<longrightarrow> opt' = opt) \<and> opt' = opt\<lparr>opt_value := opt_value opt'\<rparr>"
    by (rule new) auto
  consider (refused) "r = Some (opt, SET_ERROR, [])"
    | (valued) s where "value = Some s" "r = Option.bind (set_value env opt s) (\<lambda>(v, rc). option_changed env run_callback (opt\<lparr>opt_value := v\<rparr>) rc)"
    | (cleared) "opt_null_value_allowed opt" "opt_value opt \<noteq> None" "r = option_changed env run_callback (opt\<lparr>opt_value := None\<rparr>) SET_OK_CHANGED"
    | (unchanged) rc where "rc \<noteq> SET_OK_CHANGED" "r = option_changed env run_callback opt rc"
    | (redone) d where "opt_default_value opt = Some d" "r = Option.bind (reset_value opt d) (\<lambda>(v, rc). option_changed env run_callback (opt\<lparr>opt_value := v\<rparr>) rc)"
    using assms(3)
    by (auto simp: config_file_option_set_def config_file_option_reset_def config_file_option_set_null_def split: option.splits if_splits)
  then show ?thesis
  proof cases
    case (valued s)
    have "set_stays env opt s" using assms(2) valued(1) by simp
    from set_value_ok [OF assms(1) this] obtain v rc where v: "set_value env opt s = Some (v, rc)"
      "\<forall>x. v = Some x \<longrightarrow> value_ok opt x" "opt_value opt \<noteq> None \<longrightarrow> v \<noteq> None"
      "rc = SET_OK_CHANGED \<longleftrightarrow> v \<noteq> opt_value opt" "rc = SET_ERROR \<longrightarrow> v = opt_value opt" by blast
    have "v = None \<longrightarrow> opt_value opt = None \<or> opt_null_value_allowed opt" using v(3) by auto
    from new [OF v(2) this v(4,5)] show ?thesis unfolding valued(2) v(1) by simp
  next
    case (redone d)
    have d: "value_ok opt d" using assms(1) redone(1) by (simp add: option_ok_def)
    have "\<forall>v. opt_value opt = Some v \<longrightarrow> value_ok opt v" using assms(1) by (simp add: option_ok_def)
    then have "reset_value opt d = Some (Some d, is_changed (Some d \<noteq> opt_value opt))"
      using d by (cases "opt_type opt"; cases "opt_value opt") (auto simp: reset_value_def value_ok_def is_changed_def split: if_splits)
    moreover have "\<forall>x. Some d = Some x \<longrightarrow> value_ok opt x" using d by simp
    ultimately show ?thesis using new [of "Some d" "is_changed (Some d \<noteq> opt_value opt)"] unfolding redone(2) by simp
  next
    case (unchanged rc)
    then show ?thesis using option_changed_ok [OF assms(1), of env run_callback rc] assms(1) by auto
  qed (use assms(1) null in auto)
qed

theorem config_option_set_typed_witness:
  "\<exists>opt' rc calls. config_file_option_set plain_colors None
      \<lparr>opt_path = None, opt_name = ''a'', opt_parent_name = None, opt_type = OPTION_STRING, opt_description = None,
       opt_string_values = None, opt_min = 0, opt_max = 0, opt_default_value = None, opt_value = Some (StrV ''b''),
       opt_null_value_allowed = True, opt_callback_change = False, opt_loaded = True\<rparr> (Some ''c'') False = Some (opt', rc, calls) \<and>
    option_ok opt'"
proof -
  let ?opt = "\<lparr>opt_path = None, opt_name = ''a'', opt_parent_name = None, opt_type = OPTION_STRING, opt_description = None,
       opt_string_values = None, opt_min = 0, opt_max = 0, opt_default_value = None, opt_value = Some (StrV ''b''),
       opt_null_value_allowed = True, opt_callback_change = False, opt_loaded = True\<rparr>"
  have "option_ok ?opt" by (simp add: option_ok_def bounds_ok_def value_ok_def)
  moreover have "case Some ''c'' of Some s \<Rightarrow> set_stays plain_colors ?opt s | None \<Rightarrow> True" by (simp add: set_stays_def)
  ultimately show ?thesis using config_option_set_typed [of ?opt plain_colors "Some ''c''" _ None False] by blast
qed

lemma set_out_of_bounds:
  assumes "opt_type opt = OPTION_INTEGER" "opt_string_values opt = None" "opt_value opt = Some (IntV old)" "opt_path opt = None"
    and "- (2 ^ 31) \<le> i" "i < 2 ^ 31" "- (2 ^ 31) \<le> old" "old < 2 ^ 31"
  shows "i \<le> opt_max opt \<Longrightarrow> i \<noteq> old \<Longrightarrow>
      \<exists>calls. config_file_option_set env None opt (Some (''++'' @ string_of_int (i - old))) run_callback =
        Some (opt\<lparr>opt_value := Some (IntV i)\<rparr>, SET_OK_CHANGED, calls)"
    and "opt_min opt \<le> i \<Longrightarrow> i \<noteq> old \<Longrightarrow>
      \<exists>calls. config_file_option_set env None opt (Some (''--'' @ string_of_int (old - i))) run_callback =
        Some (opt\<lparr>opt_value := Some (IntV i)\<rparr>, SET_OK_CHANGED, calls)"
    and "opt_type opt2 = OPTION_COLOR \<Longrightarrow> opt_value opt2 = None \<Longrightarrow> set_color env 0 s = None \<Longrightarrow> opt_path opt2 = Some path \<Longrightarrow>
      config_file_option_set env None opt2 (Some s) run_callback = None"
proof -
  have n: "strtol10 (string_of_int k) = (k, [])" if "\<bar>k\<bar> < 2 ^ 33" for k
    using strtol10_string_of_int [of k "[]"] that by (simp add: long_min_def long_max_def)
  have "\<bar>i - old\<bar> < 2 ^ 33" "\<bar>old - i\<bar> < 2 ^ 33" using assms(5-8) by auto
  then have r: "relative_number (CHR ''+'') (''++'' @ string_of_int (i - old)) = Some (Some (i - old))"
    "relative_number (CHR ''+'') (''--'' @ string_of_int (old - i)) = None"
    "relative_number (CHR ''-'') (''--'' @ string_of_int (old - i)) = Some (Some (old - i))"
    using n [of "i - old"] n [of "old - i"] by (simp_all add: relative_number_def)
  have il: "int_of_long i = i" by (rule int_of_long_id [OF assms(5,6)])
  { assume "i \<le> opt_max opt" "i \<noteq> old"
    then have "set_value env opt (''++'' @ string_of_int (i - old)) = Some (Some (IntV i), SET_OK_CHANGED)"
      using assms(1-3) r il by (simp add: set_value_def set_number_def is_changed_def)
    then show "\<exists>calls. config_file_option_set env None opt (Some (''++'' @ string_of_int (i - old))) run_callback =
        Some (opt\<lparr>opt_value := Some (IntV i)\<rparr>, SET_OK_CHANGED, calls)"
      using assms(4) by (simp add: config_file_option_set_def option_changed_def) }
  { assume "opt_min opt \<le> i" "i \<noteq> old"
    then have "set_value env opt (''--'' @ string_of_int (old - i)) = Some (Some (IntV i), SET_OK_CHANGED)"
      using assms(1-3) r il by (simp add: set_value_def set_number_def is_changed_def)
    then show "\<exists>calls. config_file_option_set env None opt (Some (''--'' @ string_of_int (old - i))) run_callback =
        Some (opt\<lparr>opt_value := Some (IntV i)\<rparr>, SET_OK_CHANGED, calls)"
      using assms(4) by (simp add: config_file_option_set_def option_changed_def) }
  { assume "opt_type opt2 = OPTION_COLOR" "opt_value opt2 = None" "set_color env 0 s = None" "opt_path opt2 = Some path"
    then show "config_file_option_set env None opt2 (Some s) run_callback = None"
      by (simp add: config_file_option_set_def set_value_def option_changed_def config_file_hook_config_exec_def
        value_string_def read_int_def) }
qed

text \<open>
  Claim C39.  An increment is only compared with the maximum and a decrement with the minimum: with a
  negative number they leave the bounds, and a color that cannot be assigned to an option without value
  leaves memory that was never written.
\<close>

theorem config_option_set_out_of_bounds:
  assumes "opt_type opt = OPTION_INTEGER" "opt_string_values opt = None" "opt_value opt = Some (IntV old)" "opt_path opt = None"
    and "- (2 ^ 31) \<le> i" "i < 2 ^ 31" "- (2 ^ 31) \<le> old" "old < 2 ^ 31"
  shows "(i \<le> opt_max opt \<and> i \<noteq> old \<longrightarrow>
      (\<exists>calls. config_file_option_set env None opt (Some (''++'' @ string_of_int (i - old))) run_callback =
        Some (opt\<lparr>opt_value := Some (IntV i)\<rparr>, SET_OK_CHANGED, calls))) \<and>
    (opt_min opt \<le> i \<and> i \<noteq> old \<longrightarrow>
      (\<exists>calls. config_file_option_set env None opt (Some (''--'' @ string_of_int (old - i))) run_callback =
        Some (opt\<lparr>opt_value := Some (IntV i)\<rparr>, SET_OK_CHANGED, calls))) \<and>
    (opt_type opt2 = OPTION_COLOR \<and> opt_value opt2 = None \<and> set_color env 0 s = None \<and> opt_path opt2 = Some path \<longrightarrow>
      config_file_option_set env None opt2 (Some s) run_callback = None)"
  using set_out_of_bounds [OF assms, where env = env and run_callback = run_callback] by blast

theorem config_option_set_out_of_bounds_witness:
  "\<exists>calls. config_file_option_set plain_colors None
      \<lparr>opt_path = None, opt_name = ''a'', opt_parent_name = None, opt_type = OPTION_INTEGER, opt_description = None,
       opt_string_values = None, opt_min = 0, opt_max = 10, opt_default_value = Some (IntV 5), opt_value = Some (IntV 5),
       opt_null_value_allowed = False, opt_callback_change = False, opt_loaded = True\<rparr> (Some (''++'' @ string_of_int (- 10 - 5))) False =
    Some (\<lparr>opt_path = None, opt_name = ''a'', opt_parent_name = None, opt_type = OPTION_INTEGER, opt_description = None,
       opt_string_values = None, opt_min = 0, opt_max = 10, opt_default_value = Some (IntV 5), opt_value = Some (IntV (- 10)),
       opt_null_value_allowed = False, opt_callback_change = False, opt_loaded = True\<rparr>, SET_OK_CHANGED, calls)"
  using config_option_set_out_of_bounds [of "\<lparr>opt_path = None, opt_name = ''a'', opt_parent_name = None, opt_type = OPTION_INTEGER,
       opt_description = None, opt_string_values = None, opt_min = 0, opt_max = 10, opt_default_value = Some (IntV 5),
       opt_value = Some (IntV 5), opt_null_value_allowed = False, opt_callback_change = False, opt_loaded = True\<rparr>" 5 "- 10"]
  by simp

end
