(* ===== verification/Config_File.thy ===== *)
theory Config_File
  imports Config_Types
begin

text \<open>
  Configuration files (src/core/wee-config-file.c): searching files, sections and options
  (config_file_search and its relatives), writing a file (config_file_write_internal), reading
  it (config_file_read_internal) and reading it again (config_file_reload), setting an option by
  its full name and renaming an option.  The content of a file is an argument or the result;
  sections without callbacks that write them are modelled, and the callbacks that read a section
  or create an option are recorded in the list of calls.  The theorems show that what is written
  is read back: first a line, then an option, then a file.
\<close>

subsection \<open>Searching\<close>

definition strcase_eq :: "cstr \<Rightarrow> cstr \<Rightarrow> bool" where
  "strcase_eq s t \<longleftrightarrow> string_strcasecmp (Some s) (Some t) = 0"

text \<open>The index of the first element with a name.\<close>

fun find_index :: "('a \<Rightarrow> bool) \<Rightarrow> 'a list \<Rightarrow> nat option" where
  "find_index P [] = None"
| "find_index P (x # xs) = (if P x then Some 0 else map_option Suc (find_index P xs))"

definition config_file_search :: "config_file list \<Rightarrow> cstr option \<Rightarrow> nat option" where
  "config_file_search files name =
     (case name of None \<Rightarrow> None | Some n \<Rightarrow> find_index (\<lambda>f. string_strcasecmp (Some (cfg_name f)) (Some n) = 0) files)"

definition config_file_search_section :: "config_section list \<Rightarrow> cstr option \<Rightarrow> nat option" where
  "config_file_search_section sections section_name =
     (case section_name of None \<Rightarrow> None | Some n \<Rightarrow> find_index (\<lambda>sec. strcase_eq (sec_name sec) n) sections)"

text \<open>An option of a section, or of the first section that has it when no section is given.\<close>

fun search_sections :: "config_section list \<Rightarrow> cstr \<Rightarrow> (nat \<times> nat) option" where
  "search_sections [] name = None"
| "search_sections (sec # sections) name =
     (case find_index (\<lambda>opt. strcase_eq (opt_name opt) name) (sec_options sec) of
        Some k \<Rightarrow> Some (0, k)
      | None \<Rightarrow> map_option (\<lambda>(n, k). (Suc n, k)) (search_sections sections name))"

definition config_file_search_option :: "config_section list \<Rightarrow> nat option \<Rightarrow> cstr \<Rightarrow> (nat \<times> nat) option" where
  "config_file_search_option sections sec option_name =
     (case sec of
        Some n \<Rightarrow> map_option (Pair n) (find_index (\<lambda>opt. strcase_eq (opt_name opt) option_name) (sec_options (sections ! n)))
      | None \<Rightarrow> search_sections sections option_name)"

text \<open>The file, section, option and name of the option for a full name; the indexes are those of the lists.\<close>

definition config_file_search_with_string ::
  "config_file list \<Rightarrow> cstr \<Rightarrow> nat option \<times> nat option \<times> nat option \<times> cstr option" where
  "config_file_search_with_string files option_name =
     (case strchr option_name (CHR ''.'') of
        None \<Rightarrow> (None, None, None, None)
      | Some pos_section \<Rightarrow>
          (case strchr (tl pos_section) (CHR ''.'') of
             None \<Rightarrow> (None, None, None, None)
           | Some pos_option \<Rightarrow>
               (let file_name = take (length option_name - length pos_section) option_name;
                    section_name = take (length (tl pos_section) - length pos_option) (tl pos_section);
                    name = tl pos_option
                in case config_file_search files (Some file_name) of
                     None \<Rightarrow> (None, None, None, Some name)
                   | Some f \<Rightarrow>
                       (case config_file_search_section (cfg_sections (files ! f)) (Some section_name) of
                          None \<Rightarrow> (Some f, None, None, Some name)
                        | Some n \<Rightarrow>
                            (Some f, Some n,
                             map_option snd (config_file_search_option (cfg_sections (files ! f)) (Some n) name), Some name)))))"

subsection \<open>Charsets\<close>

text \<open>
  The charset of the terminal and the conversions of \<open>string_iconv\<close>, which calls \<open>iconv\<close> of the C library: from UTF-8 to a
  charset or from a charset to UTF-8.
\<close>

record charset_env =
  local_utf8 :: bool
  local_charset :: cstr
  charset_iconv :: "bool \<Rightarrow> cstr \<Rightarrow> cstr \<Rightarrow> cstr"

definition charset_or_local :: "charset_env \<Rightarrow> cstr option \<Rightarrow> cstr" where
  "charset_or_local cs charset = (case charset of None \<Rightarrow> local_charset cs | Some c \<Rightarrow> if c = [] then local_charset cs else c)"

definition string_iconv_to_internal :: "charset_env \<Rightarrow> cstr option \<Rightarrow> cstr \<Rightarrow> cstr" where
  "string_iconv_to_internal cs charset string =
     (if local_utf8 cs \<and> (charset = None \<or> charset = Some []) then string
      else if utf8_has_8bits (Some string) \<and> fst (utf8_is_valid (Some string) (- 1)) then string
      else utf8_normalize (charset_iconv cs False (charset_or_local cs charset) string) (CHR ''?''))"

definition string_iconv_from_internal :: "charset_env \<Rightarrow> cstr option \<Rightarrow> cstr \<Rightarrow> cstr" where
  "string_iconv_from_internal cs charset string =
     (if local_utf8 cs \<and> (charset = None \<or> charset = Some []) then string
      else charset_iconv cs True (charset_or_local cs charset) (utf8_normalize string (CHR ''?'')))"

text \<open>What is written to the file for a text that is already formatted.\<close>

definition string_fprintf :: "charset_env \<Rightarrow> cstr \<Rightarrow> cstr" where
  "string_fprintf cs data = string_iconv_from_internal cs None data"

subsection \<open>Writing\<close>

definition config_file_option_escape :: "cstr option \<Rightarrow> cstr" where
  "config_file_option_escape name =
     (case name of
        None \<Rightarrow> [CHR 0x5C]
      | Some n \<Rightarrow> if bat n 0 = byte (CHR ''#'') \<or> bat n 0 = byte (CHR ''['') \<or> bat n 0 = 0x5C then [CHR 0x5C] else [])"

abbreviation LF :: char where "LF \<equiv> CHR 0x0A"

text \<open>A line for an option; \<open>None\<close> for an invalid access, or for \<open>NULL\<close> as the string.\<close>

definition config_option_line :: "color_env \<Rightarrow> config_option \<Rightarrow> cstr option" where
  "config_option_line env opt =
     (let name = config_file_option_escape (Some (opt_name opt)) @ opt_name opt
      in case opt_value opt of
           None \<Rightarrow> Some (name @ [LF])
         | Some v \<Rightarrow> do {
             s \<leftarrow> value_string env opt (Some v);
             s \<leftarrow> s;
             let s = (if opt_type opt = OPTION_STRING then CHR 0x22 # s @ [CHR 0x22] else s);
             Some (name @ '' = '' @ s @ [LF]) })"

definition config_file_write_option :: "charset_env \<Rightarrow> color_env \<Rightarrow> config_option \<Rightarrow> cstr option" where
  "config_file_write_option cs env opt = map_option (string_fprintf cs) (config_option_line env opt)"

text \<open>A line with a value that is not empty, or the name of a section; the value is formatted.\<close>

definition config_file_write_line :: "charset_env \<Rightarrow> cstr \<Rightarrow> cstr option \<Rightarrow> cstr" where
  "config_file_write_line cs option_name value =
     string_fprintf cs (case value of
        Some v \<Rightarrow>
          if v \<noteq> [] then config_file_option_escape (Some option_name) @ option_name @ '' = '' @ v @ [LF]
          else LF # ''['' @ option_name @ '']'' @ [LF]
      | None \<Rightarrow> LF # ''['' @ option_name @ '']'' @ [LF])"

fun write_options :: "charset_env \<Rightarrow> color_env \<Rightarrow> config_option list \<Rightarrow> cstr option" where
  "write_options cs env [] = Some []"
| "write_options cs env (opt # options) = do {
     line \<leftarrow> config_file_write_option cs env opt;
     rest \<leftarrow> write_options cs env options;
     Some (line @ rest) }"

text \<open>
  A section: \<open>callback\<close> gives what the function of the section writes, \<open>None\<close> when it returns an error.
\<close>

definition config_file_write_section ::
  "charset_env \<Rightarrow> color_env \<Rightarrow> (config_section \<Rightarrow> cstr option) \<Rightarrow> bool \<Rightarrow> config_section \<Rightarrow> cstr option option" where
  "config_file_write_section cs env callback default_options sec =
     (if default_options \<and> sec_callback_write_default sec then Some (callback sec)
      else if \<not> default_options \<and> sec_callback_write sec then Some (callback sec)
      else map_option (\<lambda>options. Some (string_fprintf cs (LF # ''['' @ sec_name sec @ '']'' @ [LF]) @ options))
             (write_options cs env (sec_options sec)))"

text \<open>The first error ends the writing.\<close>

fun config_file_write_sections ::
  "charset_env \<Rightarrow> color_env \<Rightarrow> (config_section \<Rightarrow> cstr option) \<Rightarrow> bool \<Rightarrow> config_section list \<Rightarrow> cstr option option" where
  "config_file_write_sections cs env callback default_options [] = Some (Some [])"
| "config_file_write_sections cs env callback default_options (sec # sections) = do {
     section_text \<leftarrow> config_file_write_section cs env callback default_options sec;
     case section_text of
       None \<Rightarrow> Some None
     | Some t \<Rightarrow> map_option (map_option (\<lambda>rest. t @ rest)) (config_file_write_sections cs env callback default_options sections) }"

definition config_file_header :: "cstr \<Rightarrow> cstr \<Rightarrow> cstr" where
  "config_file_header version filename =
     ''#'' @ [LF] @ ''# '' @ version @ '' -- '' @ filename @ [LF] @ ''#'' @ [LF] @
     ''# WARNING: It is NOT recommended to edit this file by hand,'' @ [LF] @
     ''# especially if WhoreIRC is running.'' @ [LF] @ ''#'' @ [LF] @
     ''# Use /set or similar command to change settings in WhoreIRC.'' @ [LF] @ ''#'' @ [LF] @
     ''# For more info, see: https://weechat.org/doc/quickstart'' @ [LF] @ ''#'' @ [LF]"

text \<open>The content of the file, or the inner \<open>None\<close> when the file is left as it was, after an error.\<close>

definition config_file_write_internal ::
  "charset_env \<Rightarrow> color_env \<Rightarrow> (config_section \<Rightarrow> cstr option) \<Rightarrow> bool \<Rightarrow> cstr \<Rightarrow> cstr \<Rightarrow> config_file \<Rightarrow> cstr option option" where
  "config_file_write_internal cs env callback default_options version filename cfg =
     map_option (map_option (\<lambda>s. string_fprintf cs (config_file_header version filename) @ s))
       (config_file_write_sections cs env callback default_options (cfg_sections cfg))"

subsection \<open>Reading\<close>

text \<open>The lines that \<open>fgets\<close> reads of a file: with their end of line, and at most \<open>n\<close> bytes.\<close>

function fgets_lines :: "nat \<Rightarrow> cstr \<Rightarrow> cstr list" where
  "fgets_lines n s =
     (if s = [] \<or> n = 0 then []
      else let line = takeWhile (\<lambda>c. c \<noteq> LF) s;
               k = min n (if length line < length s then length line + 1 else length line)
           in take k s # fgets_lines n (drop k s))"
  by pat_completeness auto
termination
proof (relation "measure (\<lambda>(n, s). length s)", goal_cases)
  case (2 n s line k)
  then have "0 < k" by (cases s) auto
  then show ?case using 2(1) by (simp add: Let_def)
qed simp

declare fgets_lines.simps [simp del]

datatype config_line = Line_Ignored | Line_Section cstr | Line_Invalid | Line_Option cstr "cstr option"

text \<open>Spaces at the end; the first char stays.\<close>

definition strip_end :: "cstr \<Rightarrow> cstr" where
  "strip_end s = (case s of [] \<Rightarrow> [] | c # t \<Rightarrow> c # rev (dropWhile (\<lambda>d. d = CHR '' '') (rev t)))"

text \<open>The value after \<open>=\<close>, without its quotes.\<close>

definition config_line_value :: "cstr \<Rightarrow> cstr option" where
  "config_line_value p =
     (let pos = dropWhile (\<lambda>c. c = CHR '' '') p
      in if pos = [] \<or> strcase_eq pos ''null'' then None
         else if length pos > 1 then
           (let pos = strip_end pos
            in if hd pos = last pos \<and> (hd pos = CHR 0x27 \<or> hd pos = CHR 0x22) then Some (butlast (tl pos)) else Some pos)
         else Some pos)"

definition config_line_of :: "cstr \<Rightarrow> config_line" where
  "config_line_of line =
     (let ptr_line = dropWhile (\<lambda>c. c = CHR '' '') line
      in if bat ptr_line 0 = byte (CHR ''#'') \<or> bat ptr_line 0 = 0x0D \<or> bat ptr_line 0 = 0x0A then Line_Ignored
         else if bat ptr_line 0 = byte (CHR ''['') \<and> CHR ''='' \<notin> set ptr_line then
           (if CHR '']'' \<notin> set line then Line_Invalid
            else Line_Section (takeWhile (\<lambda>c. c \<noteq> CHR '']'') (tl ptr_line)))
         else
           (let line = takeWhile (\<lambda>c. c \<noteq> CHR 0x0A) (takeWhile (\<lambda>c. c \<noteq> CHR 0x0D) line);
                (name, val) =
                  (case strstr line '' ='' of
                     Some pos \<Rightarrow> (strip_end (take (length line - length pos) line), config_line_value (drop 2 pos))
                   | None \<Rightarrow> (line, None));
                name = (if bat name 0 = 0x5C then tl name else name)
            in Line_Option name val))"

text \<open>The state while a file is read: the sections, the current one, and the calls.\<close>

definition update_option :: "config_section list \<Rightarrow> nat \<times> nat \<Rightarrow> config_option \<Rightarrow> config_section list" where
  "update_option sections pos opt =
     sections[fst pos := (sections ! fst pos)\<lparr>sec_options := (sec_options (sections ! fst pos))[snd pos := opt]\<rparr>]"

type_synonym read_state = "config_section list \<times> nat option \<times> config_call list"

definition config_read_option ::
  "color_env \<Rightarrow> (config_option \<Rightarrow> (cstr option \<Rightarrow> bool) option) \<Rightarrow> cstr \<Rightarrow> cstr option \<Rightarrow> read_state \<Rightarrow> read_state option" where
  "config_read_option env check name val st =
     (case st of (sections, cur, calls) \<Rightarrow>
        (case cur of
           Some n \<Rightarrow>
             if sec_callback_read (sections ! n)
             then Some (sections, cur, calls @ [Call_Read (sec_name (sections ! n)) name val])
             else (case config_file_search_option sections cur name of
                Some pos \<Rightarrow> do {
                  let opt = sec_options (sections ! fst pos) ! snd pos;
                  (opt, rc, new_calls) \<leftarrow> config_file_option_set env (check opt) opt val True;
                  Some (update_option sections pos (opt\<lparr>opt_loaded := True\<rparr>), cur, calls @ new_calls) }
              | None \<Rightarrow>
                  if sec_callback_create_option (sections ! n)
                  then Some (sections, cur, calls @ [Call_Create_Option (sec_name (sections ! n)) name val])
                  else Some (sections, cur, calls))
         | None \<Rightarrow>
             (case config_file_search_option sections None name of
                Some pos \<Rightarrow> do {
                  let opt = sec_options (sections ! fst pos) ! snd pos;
                  (opt, rc, new_calls) \<leftarrow> config_file_option_set env (check opt) opt val True;
                  Some (update_option sections pos (opt\<lparr>opt_loaded := True\<rparr>), cur, calls @ new_calls) }
              | None \<Rightarrow> Some (sections, cur, calls))))"

definition config_read_line ::
  "color_env \<Rightarrow> (config_option \<Rightarrow> (cstr option \<Rightarrow> bool) option) \<Rightarrow> cstr \<Rightarrow> read_state \<Rightarrow> read_state option" where
  "config_read_line env check line st =
     (case config_line_of line of
        Line_Ignored \<Rightarrow> Some st
      | Line_Invalid \<Rightarrow> Some st
      | Line_Section name \<Rightarrow> (case st of (sections, cur, calls) \<Rightarrow> Some (sections, config_file_search_section sections (Some name), calls))
      | Line_Option name val \<Rightarrow> config_read_option env check name val st)"

fun config_read_lines ::
  "color_env \<Rightarrow> (config_option \<Rightarrow> (cstr option \<Rightarrow> bool) option) \<Rightarrow> cstr list \<Rightarrow> read_state \<Rightarrow> read_state option" where
  "config_read_lines env check [] st = Some st"
| "config_read_lines env check (line # lines) st = do {
     st \<leftarrow> config_read_line env check line st;
     config_read_lines env check lines st }"

text \<open>
  The buffer for a line has 16384 bytes, and \<open>fgets\<close> is given one byte less; the converted line is
  written back to the buffer, where its end may be lost.
\<close>

definition config_file_lines :: "charset_env \<Rightarrow> cstr \<Rightarrow> cstr list" where
  "config_file_lines cs content = map (\<lambda>l. take 16383 (string_iconv_to_internal cs None l)) (fgets_lines 16382 content)"

definition config_file_read_internal ::
  "charset_env \<Rightarrow> color_env \<Rightarrow> (config_option \<Rightarrow> (cstr option \<Rightarrow> bool) option) \<Rightarrow> cstr \<Rightarrow> config_file \<Rightarrow>
   (config_file \<times> config_call list) option" where
  "config_file_read_internal cs env check content cfg = do {
     (sections, cur, calls) \<leftarrow> config_read_lines env check (config_file_lines cs content) (cfg_sections cfg, None, []);
     Some (cfg\<lparr>cfg_sections := sections\<rparr>, calls) }"

text \<open>Reading again: the options that the file does not have are reset.\<close>

definition clear_loaded :: "config_section \<Rightarrow> config_section" where
  "clear_loaded sec =
     (if sec_callback_read sec then sec
      else sec\<lparr>sec_options := map (\<lambda>opt. opt\<lparr>opt_loaded := False\<rparr>) (sec_options sec)\<rparr>)"

fun reset_options :: "color_env \<Rightarrow> config_option list \<Rightarrow> (config_option list \<times> config_call list) option" where
  "reset_options env [] = Some ([], [])"
| "reset_options env (opt # options) = do {
     (opt, calls) \<leftarrow> (if opt_loaded opt then Some (opt, [])
                       else do { (opt, rc, calls) \<leftarrow> config_file_option_reset env opt True; Some (opt, calls) });
     (options, rest) \<leftarrow> reset_options env options;
     Some (opt # options, calls @ rest) }"

fun reset_sections :: "color_env \<Rightarrow> config_section list \<Rightarrow> (config_section list \<times> config_call list) option" where
  "reset_sections env [] = Some ([], [])"
| "reset_sections env (sec # sections) = do {
     (options, calls) \<leftarrow> (if sec_callback_read sec then Some (sec_options sec, []) else reset_options env (sec_options sec));
     (sections, rest) \<leftarrow> reset_sections env sections;
     Some (sec\<lparr>sec_options := options\<rparr> # sections, calls @ rest) }"

definition config_file_reload ::
  "charset_env \<Rightarrow> color_env \<Rightarrow> (config_option \<Rightarrow> (cstr option \<Rightarrow> bool) option) \<Rightarrow> cstr \<Rightarrow> config_file \<Rightarrow> (config_file \<times> config_call list) option" where
  "config_file_reload cs env check content cfg = do {
     (cfg, calls) \<leftarrow> config_file_read_internal cs env check content (cfg\<lparr>cfg_sections := map clear_loaded (cfg_sections cfg)\<rparr>);
     (sections, more) \<leftarrow> reset_sections env (cfg_sections cfg);
     Some (cfg\<lparr>cfg_sections := sections\<rparr>, calls @ more) }"

subsection \<open>Options by their full names\<close>

text \<open>The code of the function that creates an option is an argument.\<close>

definition config_file_option_set_with_string ::
  "color_env \<Rightarrow> (config_option \<Rightarrow> (cstr option \<Rightarrow> bool) option) \<Rightarrow> config_set_rc \<Rightarrow> config_file list \<Rightarrow> cstr \<Rightarrow> cstr option \<Rightarrow>
   (config_file list \<times> config_set_rc \<times> config_call list) option" where
  "config_file_option_set_with_string env check create_rc files option_name val =
     (case config_file_search_with_string files option_name of
        (Some f, Some n, Some k, _) \<Rightarrow> do {
          let sections = cfg_sections (files ! f);
          let opt = sec_options (sections ! n) ! k;
          (opt, rc, calls) \<leftarrow> (if val = None then config_file_option_set_null env opt True
                                else config_file_option_set env (check opt) opt val True);
          Some (files[f := (files ! f)\<lparr>cfg_sections := update_option sections (n, k) opt\<rparr>], rc, calls) }
      | (Some f, Some n, None, Some name) \<Rightarrow>
          (let sec = cfg_sections (files ! f) ! n
           in if sec_user_can_add_options sec \<and> sec_callback_create_option sec
              then Some (files, create_rc, [Call_Create_Option (sec_name sec) name val])
              else Some (files, SET_OPTION_NOT_FOUND, []))
      | _ \<Rightarrow> Some (files, SET_OPTION_NOT_FOUND, []))"

text \<open>The names of the parents are changed in all options.\<close>

definition rename_parents :: "cstr \<Rightarrow> cstr \<Rightarrow> config_file list \<Rightarrow> config_file list" where
  "rename_parents old new = map (\<lambda>f. f\<lparr>cfg_sections := map (\<lambda>sec. sec\<lparr>sec_options := map (\<lambda>opt.
     if opt_parent_name opt = Some old then opt\<lparr>opt_parent_name := Some new\<rparr> else opt) (sec_options sec)\<rparr>) (cfg_sections f)\<rparr>)"

definition config_file_option_rename ::
  "color_env \<Rightarrow> config_file list \<Rightarrow> nat \<Rightarrow> nat \<Rightarrow> nat \<Rightarrow> cstr option \<Rightarrow> (config_file list \<times> config_call list) option" where
  "config_file_option_rename env files f n k new_name =
     (case new_name of
        None \<Rightarrow> Some (files, [])
      | Some name \<Rightarrow>
          (let sections = cfg_sections (files ! f);
               sec = sections ! n;
               opt = sec_options sec ! k;
               path = (cfg_name (files ! f), sec_name sec)
           in if name = [] \<or> config_file_search_option sections (Some n) name \<noteq> None then Some (files, [])
              else
                (let others = take k (sec_options sec) @ drop (Suc k) (sec_options sec);
                     new = opt\<lparr>opt_name := name\<rparr>;
                     sec = sec\<lparr>sec_options := config_file_option_insert_in_section new others\<rparr>;
                     files = files[f := (files ! f)\<lparr>cfg_sections := sections[n := sec]\<rparr>];
                     files = rename_parents (config_file_option_full_name path opt) (config_file_option_full_name path new) files
                 in map_option (\<lambda>c. (files, [c])) (config_file_hook_config_exec env path new))))"

subsection \<open>Lines\<close>

definition plain_text :: "cstr \<Rightarrow> bool" where
  "plain_text s \<longleftrightarrow> s \<noteq> [] \<and> hd s \<noteq> CHR '' '' \<and> last s \<noteq> CHR '' '' \<and> LF \<notin> set s \<and> CHR 0x0D \<notin> set s"

definition name_ok :: "cstr \<Rightarrow> bool" where
  "name_ok s \<longleftrightarrow> plain_text s \<and> strstr s '' ='' = None"

lemma strstr_append:
  assumes "strstr a '' ='' = None"
  shows "strstr (a @ '' = '' @ b) '' ='' = Some ('' = '' @ b)"
  using assms
proof (induction a)
  case (Cons c a)
  then show ?case by (cases a) (auto split: if_splits)
qed simp

lemma dropWhile_hd: "s \<noteq> [] \<Longrightarrow> \<not> P (hd s) \<Longrightarrow> dropWhile P s = s"
  by (cases s) auto

lemma strip_end_plain: "s \<noteq> [] \<Longrightarrow> last s \<noteq> CHR '' '' \<Longrightarrow> strip_end s = s"
proof (cases s)
  case (Cons c t)
  assume "s \<noteq> []" "last s \<noteq> CHR '' ''"
  then have "t = [] \<or> hd (rev t) \<noteq> CHR '' ''" using Cons by (cases t rule: rev_cases) auto
  then have "dropWhile (\<lambda>d. d = CHR '' '') (rev t) = rev t" by (cases "rev t") auto
  then show ?thesis by (simp add: strip_end_def Cons)
qed simp

lemma strip_end_spaces: "s \<noteq> [] \<Longrightarrow> last s \<noteq> CHR '' '' \<Longrightarrow> strip_end (s @ replicate n (CHR '' '')) = s"
proof (cases s)
  case (Cons c t)
  assume "s \<noteq> []" "last s \<noteq> CHR '' ''"
  then have "t = [] \<or> hd (rev t) \<noteq> CHR '' ''" using Cons by (cases t rule: rev_cases) auto
  then have "dropWhile (\<lambda>d. d = CHR '' '') (rev t) = rev t" by (cases "rev t") auto
  moreover have "dropWhile (\<lambda>d. d = CHR '' '') (replicate n (CHR '' '') @ u) = dropWhile (\<lambda>d. d = CHR '' '') u" for u by (induction n) auto
  ultimately show ?thesis by (simp add: strip_end_def Cons)
qed simp

text \<open>The escaped name at the start of a line.\<close>

definition esc_name :: "cstr \<Rightarrow> cstr" where "esc_name n = config_file_option_escape (Some n) @ n"

lemma esc_name_props:
  assumes "name_ok n"
  shows "plain_text (esc_name n)" "strstr (esc_name n) '' ='' = None" "hd (esc_name n) \<noteq> CHR ''#''" "hd (esc_name n) \<noteq> CHR ''[''"
    "(if bat (esc_name n) 0 = 0x5C then tl (esc_name n) else esc_name n) = n"
proof -
  obtain c t where n: "n = c # t" using assms by (cases n) (auto simp: name_ok_def plain_text_def)
  have e: "esc_name n = (if c = CHR ''#'' \<or> c = CHR ''['' \<or> c = CHR 0x5C then CHR 0x5C # n else n)"
  proof -
    have "bat n 0 = byte c" by (simp add: n bat_def)
    moreover have "byte c = byte d \<longleftrightarrow> c = d" for d by (simp add: of_char_eq_iff)
    moreover have "(0x5C :: nat) = byte (CHR 0x5C)" by simp
    ultimately show ?thesis unfolding esc_name_def config_file_option_escape_def option.case by (simp only:) auto
  qed
  show "plain_text (esc_name n)" unfolding e using assms by (auto simp: n name_ok_def plain_text_def)
  show "strstr (esc_name n) '' ='' = None" unfolding e using assms by (auto simp: n name_ok_def)
  show "hd (esc_name n) \<noteq> CHR ''#''" "hd (esc_name n) \<noteq> CHR ''[''" unfolding e by (auto simp: n)
  show "(if bat (esc_name n) 0 = 0x5C then tl (esc_name n) else esc_name n) = n"
  proof -
    have "byte c = 0x5C \<longleftrightarrow> c = CHR 0x5C"
      using of_char_eq_iff [of c "CHR 0x5C", where ?'a = nat] by simp
    then show ?thesis unfolding e by (auto simp: n bat_def)
  qed
qed

lemma byte_eq: "byte c = byte d \<longleftrightarrow> c = d"
  by (simp add: of_char_eq_iff)

lemma bat_0: "s \<noteq> [] \<Longrightarrow> bat s 0 = byte (hd s)"
  by (cases s) (auto simp: bat_def)

lemma takeWhile_line: "LF \<notin> set t \<Longrightarrow> CHR 0x0D \<notin> set t \<Longrightarrow>
    takeWhile (\<lambda>c. c \<noteq> LF) (takeWhile (\<lambda>c. c \<noteq> CHR 0x0D) (t @ [LF])) = t"
proof -
  assume t: "LF \<notin> set t" "CHR 0x0D \<notin> set t"
  have "takeWhile (\<lambda>c. c \<noteq> CHR 0x0D) (t @ [LF]) = t @ [LF]" using t(2) by (subst takeWhile_append2) auto
  moreover have "takeWhile (\<lambda>c. c \<noteq> LF) (t @ [LF]) = t" using t(1) by (subst takeWhile_append2) auto
  ultimately show ?thesis by simp
qed

text \<open>A line that starts as the line of an option.\<close>

lemma config_line_option:
  assumes "plain_text e" "hd e \<noteq> CHR ''#''" "hd e \<noteq> CHR ''[''" "LF \<notin> set t" "CHR 0x0D \<notin> set t"
  shows "config_line_of (e @ t @ [LF]) =
    (let (name, val) = (case strstr (e @ t) '' ='' of
         Some pos \<Rightarrow> (strip_end (take (length (e @ t) - length pos) (e @ t)), config_line_value (drop 2 pos))
       | None \<Rightarrow> (e @ t, None));
       name = (if bat name 0 = 0x5C then tl name else name)
     in Line_Option name val)"
proof -
  have "hd e \<noteq> LF" "hd e \<noteq> CHR 0x0D" using assms(1) unfolding plain_text_def by (metis hd_in_set)+
  then have e: "e \<noteq> []" "hd e \<noteq> CHR '' ''" "hd e \<noteq> LF" "hd e \<noteq> CHR 0x0D" "LF \<notin> set (e @ t)" "CHR 0x0D \<notin> set (e @ t)"
    using assms by (simp_all add: plain_text_def)
  have d: "dropWhile (\<lambda>c. c = CHR '' '') (e @ t @ [LF]) = e @ t @ [LF]" by (rule dropWhile_hd) (use e in auto)
  have b: "bat (e @ t @ [LF]) 0 = byte (hd e)" using bat_0 [of "e @ t @ [LF]"] e(1) by simp
  have n: "byte (hd e) \<noteq> byte (CHR ''#'')" "byte (hd e) \<noteq> byte (CHR ''['')" "byte (hd e) \<noteq> 0x0D" "byte (hd e) \<noteq> 0x0A"
    using assms(2,3) e(3,4) byte_eq [of "hd e" "CHR ''#''"] byte_eq [of "hd e" "CHR ''[''"] byte_eq [of "hd e" LF] byte_eq [of "hd e" "CHR 0x0D"]
    by auto
  have l: "takeWhile (\<lambda>c. c \<noteq> LF) (takeWhile (\<lambda>c. c \<noteq> CHR 0x0D) (e @ t @ [LF])) = e @ t"
    using takeWhile_line [OF e(5,6)] by simp
  show ?thesis
    unfolding config_line_of_def d b Let_def l using n by (simp only: simp_thms if_False)
qed

lemma config_line_name_value:
  assumes "name_ok n" "LF \<notin> set t" "CHR 0x0D \<notin> set t"
  shows "config_line_of (esc_name n @ '' = '' @ t @ [LF]) = Line_Option n (config_line_value (CHR '' '' # t))"
    "config_line_of (esc_name n @ [LF]) = Line_Option n None"
proof -
  note e = esc_name_props [OF assms(1)]
  have s: "strip_end (esc_name n) = esc_name n" using e(1) by (intro strip_end_plain) (auto simp: plain_text_def)
  have "config_line_of (esc_name n @ ('' = '' @ t) @ [LF]) = Line_Option n (config_line_value (CHR '' '' # t))"
    by (subst config_line_option [OF e(1,3,4)])
      (use assms(2,3) e(5) s strstr_append [OF e(2), of t] in \<open>simp_all add: Let_def\<close>)
  then show "config_line_of (esc_name n @ '' = '' @ t @ [LF]) = Line_Option n (config_line_value (CHR '' '' # t))" by simp
  have "config_line_of (esc_name n @ [] @ [LF]) = Line_Option n None"
    by (subst config_line_option [OF e(1,3,4)]) (use e(2,5) in \<open>simp_all add: Let_def\<close>)
  then show "config_line_of (esc_name n @ [LF]) = Line_Option n None" by simp
qed

lemma config_line_section:
  assumes "CHR '']'' \<notin> set name" "CHR ''='' \<notin> set name"
  shows "config_line_of (''['' @ name @ '']'' @ [LF]) = Line_Section name"
proof -
  have "takeWhile (\<lambda>c. c \<noteq> CHR '']'') (name @ CHR '']'' # [LF]) = name" using assms(1) by (subst takeWhile_append2) auto
  then show ?thesis using assms(2) by (simp add: config_line_of_def bat_def)
qed

lemma config_line_ignored: "config_line_of [LF] = Line_Ignored" "config_line_of (CHR ''#'' # s) = Line_Ignored"
  by (simp_all add: config_line_of_def bat_def)

lemma strcase_null_quote: "\<not> strcase_eq (CHR 0x22 # s) ''null''"
proof -
  have "utf8_charcasecmp (Some (CHR 0x22 # s)) (Some ''null'') \<noteq> 0"
    by (simp add: utf8_charcasecmp_def utf8_wide_char_def wint_of_char_def utf8_char_size_ascii Let_def)
  then show ?thesis by (simp add: strcase_eq_def string_strcasecmp_def Let_def)
qed

lemma config_value_plain:
  assumes "plain_text t" "\<not> strcase_eq t ''null''" "\<not> (hd t = last t \<and> (hd t = CHR 0x27 \<or> hd t = CHR 0x22) \<and> length t > 1)"
  shows "config_line_value (CHR '' '' # t) = Some t"
proof -
  have "dropWhile (\<lambda>c. c = CHR '' '') (CHR '' '' # t) = t" using assms(1) dropWhile_hd [of t] by (simp add: plain_text_def)
  then show ?thesis
    using assms strip_end_plain [of t] by (auto simp: config_line_value_def plain_text_def Let_def)
qed

lemma config_value_quoted: "config_line_value (CHR '' '' # CHR 0x22 # s @ [CHR 0x22]) = Some s"
proof -
  have "strip_end (CHR 0x22 # s @ [CHR 0x22]) = CHR 0x22 # s @ [CHR 0x22]" by (rule strip_end_plain) auto
  then show ?thesis using strcase_null_quote [of "s @ [CHR 0x22]"] by (simp add: config_line_value_def Let_def)
qed

subsection \<open>A written option is read back\<close>

text \<open>A text that stands for itself in a line.\<close>

definition bare_text :: "cstr \<Rightarrow> bool" where
  "bare_text t \<longleftrightarrow> plain_text t \<and> \<not> strcase_eq t ''null'' \<and>
     \<not> (hd t = last t \<and> (hd t = CHR 0x27 \<or> hd t = CHR 0x22) \<and> length t > 1) \<and>
     relative_number (CHR ''+'') t = None \<and> relative_number (CHR ''-'') t = None"

definition storable :: "color_env \<Rightarrow> config_option \<Rightarrow> bool" where
  "storable env opt \<longleftrightarrow> option_ok opt \<and> name_ok (opt_name opt) \<and>
     (case opt_value opt of
        Some (IntV i) \<Rightarrow>
          (case opt_type opt of
             OPTION_INTEGER \<Rightarrow>
               (case opt_string_values opt of
                  Some xs \<Rightarrow> bare_text (xs ! nat i) \<and> value_index xs (xs ! nat i) = Some (nat i)
                | None \<Rightarrow> True)
           | OPTION_COLOR \<Rightarrow> (\<exists>t. color_name env i = Some t \<and> bare_text t \<and> color_assign env t = Some i)
           | _ \<Rightarrow> True)
      | Some (StrV s) \<Rightarrow> LF \<notin> set s \<and> CHR 0x0D \<notin> set s
      | _ \<Rightarrow> True)"

lemma string_of_int_hd:
  "string_of_int i \<noteq> [] \<and> (c_isdigit (hd (string_of_int i)) \<or> hd (string_of_int i) = CHR ''-'') \<and>
    c_isdigit (last (string_of_int i)) \<and> (\<forall>c\<in>set (string_of_int i). c_isdigit c \<or> c = CHR ''-'')"
proof -
  have "c_isdigit (hd (digits_of 10 n)) \<and> c_isdigit (last (digits_of 10 n))" for n
    using digits_of_isdigit [of "hd (digits_of 10 n)" n] digits_of_isdigit [of "last (digits_of 10 n)" n] by simp
  then show ?thesis using digits_of_isdigit by (auto simp: string_of_int_def)
qed

lemma isdigit_neq: "c_isdigit c \<Longrightarrow> c \<noteq> CHR '' '' \<and> c \<noteq> LF \<and> c \<noteq> CHR 0x0D \<and> c \<noteq> CHR 0x22 \<and> c \<noteq> CHR 0x27 \<and> c \<noteq> CHR ''-'' \<and> c \<noteq> CHR ''+''"
  by (auto simp: c_isdigit_def)

lemma bare_text_int: "bare_text (string_of_int i)"
proof -
  note h = string_of_int_hd [of i]
  obtain c t where s: "string_of_int i = c # t" using h by (cases "string_of_int i") auto
  have c: "c_isdigit c \<or> c = CHR ''-''" using h s by auto
  have "LF \<notin> set (string_of_int i)" "CHR 0x0D \<notin> set (string_of_int i)"
    using h isdigit_neq by fastforce+
  then have "plain_text (string_of_int i)"
    using h c isdigit_neq [of c] isdigit_neq [of "last (string_of_int i)"] unfolding plain_text_def by (auto simp: s)
  moreover have "\<not> strcase_eq (string_of_int i) ''null''"
  proof -
    have "byte c < 128" using c by (auto simp: c_isdigit_def)
    then have "utf8_charcasecmp (Some (c # t)) (Some ''null'') \<noteq> 0"
      using c by (auto simp: utf8_charcasecmp_def utf8_wide_char_def wint_of_char_def utf8_char_size_ascii Let_def c_isdigit_def)
    then show ?thesis by (simp add: strcase_eq_def string_strcasecmp_def s Let_def)
  qed
  moreover have "hd (string_of_int i) \<noteq> CHR 0x27" "hd (string_of_int i) \<noteq> CHR 0x22" using c isdigit_neq [of c] by (auto simp: s)
  moreover have "relative_number d (string_of_int i) = None" if "d = CHR ''+'' \<or> d = CHR ''-''" for d
  proof -
    have "take 2 (string_of_int i) \<noteq> [d, d]"
    proof (cases "i < 0")
      case True
      obtain e u where u: "digits_of 10 (nat (- i)) = e # u" by (cases "digits_of 10 (nat (- i))") auto
      then have "c_isdigit e" using digits_of_isdigit [of e "nat (- i)"] by simp
      then show ?thesis using True that isdigit_neq [of e] by (auto simp: string_of_int_def u)
    next
      case False
      obtain e u where u: "digits_of 10 (nat i) = e # u" by (cases "digits_of 10 (nat i)") auto
      then have "c_isdigit e" using digits_of_isdigit [of e "nat i"] by simp
      then show ?thesis using False that isdigit_neq [of e] by (auto simp: string_of_int_def u)
    qed
    then show ?thesis by (simp add: relative_number_def)
  qed
  ultimately show ?thesis unfolding bare_text_def by blast
qed

lemma bare_text_boolean: "bare_text ''on''" "bare_text ''off''"
  by (simp_all add: bare_text_def plain_text_def relative_number_def strcase_eq_def string_strcasecmp_def Let_def
    utf8_charcasecmp_def utf8_wide_char_def wint_of_char_def utf8_char_size_ascii)

lemma set_boolean_on_off: "set_boolean old ''on'' = Some 1" "set_boolean old ''off'' = Some 0"
  by (simp_all add: set_boolean_def config_file_string_boolean_is_valid_def config_file_string_to_boolean_def strcase_in_def
    config_boolean_true_def config_boolean_false_def strcasecmp_literal)

text \<open>The text of a value in a line, and what it is read as.\<close>

lemma line_bare: "bare_text t \<Longrightarrow> config_line_value (CHR '' '' # t) = Some t"
  unfolding bare_text_def by (rule config_value_plain) auto

lemma read_old:
  "option_ok opt \<Longrightarrow> opt_type opt \<noteq> OPTION_STRING \<Longrightarrow>
    \<exists>old. (if opt_value opt = None then Some 0 else read_int (opt_value opt)) = Some old"
  by (cases "opt_value opt"; cases "opt_type opt") (auto simp: option_ok_def value_ok_def)

lemma set_value_written:
  assumes "option_ok opt" "value_ok opt v" "bounds_ok opt"
    and "value_string env opt (Some v) = Some (Some t)"
    and "opt_type opt \<noteq> OPTION_STRING \<Longrightarrow> bare_text t"
    and "\<And>xs i. opt_type opt = OPTION_INTEGER \<Longrightarrow> opt_string_values opt = Some xs \<Longrightarrow> v = IntV i \<Longrightarrow> value_index xs t = Some (nat i)"
    and "\<And>i. opt_type opt = OPTION_COLOR \<Longrightarrow> v = IntV i \<Longrightarrow> color_assign env t = Some i"
  shows "\<exists>rc. set_value env opt t = Some (Some v, rc)"
proof (cases "opt_type opt")
  case OPTION_BOOLEAN
  then have v: "v = IntV 0 \<and> t = ''off'' \<or> v = IntV 1 \<and> t = ''on''"
    using assms(2,4) by (auto simp: value_ok_def value_string_def)
  have "opt_value opt = None \<or> (\<exists>b. opt_value opt = Some (IntV b))"
    using assms(1) OPTION_BOOLEAN by (cases "opt_value opt") (auto simp: option_ok_def value_ok_def)
  then show ?thesis using v OPTION_BOOLEAN by (auto simp: set_value_def set_boolean_on_off)
next
  case OPTION_INTEGER
  obtain i where i: "v = IntV i" "opt_min opt \<le> i" "i \<le> opt_max opt" using assms(2) OPTION_INTEGER by (auto simp: value_ok_def)
  have b: "- (2 ^ 31) \<le> opt_min opt" "opt_max opt < 2 ^ 31" using assms(3) OPTION_INTEGER by (simp_all add: bounds_ok_def)
  have r: "relative_number (CHR ''+'') t = None" "relative_number (CHR ''-'') t = None"
    using assms(5) OPTION_INTEGER by (simp_all add: bare_text_def)
  obtain old where old: "(if opt_value opt = None then Some 0 else read_int (opt_value opt)) = Some old"
    using read_old [OF assms(1)] OPTION_INTEGER by auto
  define new where "new = (case opt_string_values opt of
      Some xs \<Rightarrow> (let j = set_index xs (opt_max opt) old t in if j \<ge> 0 then Some j else None)
    | None \<Rightarrow> set_number (opt_min opt) (opt_max opt) old t)"
  have "new = Some i"
  proof (cases "opt_string_values opt")
    case None
    have "t = string_of_int i" using assms(4) i OPTION_INTEGER None by (simp add: value_string_def)
    moreover have "strtol10 (string_of_int i) = (i, [])"
      using strtol10_string_of_int [of i "[]"] i b by (simp add: long_min_def long_max_def)
    moreover have "int_of_long i = i" by (rule int_of_long_id) (use i b in auto)
    ultimately show ?thesis using None r i by (simp add: new_def set_number_def)
  next
    case (Some xs)
    have "0 \<le> i" using assms(3) OPTION_INTEGER Some i by (simp add: bounds_ok_def)
    then show ?thesis using assms(6) [OF OPTION_INTEGER Some i(1)] r Some by (simp add: new_def set_index_def Let_def)
  qed
  then have "set_value env opt t = Some (Some (IntV i), is_changed (opt_value opt = None \<or> i \<noteq> old))"
    unfolding set_value_def Let_def OPTION_INTEGER config_option_type.case old option.map new_def [unfolded Let_def] by simp
  then show ?thesis using i(1) by blast
next
  case OPTION_STRING
  then have v: "v = StrV t" using assms(2,4) by (auto simp: value_ok_def value_string_def)
  have "opt_value opt = None \<or> (\<exists>b. opt_value opt = Some (StrV b))"
    using assms(1) OPTION_STRING by (cases "opt_value opt") (auto simp: option_ok_def value_ok_def)
  then show ?thesis using v OPTION_STRING by (auto simp: set_value_def)
next
  case OPTION_COLOR
  obtain i where i: "v = IntV i" using assms(2) OPTION_COLOR by (auto simp: value_ok_def)
  have r: "relative_number (CHR ''+'') t = None" "relative_number (CHR ''-'') t = None"
    using assms(5) OPTION_COLOR by (simp_all add: bare_text_def)
  obtain old where old: "(if opt_value opt = None then Some 0 else read_int (opt_value opt)) = Some old"
    using read_old [OF assms(1)] OPTION_COLOR by auto
  have "set_color env old t = Some i" using assms(7) [OF OPTION_COLOR i] r by (simp add: set_color_def)
  then show ?thesis using i old by (simp add: set_value_def OPTION_COLOR)
qed

lemma storable_string:
  assumes "storable env opt" "opt_value opt = Some v"
  shows "\<exists>t. value_string env opt (Some v) = Some (Some t) \<and> LF \<notin> set t \<and> CHR 0x0D \<notin> set t \<and>
    (opt_type opt \<noteq> OPTION_STRING \<longrightarrow> bare_text t) \<and>
    (\<forall>xs i. opt_type opt = OPTION_INTEGER \<longrightarrow> opt_string_values opt = Some xs \<longrightarrow> v = IntV i \<longrightarrow> value_index xs t = Some (nat i)) \<and>
    (\<forall>i. opt_type opt = OPTION_COLOR \<longrightarrow> v = IntV i \<longrightarrow> color_assign env t = Some i)"
proof -
  have ok: "value_ok opt v" "bounds_ok opt" using assms by (auto simp: storable_def option_ok_def)
  have bare: "LF \<notin> set t \<and> CHR 0x0D \<notin> set t" if "bare_text t" for t using that by (simp add: bare_text_def plain_text_def)
  show ?thesis
  proof (cases "opt_type opt")
    case OPTION_BOOLEAN
    then have "v = IntV 0 \<or> v = IntV 1" using ok by (simp add: value_ok_def)
    then obtain t where t: "value_string env opt (Some v) = Some (Some t)" "t = ''on'' \<or> t = ''off''"
      using OPTION_BOOLEAN by (auto simp: value_string_def)
    then have "bare_text t" using bare_text_boolean by auto
    then show ?thesis using t(1) bare OPTION_BOOLEAN by auto
  next
    case OPTION_INTEGER
    obtain i where i: "v = IntV i" "opt_min opt \<le> i" "i \<le> opt_max opt" using ok OPTION_INTEGER by (auto simp: value_ok_def)
    show ?thesis
    proof (cases "opt_string_values opt")
      case None
      then show ?thesis using i OPTION_INTEGER bare_text_int [of i] bare [OF bare_text_int] by (simp add: value_string_def)
    next
      case (Some xs)
      have "0 \<le> i" "i < int (length xs)" using ok(2) OPTION_INTEGER Some i by (auto simp: bounds_ok_def)
      then have "value_string env opt (Some v) = Some (Some (xs ! nat i))"
        using OPTION_INTEGER Some i by (simp add: value_string_def string_value_at_def)
      moreover have "bare_text (xs ! nat i)" "value_index xs (xs ! nat i) = Some (nat i)"
        using assms OPTION_INTEGER Some i by (simp_all add: storable_def)
      ultimately show ?thesis using bare OPTION_INTEGER Some i by simp
    qed
  next
    case OPTION_STRING
    then obtain t where "v = StrV t" using ok by (auto simp: value_ok_def)
    then show ?thesis using assms OPTION_STRING by (simp add: value_string_def storable_def)
  next
    case OPTION_COLOR
    then obtain i where i: "v = IntV i" using ok by (auto simp: value_ok_def)
    then obtain t where "color_name env i = Some t" "bare_text t" "color_assign env t = Some i"
      using assms OPTION_COLOR by (auto simp: storable_def)
    then show ?thesis using i OPTION_COLOR bare by (auto simp: value_string_def)
  qed
qed

definition accepts :: "(cstr option \<Rightarrow> bool) option \<Rightarrow> bool" where
  "accepts check \<longleftrightarrow> (case check of Some f \<Rightarrow> \<forall>v. f v | None \<Rightarrow> True)"

text \<open>The same option with another value.\<close>

definition other_value :: "config_option \<Rightarrow> config_option \<Rightarrow> bool" where
  "other_value opt opt0 \<longleftrightarrow> option_ok opt0 \<and> opt0 = opt\<lparr>opt_value := opt_value opt0, opt_loaded := opt_loaded opt0\<rparr>"

lemma loaded_update [simp]:
  "value_ok (opt\<lparr>opt_loaded := l\<rparr>) = value_ok opt" "bounds_ok (opt\<lparr>opt_loaded := l\<rparr>) = bounds_ok opt"
  "value_string env (opt\<lparr>opt_loaded := l\<rparr>) = value_string env opt" "value_string env (opt\<lparr>opt_value := v\<rparr>) = value_string env opt"
  by (simp_all add: value_ok_def bounds_ok_def value_string_def fun_eq_iff cong: option.case_cong config_option_type.case_cong)

lemma loaded_option_ok [simp]: "option_ok (opt\<lparr>opt_loaded := l\<rparr>) = option_ok opt"
  by (simp add: option_ok_def)

lemma option_write_read:
  assumes "storable env opt" "other_value opt opt0" "accepts check"
  shows "\<exists>e val rc calls. config_option_line env opt = Some (e @ [LF]) \<and> LF \<notin> set e \<and>
    config_line_of (e @ [LF]) = Line_Option (opt_name opt) val \<and>
    config_file_option_set env check opt0 val True = Some (opt\<lparr>opt_loaded := opt_loaded opt0\<rparr>, rc, calls)"
proof -
  have ok: "option_ok opt" "name_ok (opt_name opt)" "option_ok opt0" using assms by (auto simp: storable_def other_value_def)
  note e = esc_name_props [OF ok(2)]
  have lf: "LF \<notin> set (esc_name (opt_name opt))" using e(1) by (simp add: plain_text_def)
  have o: "opt0\<lparr>opt_value := opt_value opt\<rparr> = opt\<lparr>opt_loaded := opt_loaded opt0\<rparr>"
    using assms(2) by (cases opt; cases opt0) (simp add: other_value_def)
  have chk: "(case check of Some f \<Rightarrow> \<not> f val | None \<Rightarrow> False) = False" for val
    using assms(3) by (simp add: accepts_def split: option.splits)
  have okl: "option_ok (opt\<lparr>opt_loaded := opt_loaded opt0\<rparr>)" using ok(1) by simp
  have changed: "\<exists>calls. option_changed env True (opt\<lparr>opt_loaded := opt_loaded opt0\<rparr>) rc =
      Some (opt\<lparr>opt_loaded := opt_loaded opt0\<rparr>, rc, calls)" for rc by (rule option_changed_ok [OF okl])
  show ?thesis
  proof (cases "opt_value opt")
    case None
    have "opt_null_value_allowed opt0" using ok(1) None assms(2) by (cases opt; cases opt0) (auto simp: option_ok_def other_value_def)
    moreover have "opt_value opt0 = None \<Longrightarrow> opt0 = opt\<lparr>opt_loaded := opt_loaded opt0\<rparr>" using o None by (cases opt0) simp
    moreover obtain c1 where "option_changed env True (opt\<lparr>opt_loaded := opt_loaded opt0\<rparr>) SET_OK_SAME_VALUE =
        Some (opt\<lparr>opt_loaded := opt_loaded opt0\<rparr>, SET_OK_SAME_VALUE, c1)" using changed by blast
    moreover obtain c2 where "option_changed env True (opt\<lparr>opt_loaded := opt_loaded opt0\<rparr>) SET_OK_CHANGED =
        Some (opt\<lparr>opt_loaded := opt_loaded opt0\<rparr>, SET_OK_CHANGED, c2)" using changed by blast
    ultimately have "\<exists>rc calls. config_file_option_set env check opt0 None True = Some (opt\<lparr>opt_loaded := opt_loaded opt0\<rparr>, rc, calls)"
      using o None by (cases "opt_value opt0") (simp_all add: config_file_option_set_def chk)
    moreover have "config_option_line env opt = Some (esc_name (opt_name opt) @ [LF])"
      by (simp add: config_option_line_def None esc_name_def Let_def)
    ultimately show ?thesis using lf config_line_name_value(2) [OF ok(2), of "[]"] by auto
  next
    case (Some v)
    obtain t where t: "value_string env opt (Some v) = Some (Some t)" "LF \<notin> set t" "CHR 0x0D \<notin> set t"
      "opt_type opt \<noteq> OPTION_STRING \<longrightarrow> bare_text t"
      "\<forall>xs i. opt_type opt = OPTION_INTEGER \<longrightarrow> opt_string_values opt = Some xs \<longrightarrow> v = IntV i \<longrightarrow> value_index xs t = Some (nat i)"
      "\<forall>i. opt_type opt = OPTION_COLOR \<longrightarrow> v = IntV i \<longrightarrow> color_assign env t = Some i"
      using storable_string [OF assms(1) Some] by blast
    define q where "q = (if opt_type opt = OPTION_STRING then CHR 0x22 # t @ [CHR 0x22] else t)"
    have q: "LF \<notin> set q" "CHR 0x0D \<notin> set q" "config_line_value (CHR '' '' # q) = Some t"
      using t(2-4) line_bare [of t] config_value_quoted [of t] by (auto simp: q_def)
    have w: "config_option_line env opt = Some ((esc_name (opt_name opt) @ '' = '' @ q) @ [LF])"
      using t(1) by (simp add: config_option_line_def Some esc_name_def q_def Let_def)
    have l: "config_line_of ((esc_name (opt_name opt) @ '' = '' @ q) @ [LF]) = Line_Option (opt_name opt) (Some t)"
      using config_line_name_value(1) [OF ok(2) q(1,2)] q(3) by simp
    have same: "opt_type opt0 = opt_type opt" "opt_string_values opt0 = opt_string_values opt" "value_ok opt0 = value_ok opt"
      "bounds_ok opt0 = bounds_ok opt" "value_string env opt0 = value_string env opt"
    proof -
      have "opt0 = opt\<lparr>opt_value := opt_value opt0, opt_loaded := opt_loaded opt0\<rparr>" using assms(2) by (simp add: other_value_def)
      then obtain a b where "opt0 = opt\<lparr>opt_value := a, opt_loaded := b\<rparr>" by blast
      then show "opt_type opt0 = opt_type opt" "opt_string_values opt0 = opt_string_values opt" "value_ok opt0 = value_ok opt"
        "bounds_ok opt0 = bounds_ok opt" "value_string env opt0 = value_string env opt" by simp_all
    qed
    have "\<exists>rc. set_value env opt0 t = Some (Some v, rc)"
      by (rule set_value_written) (use ok Some t in \<open>simp_all add: same option_ok_def\<close>)
    then obtain rc where rc: "set_value env opt0 t = Some (opt_value opt, rc)" using Some by auto
    obtain calls where "config_file_option_set env check opt0 (Some t) True = Some (opt\<lparr>opt_loaded := opt_loaded opt0\<rparr>, rc, calls)"
      using changed [of rc] rc o by (auto simp: config_file_option_set_def chk)
    then show ?thesis using w l lf q(1) by (intro exI [of _ "esc_name (opt_name opt) @ '' = '' @ q"] exI [of _ "Some t"] exI conjI) (assumption | simp)+
  qed
qed

subsection \<open>A written file is read back\<close>

definition line_concat :: "cstr list \<Rightarrow> cstr" where "line_concat ls = concat (map (\<lambda>l. l @ [LF]) ls)"

lemma line_concat_simps [simp]:
  "line_concat [] = []" "line_concat (l # ls) = l @ LF # line_concat ls" "line_concat (ls @ ms) = line_concat ls @ line_concat ms"
  by (simp_all add: line_concat_def)

lemma fgets_lines_cons:
  assumes "LF \<notin> set l"
  shows "fgets_lines n (l @ LF # s) =
    (if n = 0 then [] else if length l < n then (l @ [LF]) # fgets_lines n s else take n l # fgets_lines n (drop n l @ LF # s))"
proof -
  have "takeWhile (\<lambda>c. c \<noteq> LF) (l @ LF # s) = l" using assms by (subst takeWhile_append2) auto
  moreover have "n - length l = Suc 0" if "n \<le> Suc (length l)" "length l < n" using that by simp
  ultimately show ?thesis by (subst fgets_lines.simps) (auto simp: Let_def min_def)
qed

lemma fgets_lines_Nil [simp]: "fgets_lines n [] = []"
  by (subst fgets_lines.simps) simp

lemma fgets_lines_concat:
  assumes "\<forall>l\<in>set ls. LF \<notin> set l \<and> length l < n"
  shows "fgets_lines n (line_concat ls) = map (\<lambda>l. l @ [LF]) ls"
  using assms by (induction ls) (auto simp: fgets_lines_cons)

definition all_loaded :: "config_section \<Rightarrow> config_section" where
  "all_loaded sec = sec\<lparr>sec_options := map (\<lambda>opt. opt\<lparr>opt_loaded := True\<rparr>) (sec_options sec)\<rparr>"

fun distinct_names :: "cstr list \<Rightarrow> bool" where
  "distinct_names [] \<longleftrightarrow> True"
| "distinct_names (n # ns) \<longleftrightarrow> (\<forall>m\<in>set ns. \<not> strcase_eq n m) \<and> distinct_names ns"

definition section_storable :: "color_env \<Rightarrow> config_section \<Rightarrow> bool" where
  "section_storable env sec \<longleftrightarrow> \<not> sec_callback_read sec \<and> \<not> sec_callback_write sec \<and> CHR '']'' \<notin> set (sec_name sec) \<and> CHR ''='' \<notin> set (sec_name sec) \<and>
     LF \<notin> set (sec_name sec) \<and> distinct_names (map opt_name (sec_options sec)) \<and> (\<forall>opt\<in>set (sec_options sec). storable env opt)"

text \<open>The same sections and options with other values.\<close>

definition other_values :: "config_section \<Rightarrow> config_section \<Rightarrow> bool" where
  "other_values sec sec0 \<longleftrightarrow> sec0 = sec\<lparr>sec_options := sec_options sec0\<rparr> \<and> list_all2 other_value (sec_options sec) (sec_options sec0)"

lemma strcase_eq_refl [simp]: "strcase_eq s s"
  by (simp add: strcase_eq_def strcasecmp.cmp_refl)

lemma find_index_append:
  "find_index P (xs @ ys) = (case find_index P xs of Some n \<Rightarrow> Some n | None \<Rightarrow> map_option (\<lambda>n. n + length xs) (find_index P ys))"
  by (induction xs) (auto simp: option.map_comp comp_def option.map_ident split: option.splits)

lemma find_index_none: "(\<forall>x\<in>set xs. \<not> P x) \<Longrightarrow> find_index P xs = None"
  by (induction xs) auto

lemma distinct_names_append:
  "distinct_names (ns @ ms) \<longleftrightarrow> distinct_names ns \<and> distinct_names ms \<and> (\<forall>n\<in>set ns. \<forall>m\<in>set ms. \<not> strcase_eq n m)"
  by (induction ns) auto

lemma find_index_named:
  assumes "distinct_names (map g xs @ nm # ns)" "g x = nm"
  shows "find_index (\<lambda>y. strcase_eq (g y) nm) (xs @ x # ys) = Some (length xs)"
proof -
  have "find_index (\<lambda>y. strcase_eq (g y) nm) xs = None" by (rule find_index_none) (use assms in \<open>auto simp: distinct_names_append\<close>)
  then show ?thesis using assms(2) by (simp add: find_index_append)
qed

lemma other_value_name: "other_value opt opt0 \<Longrightarrow> opt_name opt0 = opt_name opt"
  unfolding other_value_def by (drule conjunct2, drule arg_cong [of _ _ opt_name]) simp

text \<open>The lines of a file, in UTF-8 and without their ends.\<close>

definition option_text :: "color_env \<Rightarrow> config_option \<Rightarrow> cstr" where
  "option_text env opt = butlast (the (config_option_line env opt))"

definition section_text :: "color_env \<Rightarrow> config_section \<Rightarrow> cstr list" where
  "section_text env sec = [] # (''['' @ sec_name sec @ '']'') # map (option_text env) (sec_options sec)"

definition header_text :: "cstr \<Rightarrow> cstr \<Rightarrow> cstr list" where
  "header_text version filename = [''#'', ''# '' @ version @ '' -- '' @ filename, ''#'',
     ''# WARNING: It is NOT recommended to edit this file by hand,'', ''# especially if WhoreIRC is running.'', ''#'',
     ''# Use /set or similar command to change settings in WhoreIRC.'', ''#'',
     ''# For more info, see: https://weechat.org/doc/quickstart'', ''#'']"

definition file_text :: "color_env \<Rightarrow> cstr \<Rightarrow> cstr \<Rightarrow> config_file \<Rightarrow> cstr list" where
  "file_text env version filename cfg = header_text version filename @ concat (map (section_text env) (cfg_sections cfg))"

text \<open>
  What is asked of the charset for the lines of a file: each line is converted alone, without an end of line inside, is converted
  back to itself, and fits the buffers of the reader.  In UTF-8 only the length is asked
  (\<open>charset_ok_utf8\<close>).
\<close>

definition line_ok :: "charset_env \<Rightarrow> cstr \<Rightarrow> bool" where
  "line_ok cs l \<longleftrightarrow> LF \<notin> set (string_iconv_from_internal cs None l) \<and>
     string_iconv_to_internal cs None (string_iconv_from_internal cs None l @ [LF]) = l @ [LF] \<and>
     length (string_iconv_from_internal cs None l) < 16382 \<and> length l < 16383"

definition charset_ok :: "charset_env \<Rightarrow> cstr set \<Rightarrow> bool" where
  "charset_ok cs L \<longleftrightarrow> (\<forall>l\<in>L. line_ok cs l) \<and>
     (\<forall>ls. set ls \<subseteq> L \<longrightarrow>
        string_iconv_from_internal cs None (line_concat ls) = line_concat (map (string_iconv_from_internal cs None) ls))"

lemma charset_ok_utf8: "local_utf8 cs \<Longrightarrow> charset_ok cs L \<longleftrightarrow> (\<forall>l\<in>L. LF \<notin> set l \<and> length l < 16382)"
proof -
  assume "local_utf8 cs"
  then have "string_iconv_from_internal cs None = (\<lambda>s. s)" "string_iconv_to_internal cs None = (\<lambda>s. s)"
    by (simp_all add: fun_eq_iff string_iconv_from_internal_def string_iconv_to_internal_def)
  then show ?thesis by (auto simp: charset_ok_def line_ok_def)
qed

lemma option_text_read:
  assumes "storable env opt" "other_value opt opt0" "accepts check"
  shows "config_option_line env opt = Some (option_text env opt @ [LF])"
    "\<exists>val rc calls. config_line_of (option_text env opt @ [LF]) = Line_Option (opt_name opt) val \<and>
      config_file_option_set env check opt0 val True = Some (opt\<lparr>opt_loaded := opt_loaded opt0\<rparr>, rc, calls)"
  using option_write_read [OF assms] by (auto simp: option_text_def)

lemma read_options:
  assumes "n < length xs" "\<not> sec_callback_read (xs ! n)"
    and "sec_options (xs ! n) = finished @ todo0" "list_all2 other_value todo todo0"
    and "distinct_names (map opt_name (finished @ todo))" "\<forall>opt\<in>set todo. storable env opt" "\<forall>opt. accepts (check opt)"
  shows "\<exists>more. config_read_lines env check (map (\<lambda>opt. option_text env opt @ [LF]) todo) (xs, Some n, calls) =
      Some (xs[n := (xs ! n)\<lparr>sec_options := finished @ map (\<lambda>opt. opt\<lparr>opt_loaded := True\<rparr>) todo\<rparr>], Some n, calls @ more)"
  using assms
proof (induction todo arbitrary: xs finished todo0 calls)
  case Nil
  then have "(xs ! n)\<lparr>sec_options := finished\<rparr> = xs ! n" by simp
  then have "xs[n := (xs ! n)\<lparr>sec_options := finished\<rparr>] = xs" by (simp only: list_update_id)
  then show ?case by simp
next
  case (Cons opt todo)
  obtain opt0 todo1 where t0: "todo0 = opt0 # todo1" "other_value opt opt0" "list_all2 other_value todo todo1"
    using Cons.prems(4) by (cases todo0) auto
  have st: "storable env opt" "accepts (check opt0)" using Cons.prems(6,7) by auto
  obtain val rc new where e: "config_line_of (option_text env opt @ [LF]) = Line_Option (opt_name opt) val"
    "config_file_option_set env (check opt0) opt0 val True = Some (opt\<lparr>opt_loaded := opt_loaded opt0\<rparr>, rc, new)"
    using option_text_read(2) [OF st(1) t0(2) st(2)] by blast
  define xs' where "xs' = xs[n := (xs ! n)\<lparr>sec_options := (finished @ [opt\<lparr>opt_loaded := True\<rparr>]) @ todo1\<rparr>]"
  have f: "find_index (\<lambda>o'. strcase_eq (opt_name o') (opt_name opt)) (sec_options (xs ! n)) = Some (length finished)"
    unfolding Cons.prems(3) t0(1)
    by (rule find_index_named) (use Cons.prems(5) other_value_name [OF t0(2)] in auto)
  have read: "config_read_line env check (option_text env opt @ [LF]) (xs, Some n, calls) = Some (xs', Some n, calls @ new)"
    using Cons.prems(2,3) f e t0(1)
    by (simp add: config_read_line_def config_read_option_def config_file_search_option_def update_option_def xs'_def)
  have x: "n < length xs'" "xs' ! n = (xs ! n)\<lparr>sec_options := (finished @ [opt\<lparr>opt_loaded := True\<rparr>]) @ todo1\<rparr>"
    using Cons.prems(1) by (simp_all add: xs'_def)
  have "\<exists>more. config_read_lines env check (map (\<lambda>opt. option_text env opt @ [LF]) todo) (xs', Some n, calls @ new) =
      Some (xs'[n := (xs' ! n)\<lparr>sec_options := (finished @ [opt\<lparr>opt_loaded := True\<rparr>]) @ map (\<lambda>opt. opt\<lparr>opt_loaded := True\<rparr>) todo\<rparr>], Some n, (calls @ new) @ more)"
    by (rule Cons.IH [OF x(1) _ _ t0(3)]) (use Cons.prems(2,5-7) x(2) in auto)
  then show ?case using read x(2) by (auto simp: xs'_def)
qed

lemma config_read_lines_append:
  "config_read_lines env check (as @ bs) st = Option.bind (config_read_lines env check as st) (config_read_lines env check bs)"
  by (induction "as" arbitrary: st) (auto split: Option.bind_splits)

lemma read_sections:
  assumes "list_all2 other_values todo todo0" "distinct_names (map sec_name (finished @ todo))"
    and "\<forall>sec\<in>set todo. section_storable env sec" "\<forall>opt. accepts (check opt)"
  shows "\<exists>cur' more. config_read_lines env check (map (\<lambda>l. l @ [LF]) (concat (map (section_text env) todo))) (finished @ todo0, cur, calls) =
      Some (finished @ map all_loaded todo, cur', calls @ more)"
  using assms
proof (induction todo arbitrary: finished todo0 cur calls)
  case (Cons sec todo)
  obtain sec0 todo1 where t0: "todo0 = sec0 # todo1" "other_values sec sec0" "list_all2 other_values todo todo1"
    using Cons.prems(1) by (cases todo0) auto
  have st: "section_storable env sec" using Cons.prems(3) by simp
  define n where "n = length finished"
  define xs where "xs = finished @ sec0 # todo1"
  have same: "sec_name sec0 = sec_name sec" "sec_callback_read sec0 = sec_callback_read sec" "sec0\<lparr>sec_options := u\<rparr> = sec\<lparr>sec_options := u\<rparr>" for u
    using t0(2) by (cases sec; cases sec0; simp add: other_values_def)+
  have x: "n < length xs" "xs ! n = sec0" by (simp_all add: n_def xs_def)
  have f: "config_file_search_section xs (Some (sec_name sec)) = Some n"
    unfolding config_file_search_section_def option.case xs_def n_def
    by (rule find_index_named) (use Cons.prems(2) same in auto)
  have l: "config_line_of (''['' @ sec_name sec @ '']'' @ [LF]) = Line_Section (sec_name sec)"
    by (rule config_line_section) (use st in \<open>simp_all add: section_storable_def\<close>)
  have others: "list_all2 other_value (sec_options sec) (sec_options sec0)" using t0(2) unfolding other_values_def by blast
  have "\<exists>more. config_read_lines env check (map (\<lambda>opt. option_text env opt @ [LF]) (sec_options sec)) (xs, Some n, calls) =
      Some (xs[n := (xs ! n)\<lparr>sec_options := [] @ map (\<lambda>opt. opt\<lparr>opt_loaded := True\<rparr>) (sec_options sec)\<rparr>], Some n, calls @ more)"
    by (rule read_options [OF x(1)]) (use st others Cons.prems(4) in \<open>simp_all add: x(2) same section_storable_def\<close>)
  then obtain more where os: "config_read_lines env check (map (\<lambda>opt. option_text env opt @ [LF]) (sec_options sec)) (xs, Some n, calls) =
      Some (xs[n := (xs ! n)\<lparr>sec_options := [] @ map (\<lambda>opt. opt\<lparr>opt_loaded := True\<rparr>) (sec_options sec)\<rparr>], Some n, calls @ more)"
    by blast
  have u: "xs[n := (xs ! n)\<lparr>sec_options := [] @ map (\<lambda>opt. opt\<lparr>opt_loaded := True\<rparr>) (sec_options sec)\<rparr>] = (finished @ [all_loaded sec]) @ todo1"
    by (simp add: x(2) same all_loaded_def) (simp add: xs_def n_def)
  obtain cur' more' where ms: "config_read_lines env check (map (\<lambda>l. l @ [LF]) (concat (map (section_text env) todo)))
        ((finished @ [all_loaded sec]) @ todo1, Some n, calls @ more) =
      Some ((finished @ [all_loaded sec]) @ map all_loaded todo, cur', (calls @ more) @ more')"
    using Cons.IH [OF t0(3), of "finished @ [all_loaded sec]" "Some n" "calls @ more"] Cons.prems(2-4)
    by (auto simp: all_loaded_def)
  have step1: "config_read_line env check [LF] st' = Some st'" for st' by (simp add: config_read_line_def config_line_ignored)
  have step2: "config_read_line env check ((''['' @ sec_name sec @ '']'') @ [LF]) (finished @ todo0, cur, calls) = Some (xs, Some n, calls)"
    using l f by (simp add: config_read_line_def t0(1) xs_def)
  have "config_read_lines env check (map (\<lambda>l. l @ [LF]) (concat (map (section_text env) (sec # todo)))) (finished @ todo0, cur, calls) =
      Some (finished @ map all_loaded (sec # todo), cur', calls @ more @ more')"
    using step1 step2 os ms unfolding u by (simp add: section_text_def config_read_lines_append comp_def)
  then show ?case by blast
qed simp

lemma header_concat: "config_file_header version filename = line_concat (header_text version filename)"
  by (simp add: config_file_header_def header_text_def)

lemma read_header: "config_read_lines env check (map (\<lambda>l. l @ [LF]) (header_text version filename)) st = Some st"
  by (simp add: header_text_def config_read_line_def config_line_ignored)

text \<open>What is written: the lines in the charset.\<close>

lemma write_options_text:
  assumes "charset_ok cs L" "option_text env ` set options \<subseteq> L" "\<forall>opt\<in>set options. storable env opt"
  shows "write_options cs env options = Some (line_concat (map (string_iconv_from_internal cs None) (map (option_text env) options)))"
  using assms(2,3)
proof (induction options)
  case (Cons opt options)
  have "other_value opt opt" "accepts None" using Cons.prems(2) by (simp_all add: other_value_def storable_def accepts_def)
  with Cons.prems(2) have "config_option_line env opt = Some (line_concat [option_text env opt])"
    using option_text_read(1) [of env opt opt None] by simp
  moreover have "string_fprintf cs (line_concat [option_text env opt]) = line_concat [string_iconv_from_internal cs None (option_text env opt)]"
    using assms(1) Cons.prems(1) unfolding charset_ok_def string_fprintf_def
    by (metis (no_types, lifting) empty_set image_subset_iff list.set_intros(1) list.simps(15) list.simps(8) list.simps(9) insert_subset empty_subsetI)
  ultimately show ?case using Cons by (simp add: config_file_write_option_def)
qed simp

lemma write_sections_text:
  assumes "charset_ok cs L" "set (concat (map (section_text env) sections)) \<subseteq> L" "\<forall>sec\<in>set sections. section_storable env sec"
  shows "config_file_write_sections cs env callback False sections =
    Some (Some (line_concat (map (string_iconv_from_internal cs None) (concat (map (section_text env) sections)))))"
  using assms(2,3)
proof (induction sections)
  case (Cons sec sections)
  have st: "section_storable env sec" using Cons.prems by simp
  have "string_fprintf cs (line_concat [[], ''['' @ sec_name sec @ '']'']) =
      line_concat (map (string_iconv_from_internal cs None) [[], ''['' @ sec_name sec @ '']''])"
    using assms(1) Cons.prems(1) unfolding charset_ok_def string_fprintf_def
    by (elim conjE allE [of _ "[[], ''['' @ sec_name sec @ '']'']"]) (auto simp: section_text_def)
  moreover have "write_options cs env (sec_options sec) =
      Some (line_concat (map (string_iconv_from_internal cs None) (map (option_text env) (sec_options sec))))"
    by (rule write_options_text [OF assms(1)]) (use st Cons.prems(1) in \<open>auto simp: section_storable_def section_text_def\<close>)
  ultimately show ?case
    using Cons st by (simp add: config_file_write_section_def section_storable_def section_text_def)
qed simp

lemma read_lines_text:
  assumes "charset_ok cs L" "set ls \<subseteq> L"
  shows "config_file_lines cs (line_concat (map (string_iconv_from_internal cs None) ls)) = map (\<lambda>l. l @ [LF]) ls"
proof -
  have ok: "line_ok cs l" if "l \<in> set ls" for l using assms that by (auto simp: charset_ok_def)
  have "fgets_lines 16382 (line_concat (map (string_iconv_from_internal cs None) ls)) =
      map (\<lambda>l. l @ [LF]) (map (string_iconv_from_internal cs None) ls)"
    by (rule fgets_lines_concat) (use ok in \<open>auto simp: line_ok_def\<close>)
  moreover have "take 16383 (string_iconv_to_internal cs None (string_iconv_from_internal cs None l @ [LF])) = l @ [LF]" if "l \<in> set ls" for l
    using ok [OF that] by (simp only: line_ok_def) (rule take_all, simp)
  ultimately show ?thesis by (simp add: config_file_lines_def)
qed

text \<open>
  Claim C40.  A configuration that is written to a file is read back: when the file is read into the
  same sections and options with other values, every option gets the value that was written, and
  is marked as read.  The names of sections and options are distinct without case, the strings
  have no end of line, the names of values and colors are read as their numbers, no section has a callback that writes or reads
  it, and the charset of the terminal converts each line of the file there and back, in the
  buffers of the reader.
\<close>

theorem config_file_write_read:
  assumes "\<forall>sec\<in>set (cfg_sections cfg). section_storable env sec" "distinct_names (map sec_name (cfg_sections cfg))"
    and "cfg0 = cfg\<lparr>cfg_sections := cfg_sections cfg0\<rparr>" "list_all2 other_values (cfg_sections cfg) (cfg_sections cfg0)"
    and "\<forall>opt. accepts (check opt)" "charset_ok cs (set (file_text env version filename cfg))"
  shows "\<exists>content calls. config_file_write_internal cs env callback False version filename cfg = Some (Some content) \<and>
    config_file_read_internal cs env check content cfg0 =
      Some (cfg\<lparr>cfg_sections := map all_loaded (cfg_sections cfg)\<rparr>, calls)"
proof -
  let ?L = "set (file_text env version filename cfg)" and ?from = "string_iconv_from_internal cs None"
  define content where "content = line_concat (map ?from (file_text env version filename cfg))"
  have "config_file_write_sections cs env callback False (cfg_sections cfg) =
      Some (Some (line_concat (map ?from (concat (map (section_text env) (cfg_sections cfg))))))"
    by (rule write_sections_text [OF assms(6) _ assms(1)]) (simp add: file_text_def)
  moreover have "string_fprintf cs (config_file_header version filename) = line_concat (map ?from (header_text version filename))"
    using assms(6) unfolding charset_ok_def string_fprintf_def header_concat
    by (elim conjE allE [of _ "header_text version filename"]) (simp add: file_text_def)
  ultimately have w: "config_file_write_internal cs env callback False version filename cfg = Some (Some content)"
    by (simp add: config_file_write_internal_def content_def file_text_def)
  obtain cur more where "config_read_lines env check (map (\<lambda>l. l @ [LF]) (concat (map (section_text env) (cfg_sections cfg))))
      ([] @ cfg_sections cfg0, None, []) = Some ([] @ map all_loaded (cfg_sections cfg), cur, [] @ more)"
    using read_sections [OF assms(4), of "[]" env check None "[]"] assms(1,2,5) by auto
  moreover have "config_file_lines cs content = map (\<lambda>l. l @ [LF]) (file_text env version filename cfg)"
    unfolding content_def by (rule read_lines_text [OF assms(6)]) simp
  ultimately have "config_file_read_internal cs env check content cfg0 = Some (cfg0\<lparr>cfg_sections := map all_loaded (cfg_sections cfg)\<rparr>, more)"
    by (simp add: config_file_read_internal_def config_read_lines_append read_header file_text_def)
  moreover have "cfg0\<lparr>cfg_sections := u\<rparr> = cfg\<lparr>cfg_sections := u\<rparr>" for u using assms(3) by (cases cfg; cases cfg0) simp
  ultimately show ?thesis using w by auto
qed

definition sample_option :: "cstr \<Rightarrow> config_option_type \<Rightarrow> config_value \<Rightarrow> config_option" where
  "sample_option name type v = \<lparr>opt_path = None, opt_name = name, opt_parent_name = None, opt_type = type, opt_description = None,
     opt_string_values = None, opt_min = 0, opt_max = 2 ^ 31 - 1, opt_default_value = Some (case v of StrV t \<Rightarrow> StrV [] | IntV j \<Rightarrow> IntV 0), opt_value = Some v,
     opt_null_value_allowed = False, opt_callback_change = False, opt_loaded = False\<rparr>"

definition sample_config :: "cstr \<Rightarrow> int \<Rightarrow> config_file" where
  "sample_config s i = \<lparr>cfg_name = ''f'', cfg_sections = [\<lparr>sec_name = ''look'', sec_user_can_add_options = False,
     sec_user_can_delete_options = False, sec_callback_read = False, sec_callback_write = False, sec_callback_write_default = False, sec_callback_create_option = False,
     sec_options = [sample_option ''prefix'' OPTION_STRING (StrV s), sample_option ''#size'' OPTION_INTEGER (IntV i)]\<rparr>]\<rparr>"

definition utf8_terminal :: charset_env where
  "utf8_terminal = \<lparr>local_utf8 = True, local_charset = ''UTF-8'', charset_iconv = (\<lambda>from_utf8 charset s. s)\<rparr>"

lemma sample_text:
  "file_text plain_colors ''1'' ''f.conf'' (sample_config '' = #'' 7) = header_text ''1'' ''f.conf'' @
     [[], ''[look]'', ''prefix = '' @ [CHR 0x22] @ '' = #'' @ [CHR 0x22], CHR 0x5C # ''#size = 7'']"
proof -
  have "config_file_option_escape (Some ''prefix'') = []" "config_file_option_escape (Some ''#size'') = [CHR 0x5C]"
    by (simp_all add: config_file_option_escape_def bat_def)
  moreover have "string_of_int 7 = ''7''" by code_simp
  ultimately show ?thesis
    by (simp add: file_text_def section_text_def option_text_def sample_config_def sample_option_def config_option_line_def
      value_string_def Let_def)
qed

theorem config_file_write_read_witness:
  "\<exists>content calls. config_file_write_internal utf8_terminal plain_colors (\<lambda>sec. None) False ''1'' ''f.conf'' (sample_config '' = #'' 7) = Some (Some content) \<and>
    config_file_read_internal utf8_terminal plain_colors (\<lambda>opt. None) content (sample_config [] 0) =
    Some ((sample_config '' = #'' 7)\<lparr>cfg_sections := map all_loaded (cfg_sections (sample_config '' = #'' 7))\<rparr>, calls)"
proof (rule config_file_write_read)
  show "\<forall>sec\<in>set (cfg_sections (sample_config '' = #'' 7)). section_storable plain_colors sec"
    by (simp add: sample_config_def section_storable_def storable_def sample_option_def option_ok_def value_ok_def bounds_ok_def
      name_ok_def plain_text_def strcase_eq_def string_strcasecmp_def Let_def utf8_charcasecmp_def utf8_wide_char_def wint_of_char_def
      utf8_char_size_ascii)
  show "list_all2 other_values (cfg_sections (sample_config '' = #'' 7)) (cfg_sections (sample_config [] 0))"
    by (simp add: sample_config_def sample_option_def other_values_def other_value_def option_ok_def value_ok_def bounds_ok_def)
  show "sample_config [] 0 = (sample_config '' = #'' 7)\<lparr>cfg_sections := cfg_sections (sample_config [] 0)\<rparr>"
    by (simp add: sample_config_def)
  show "distinct_names (map sec_name (cfg_sections (sample_config '' = #'' 7)))" by (simp add: sample_config_def)
  show "\<forall>opt :: config_option. accepts None" by (simp add: accepts_def)
  show "charset_ok utf8_terminal (set (file_text plain_colors ''1'' ''f.conf'' (sample_config '' = #'' 7)))"
    unfolding sample_text by (subst charset_ok_utf8) (simp_all add: utf8_terminal_def header_text_def)
qed

end
