(* ===== verification/Spec2Isabelle.thy ===== *)
theory Spec2Isabelle
  imports Utf8 Arraylist Hashtable Hook_Command_Props Irc_Split String_Base String_Dyn Config_File
begin

text \<open>
  A verification development for WhoreIRC.
\<close>

end
